(* ===== verification/Rippled_Prelude.thy ===== *)
theory Rippled_Prelude
  imports Main "HOL-Library.AList" "HOL-Library.Word" "HOL-Library.Signed_Division"
begin

text \<open>
  Shared vocabulary of the development.

  \<^item> The clocks of the program. \<open>NetClock\<close> counts seconds in an unsigned 32-bit integer
    (\<^verbatim>\<open>include/xrpl/basics/chrono.h\<close>), so a network time is a \<open>32 word\<close>. Durations in
    milliseconds are signed 64-bit counts that stay far from their bounds: they are \<open>int\<close>.
    A steady-clock time point is an \<open>int\<close> number of nanoseconds.
  \<^item> The hash maps of the program (\<^verbatim>\<open>hash_map\<close>, \<^verbatim>\<open>std::unordered_map\<close>,
    \<^verbatim>\<open>boost::flat_map\<close>) as association lists without duplicate keys: the list order is the
    iteration order, which the C++ library leaves open. The interface the clients rely on is the
    locale \<open>hash_map_spec\<close>, interpreted on the association lists.
  \<^item> Generic facts on lists that several components use.
\<close>

type_synonym nettime = "32 word"
type_synonym netdur = "32 word"
type_synonym msecs = int
type_synonym steadytime = int

named_theorems hm_simps \<open>rewrite rules of the hash map operations\<close>

section \<open>Hash maps\<close>

type_synonym ('k, 'v) hm = "('k \<times> 'v) list"

definition hm_find :: "('k, 'v) hm \<Rightarrow> 'k \<Rightarrow> 'v option" where
  "hm_find m k = map_of m k"

definition hm_emplace :: "('k, 'v) hm \<Rightarrow> 'k \<Rightarrow> 'v \<Rightarrow> ('k, 'v) hm \<times> bool" where
  "hm_emplace m k v = (case map_of m k of None \<Rightarrow> (m @ [(k, v)], True) | Some _ \<Rightarrow> (m, False))"

definition hm_assign :: "('k, 'v) hm \<Rightarrow> 'k \<Rightarrow> 'v \<Rightarrow> ('k, 'v) hm" where
  "hm_assign m k v = AList.update k v m"

definition hm_erase :: "('k, 'v) hm \<Rightarrow> 'k \<Rightarrow> ('k, 'v) hm" where
  "hm_erase m k = AList.delete k m"

definition hm_wf :: "('k, 'v) hm \<Rightarrow> bool" where
  "hm_wf m \<longleftrightarrow> distinct (map fst m)"

definition hm_keys :: "('k, 'v) hm \<Rightarrow> 'k list" where
  "hm_keys m = map fst m"

text \<open>In-place update of every value, as in \<^verbatim>\<open>for (auto& [k, v] : m) v = f(k, v)\<close>.\<close>

definition hm_map :: "('k \<Rightarrow> 'v \<Rightarrow> 'v) \<Rightarrow> ('k, 'v) hm \<Rightarrow> ('k, 'v) hm" where
  "hm_map f m = map (\<lambda>(k, v). (k, f k v)) m"

locale hash_map_spec =
  fixes find :: "'m \<Rightarrow> 'k \<Rightarrow> 'v option"
    and emplace :: "'m \<Rightarrow> 'k \<Rightarrow> 'v \<Rightarrow> 'm \<times> bool"
    and assign :: "'m \<Rightarrow> 'k \<Rightarrow> 'v \<Rightarrow> 'm"
    and erase :: "'m \<Rightarrow> 'k \<Rightarrow> 'm"
    and modify :: "('k \<Rightarrow> 'v \<Rightarrow> 'v) \<Rightarrow> 'm \<Rightarrow> 'm"
    and nil :: "'m"
    and wf :: "'m \<Rightarrow> bool"
  assumes find_nil: "find nil k = None"
    and find_emplace: "find (fst (emplace m k v)) k' =
          (if k' = k \<and> find m k = None then Some v else find m k')"
    and emplaced: "snd (emplace m k v) \<longleftrightarrow> find m k = None"
    and find_assign: "find (assign m k v) k' = (if k' = k then Some v else find m k')"
    and find_erase: "find (erase m k) k' = (if k' = k then None else find m k')"
    and find_modify: "find (modify f m) k' = map_option (f k') (find m k')"
    and wf_nil: "wf nil"
    and wf_emplace: "wf m \<Longrightarrow> wf (fst (emplace m k v))"
    and wf_assign: "wf m \<Longrightarrow> wf (assign m k v)"
    and wf_erase: "wf m \<Longrightarrow> wf (erase m k)"
    and wf_modify: "wf m \<Longrightarrow> wf (modify f m)"
begin

lemma emplace_present: "find m k = Some v' \<Longrightarrow> find (fst (emplace m k v)) = find m"
  by (rule ext) (simp add: find_emplace)

lemma emplace_domain:
  "{x. find (fst (emplace m k v)) x \<noteq> None} = insert k {x. find m x \<noteq> None}"
  by (auto simp: find_emplace)

lemma modify_domain: "find (modify f m) k = None \<longleftrightarrow> find m k = None"
  by (simp add: find_modify)

end

lemma hm_find_map [hm_simps]: "hm_find (hm_map f m) k = map_option (f k) (hm_find m k)"
  by (induction m) (auto simp: hm_find_def hm_map_def)

lemma hm_keys_map [hm_simps]: "hm_keys (hm_map f m) = hm_keys m"
  by (induction m) (auto simp: hm_keys_def hm_map_def)

interpretation hm: hash_map_spec hm_find hm_emplace hm_assign hm_erase hm_map "[]" hm_wf
proof unfold_locales
  fix m :: "('k, 'v) hm" and k v assume "hm_wf m"
  then show "hm_wf (fst (hm_emplace m k v))"
    by (auto simp: hm_wf_def hm_emplace_def map_of_eq_None_iff split: option.splits)
next
  fix m :: "('k, 'v) hm" and k v assume "hm_wf m"
  then show "hm_wf (hm_assign m k v)"
    unfolding hm_wf_def hm_assign_def by (rule distinct_update)
next
  fix m :: "('k, 'v) hm" and k assume "hm_wf m"
  then show "hm_wf (hm_erase m k)"
    unfolding hm_wf_def hm_erase_def by (rule distinct_delete)
next
  fix m :: "('k, 'v) hm" and f assume "hm_wf m"
  then show "hm_wf (hm_map f m)"
    using hm_keys_map [of f m] by (simp add: hm_wf_def hm_keys_def)
qed (auto simp: hm_find_def hm_emplace_def hm_assign_def hm_erase_def hm_wf_def update_conv'
      delete_conv' map_add_def hm_find_map [unfolded hm_find_def] split: option.splits)

lemmas hm_laws [hm_simps] =
  hm.find_nil hm.find_emplace hm.emplaced hm.find_assign hm.find_erase
  hm.wf_nil hm.wf_emplace hm.wf_assign hm.wf_erase hm.wf_modify

lemma hm_find_in_set: "hm_find m k = Some v \<Longrightarrow> (k, v) \<in> set m"
  unfolding hm_find_def by (rule map_of_SomeD)

lemma hm_set_find: "hm_wf m \<Longrightarrow> (k, v) \<in> set m \<Longrightarrow> hm_find m k = Some v"
  by (simp add: hm_wf_def hm_find_def)

lemma hm_set_iff: "hm_wf m \<Longrightarrow> (k, v) \<in> set m \<longleftrightarrow> hm_find m k = Some v"
  using hm_find_in_set hm_set_find by metis

lemma hm_find_append [hm_simps]:
  "hm_find (m @ [(k, v)]) q =
     (case hm_find m q of Some w \<Rightarrow> Some w | None \<Rightarrow> if q = k then Some v else None)"
  by (auto simp: hm_find_def map_add_def split: option.splits)

lemma hm_find_Cons [hm_simps]: "hm_find ((k, v) # m) q = (if q = k then Some v else hm_find m q)"
  by (simp add: hm_find_def)

lemma hm_set_keys: "k \<in> set (hm_keys m) \<longleftrightarrow> hm_find m k \<noteq> None"
  by (simp add: hm_keys_def hm_find_def map_of_eq_None_iff)

lemma hm_find_filter:
  "hm_wf m \<Longrightarrow>
   hm_find (filter P m) k = (case hm_find m k of None \<Rightarrow> None | Some v \<Rightarrow> if P (k, v) then Some v else None)"
  by (induction m) (auto simp: hm_wf_def hm_find_def map_of_eq_None_iff split: option.splits)

lemma hm_wf_filter: "hm_wf m \<Longrightarrow> hm_wf (filter P m)"
  by (induction m) (auto simp: hm_wf_def)

lemma hm_wf_Cons: "hm_wf ((k, v) # m) \<longleftrightarrow> hm_wf m \<and> hm_find m k = None"
  by (auto simp: hm_wf_def hm_find_def map_of_eq_None_iff)

section \<open>A predicate on every entry of a hash map\<close>

lemma hm_assign_set: "(n, v) \<in> set (hm_assign m k w) \<Longrightarrow> (n, v) = (k, w) \<or> (n, v) \<in> set m"
  by (induction m) (auto simp: hm_assign_def split: if_splits)

definition hm_all :: "('k \<Rightarrow> 'v \<Rightarrow> bool) \<Rightarrow> ('k, 'v) hm \<Rightarrow> bool" where
  "hm_all P m \<longleftrightarrow> (\<forall>(k, v) \<in> set m. P k v)"

lemma hm_all_Nil: "hm_all P []"
  by (simp add: hm_all_def)

lemma hm_all_erase: "hm_all P m \<Longrightarrow> hm_all P (hm_erase m k)"
  by (auto simp: hm_all_def hm_erase_def AList.delete_eq)

lemma hm_all_assign: "hm_all P m \<Longrightarrow> P k v \<Longrightarrow> hm_all P (hm_assign m k v)"
  by (auto simp: hm_all_def dest!: hm_assign_set)

lemma hm_all_emplace: "hm_all P m \<Longrightarrow> P k v \<Longrightarrow> hm_all P (fst (hm_emplace m k v))"
  by (auto simp: hm_all_def hm_emplace_def split: option.splits)

lemma hm_all_find: "hm_all P m \<Longrightarrow> hm_find m k = Some v \<Longrightarrow> P k v"
  using hm_find_in_set by (fastforce simp: hm_all_def)

lemmas hm_all_rules = hm_all_Nil hm_all_erase hm_all_assign hm_all_emplace

lemma hm_all_filter: "hm_all P m \<Longrightarrow> hm_all P (filter Q m)"
  by (auto simp: hm_all_def)

end
