(* ===== verification/SHAMapNodeID.thy ===== *)
theory SHAMapNodeID
  imports Rippled_Prelude "HOL-Library.Word" "HOL-Library.Monad_Syntax"
begin

text \<open>
  Positions in a SHAMap, \<^verbatim>\<open>SHAMapNodeID.h\<close> and \<^verbatim>\<open>SHAMapNodeID.cpp\<close>. A 256-bit number is the list of its
  32 bytes, most significant first, as \<^verbatim>\<open>base_uint\<close> stores it; every nibble of a key selects one of
  16 branches. A position is a depth and the key prefix of that length, the other bits zero.
  A thrown \<^verbatim>\<open>std::logic_error\<close> is \<open>None\<close>.
\<close>

unbundle bit_operations_syntax

type_synonym byte = "8 word"
type_synonym uint256 = "byte list"

abbreviation uint256_ok :: "uint256 \<Rightarrow> bool" where
  "uint256_ok k \<equiv> length k = 32"

definition zero256 :: uint256 where
  "zero256 = replicate 32 0"

definition kBranchFactor :: nat where
  "kBranchFactor = 16"

definition kLeafDepth :: nat where
  "kLeafDepth = 64"

section \<open>The masks\<close>

function masks_loop :: "nat \<Rightarrow> uint256 \<Rightarrow> uint256 list" where
  "masks_loop i selector =
     (if i < kLeafDepth
      then selector # selector[i div 2 := 0xF0] # masks_loop (i + 2) (selector[i div 2 := 0xFF])
      else [selector])"
  by pat_completeness auto
termination
  by (relation "measure (\<lambda>(i, s). kLeafDepth - i)") auto

declare masks_loop.simps [simp del]

definition depthMask :: "nat \<Rightarrow> uint256" where
  "depthMask depth = masks_loop 0 zero256 ! depth"

definition maskedToDepth :: "uint256 \<Rightarrow> nat \<Rightarrow> uint256" where
  "maskedToDepth key depth = map2 (AND) key (depthMask depth)"

definition isPrefixOfAtDepth :: "uint256 \<Rightarrow> nat \<Rightarrow> uint256 \<Rightarrow> bool" where
  "isPrefixOfAtDepth i depth key \<longleftrightarrow> maskedToDepth key depth = i"

section \<open>Node identifiers\<close>

record node_id =
  ni_id :: uint256
  ni_depth :: nat

definition node_id_root :: node_id where
  "node_id_root = \<lparr>ni_id = zero256, ni_depth = 0\<rparr>"

definition SHAMapNodeID_new :: "nat \<Rightarrow> uint256 \<Rightarrow> node_id" where
  "SHAMapNodeID_new depth h =
     (if depth > kLeafDepth then \<lparr>ni_id = maskedToDepth h kLeafDepth, ni_depth = kLeafDepth\<rparr>
      else \<lparr>ni_id = h, ni_depth = depth\<rparr>)"

definition isRoot :: "node_id \<Rightarrow> bool" where
  "isRoot n \<longleftrightarrow> ni_depth n = 0"

definition getRawString :: "node_id \<Rightarrow> byte list" where
  "getRawString n = ni_id n @ [of_nat (ni_depth n)]"

definition isPrefixOf :: "node_id \<Rightarrow> uint256 \<Rightarrow> bool" where
  "isPrefixOf n key \<longleftrightarrow> isPrefixOfAtDepth (ni_id n) (ni_depth n) key"

definition getChildNodeID :: "node_id \<Rightarrow> nat \<Rightarrow> node_id option" where
  "getChildNodeID n branch =
     (if ni_depth n \<ge> kLeafDepth then None
      else if \<not> isPrefixOf n (ni_id n) then None
      else
        let node = SHAMapNodeID_new (ni_depth n + 1) (ni_id n);
            i = ni_depth n div 2;
            b = (if odd (ni_depth n) then of_nat branch else push_bit 4 (of_nat branch))
        in Some (node\<lparr>ni_id := (ni_id node)[i := (ni_id node ! i) OR b]\<rparr>))"

definition deserializeSHAMapNodeID :: "byte list \<Rightarrow> node_id option" where
  "deserializeSHAMapNodeID d =
     (if length d = 33
      then let depth = unat (d ! 32)
           in if depth \<le> kLeafDepth
              then let i = take 32 d
                   in if isPrefixOfAtDepth i depth i then Some (SHAMapNodeID_new depth i) else None
              else None
      else None)"

definition selectBranch :: "node_id \<Rightarrow> uint256 \<Rightarrow> nat" where
  "selectBranch n h =
     (let depth = min (ni_depth n) (kLeafDepth - 1);
          branch = h ! (depth div 2)
      in unat (if odd depth then branch AND 0xF else drop_bit 4 branch))"

definition createID :: "nat \<Rightarrow> uint256 \<Rightarrow> node_id" where
  "createID depth key =
     (let depth' = (if depth > kLeafDepth then kLeafDepth else depth)
      in SHAMapNodeID_new depth' (maskedToDepth key depth'))"

section \<open>Nibbles\<close>

text \<open>The 64 nibbles of a key, the path of its leaf from the root.\<close>

definition nibble :: "uint256 \<Rightarrow> nat \<Rightarrow> nat" where
  "nibble k d = unat (if odd d then k ! (d div 2) AND 0xF else drop_bit 4 (k ! (d div 2)))"

definition nibbles :: "uint256 \<Rightarrow> nat list" where
  "nibbles k = map (nibble k) [0..<64]"

lemma length_nibbles [simp]: "length (nibbles k) = 64"
  by (simp add: nibbles_def)

lemma nibbles_nth: "d < 64 \<Longrightarrow> nibbles k ! d = nibble k d"
  by (simp add: nibbles_def)

lemma selectBranch_nibble: "ni_depth n < 64 \<Longrightarrow> selectBranch n k = nibble k (ni_depth n)"
  by (simp add: selectBranch_def nibble_def kLeafDepth_def Let_def min_def)

lemma byte_and_15: "unat ((b :: byte) AND 0xF) < 16"
proof -
  have "b AND 0xF \<le> 0xF" by (rule word_and_le1)
  then show ?thesis by (simp add: word_le_nat_alt)
qed

lemma byte_drop_4: "unat (drop_bit 4 (b :: byte)) < 16"
  unfolding unat_drop_bit_eq using unsigned_less [of b, where 'a = nat] by (simp add: drop_bit_eq_div)

lemma nibble_less [simp]: "nibble k d < 16"
  by (simp add: nibble_def byte_and_15 byte_drop_4)

lemma byte_nibbles: "(a :: byte) = b \<longleftrightarrow> drop_bit 4 a = drop_bit 4 b \<and> a AND 0xF = b AND 0xF"
proof
  assume eq: "drop_bit 4 a = drop_bit 4 b \<and> a AND 0xF = b AND 0xF"
  have mask: "(0xF :: byte) = mask 4" by (simp add: mask_eq_exp_minus_1)
  have split: "x = push_bit 4 (drop_bit 4 x) OR (x AND mask 4)" for x :: byte
    by (rule bit_word_eqI) (auto simp: bit_simps)
  have "a = push_bit 4 (drop_bit 4 a) OR (a AND mask 4)" by (rule split)
  also have "\<dots> = push_bit 4 (drop_bit 4 b) OR (b AND mask 4)" using eq by (simp only: mask)
  also have "\<dots> = b" by (rule split [symmetric])
  finally show "a = b" .
qed simp

lemma nibbles_inj: "uint256_ok k \<Longrightarrow> uint256_ok k' \<Longrightarrow> nibbles k = nibbles k' \<longleftrightarrow> k = k'"
proof
  assume ok: "uint256_ok k" "uint256_ok k'" and eq: "nibbles k = nibbles k'"
  show "k = k'"
  proof (rule nth_equalityI)
    fix i assume "i < length k"
    then have i: "2 * i < 64" "2 * i + 1 < 64" using ok by simp_all
    have nib: "nibble k d = nibble k' d" if "d < 64" for d
      using arg_cong [OF eq, of "\<lambda>ns. ns ! d"] that by (simp add: nibbles_nth)
    have "unat (drop_bit 4 (k ! i)) = unat (drop_bit 4 (k' ! i))" "unat (k ! i AND 0xF) = unat (k' ! i AND 0xF)"
      using nib [OF i(1)] nib [OF i(2)] by (simp_all add: nibble_def)
    then have "drop_bit 4 (k ! i) = drop_bit 4 (k' ! i)" "k ! i AND 0xF = k' ! i AND 0xF"
      by (blast intro: unsigned_word_eqI)+
    then show "k ! i = k' ! i" by (subst byte_nibbles) (rule conjI)
  qed (use ok in simp)
qed simp

section \<open>Prefixes\<close>

definition mask_byte :: "nat \<Rightarrow> nat \<Rightarrow> byte" where
  "mask_byte d j = (if j < d div 2 then 0xFF else if j = d div 2 \<and> odd d then 0xF0 else 0)"

lemma masks_loop_nth:
  "even i \<Longrightarrow> i + n \<le> 64 \<Longrightarrow> sel = map (mask_byte i) [0..<32] \<Longrightarrow>
   masks_loop i sel ! n = map (mask_byte (i + n)) [0..<32]"
proof (induction i sel arbitrary: n rule: masks_loop.induct)
  case (1 i sel)
  show ?case
  proof (cases "i < 64")
    case True
    have odd: "sel[i div 2 := 0xF0] = map (mask_byte (Suc i)) [0..<32]"
      using 1(2,4) True by (auto simp: mask_byte_def list_eq_iff_nth_eq nth_list_update)
    have even: "sel[i div 2 := 0xFF] = map (mask_byte (i + 2)) [0..<32]"
      using 1(2,4) True by (auto simp: mask_byte_def list_eq_iff_nth_eq nth_list_update)
    have loop: "masks_loop i sel = sel # sel[i div 2 := 0xF0] # masks_loop (i + 2) (sel[i div 2 := 0xFF])"
      using True by (subst masks_loop.simps) (simp add: kLeafDepth_def)
    consider "n = 0" | "n = 1" | m where "n = m + 2" by (metis One_nat_def add_2_eq_Suc' not0_implies_Suc)
    then show ?thesis
    proof cases
      case 1
      then show ?thesis unfolding loop using \<open>sel = _\<close> by simp
    next
      case 2
      then show ?thesis unfolding loop using odd by simp
    next
      case 3
      have "masks_loop (i + 2) (sel[i div 2 := 0xFF]) ! m = map (mask_byte (i + 2 + m)) [0..<32]"
        by (rule 1(1)) (use True even 1(2,3) 3 in \<open>simp_all add: kLeafDepth_def\<close>)
      then show ?thesis by (simp add: loop 3 ac_simps)
    qed
  next
    case False
    then have "n = 0" using 1(3) by simp
    then show ?thesis using False 1(4) by (subst masks_loop.simps) (simp add: kLeafDepth_def)
  qed
qed

lemma depthMask_eq: "d \<le> 64 \<Longrightarrow> depthMask d = map (mask_byte d) [0..<32]"
  using masks_loop_nth [of 0 d zero256]
  by (simp add: depthMask_def) (simp add: zero256_def mask_byte_def list_eq_iff_nth_eq)

lemma maskedToDepth_length: "uint256_ok k \<Longrightarrow> d \<le> 64 \<Longrightarrow> uint256_ok (maskedToDepth k d)"
  by (simp add: maskedToDepth_def depthMask_eq)

lemma maskedToDepth_nth: "uint256_ok k \<Longrightarrow> d \<le> 64 \<Longrightarrow> j < 32 \<Longrightarrow> maskedToDepth k d ! j = k ! j AND mask_byte d j"
  by (simp add: maskedToDepth_def depthMask_eq)

lemma byte_masks: "(b :: byte) AND 0xFF = b" "(b AND 0xF0) AND 0xF = 0" "drop_bit 4 (b AND 0xF0) = drop_bit 4 b"
  "(b AND 0xF0) AND 0xF0 = b AND 0xF0" "push_bit 4 (drop_bit 4 b) = b AND 0xF0" "(b AND 0xF0) OR (b AND 0xF) = b"
  "drop_bit 4 b AND 0xF = drop_bit 4 b"
proof -
  have m: "(0xF :: byte) = mask 4" "(0xFF :: byte) = mask 8" "(0xF0 :: byte) = push_bit 4 (mask 4)"
    by (simp_all add: mask_eq_exp_minus_1 push_bit_eq_mult)
  show "b AND 0xFF = b" "(b AND 0xF0) AND 0xF = 0" "drop_bit 4 (b AND 0xF0) = drop_bit 4 b"
    "(b AND 0xF0) AND 0xF0 = b AND 0xF0" "push_bit 4 (drop_bit 4 b) = b AND 0xF0" "(b AND 0xF0) OR (b AND 0xF) = b"
    "drop_bit 4 b AND 0xF = drop_bit 4 b"
    unfolding m by (rule bit_word_eqI; auto simp: bit_simps dest: bit_imp_le_length)+
qed

lemma nibble_masked:
  assumes "uint256_ok k" "d \<le> 64" "e < 64"
  shows "nibble (maskedToDepth k d) e = (if e < d then nibble k e else 0)"
proof -
  have j: "e div 2 < 32" using assms by simp
  have *: "maskedToDepth k d ! (e div 2) = k ! (e div 2) AND mask_byte d (e div 2)"
    by (rule maskedToDepth_nth [OF assms(1,2) j])
  have "e div 2 < d div 2 \<or> e div 2 = d div 2 \<or> e div 2 > d div 2" by linarith
  then show ?thesis
    unfolding nibble_def *
    by (elim disjE) (auto simp: mask_byte_def byte_masks elim!: evenE oddE)
qed

lemma maskedToDepth_eq_iff:
  assumes "uint256_ok k" "uint256_ok k'" "d \<le> 64"
  shows "maskedToDepth k d = maskedToDepth k' d \<longleftrightarrow> take d (nibbles k) = take d (nibbles k')"
proof -
  have "maskedToDepth k d = maskedToDepth k' d \<longleftrightarrow> nibbles (maskedToDepth k d) = nibbles (maskedToDepth k' d)"
    using nibbles_inj maskedToDepth_length assms by metis
  also have "\<dots> \<longleftrightarrow> (\<forall>e < d. nibble k e = nibble k' e)"
    using assms by (auto simp: list_eq_iff_nth_eq nibbles_nth nibble_masked)
  also have "\<dots> \<longleftrightarrow> take d (nibbles k) = take d (nibbles k')"
    using assms(3) by (simp add: list_eq_iff_nth_eq nibbles_nth)
  finally show ?thesis .
qed

lemma maskedToDepth_idem:
  assumes "uint256_ok k" "d \<le> 64"
  shows "maskedToDepth (maskedToDepth k d) d = maskedToDepth k d"
proof -
  have "uint256_ok (maskedToDepth k d)" by (rule maskedToDepth_length [OF assms])
  moreover have "take d (nibbles (maskedToDepth k d)) = take d (nibbles k)"
    using assms by (simp add: list_eq_iff_nth_eq nibbles_nth nibble_masked)
  ultimately show ?thesis using maskedToDepth_eq_iff assms by blast
qed

section \<open>Properties\<close>

definition node_id_ok :: "node_id \<Rightarrow> bool" where
  "node_id_ok n \<longleftrightarrow> uint256_ok (ni_id n) \<and> ni_depth n \<le> kLeafDepth \<and> isPrefixOf n (ni_id n)"

lemma createID_simps:
  assumes "d \<le> 64"
  shows "ni_depth (createID d k) = d" "ni_id (createID d k) = maskedToDepth k d"
  using assms by (simp_all add: createID_def SHAMapNodeID_new_def kLeafDepth_def)

lemma node_id_root_eq: "uint256_ok k \<Longrightarrow> node_id_root = createID 0 k"
  by (simp add: node_id_root_def createID_def SHAMapNodeID_new_def kLeafDepth_def zero256_def list_eq_iff_nth_eq
      maskedToDepth_nth maskedToDepth_length mask_byte_def)

lemma createID_ok: "uint256_ok k \<Longrightarrow> d \<le> 64 \<Longrightarrow> node_id_ok (createID d k)"
  by (simp add: node_id_ok_def createID_simps kLeafDepth_def isPrefixOf_def isPrefixOfAtDepth_def
      maskedToDepth_length maskedToDepth_idem)

lemma createID_isPrefixOf:
  "uint256_ok k \<Longrightarrow> uint256_ok k' \<Longrightarrow> d \<le> 64 \<Longrightarrow>
   isPrefixOf (createID d k) k' \<longleftrightarrow> take d (nibbles k) = take d (nibbles k')"
  using maskedToDepth_eq_iff [of k k' d] by (auto simp: isPrefixOf_def isPrefixOfAtDepth_def createID_simps)

lemma createID_child:
  assumes k: "uint256_ok k" and d: "d < 64"
  shows "getChildNodeID (createID d k) (nibble k d) = Some (createID (Suc d) k)"
proof -
  let ?m = "maskedToDepth k d" and ?i = "d div 2"
  let ?b = "if odd d then of_nat (nibble k d) else push_bit 4 (of_nat (nibble k d)) :: byte"
  have i: "?i < 32" and m: "uint256_ok ?m" using d k by (simp_all add: maskedToDepth_length)
  have "isPrefixOf (createID d k) ?m"
    using createID_ok [OF k, of d] d by (simp add: node_id_ok_def createID_simps)
  then have "getChildNodeID (createID d k) (nibble k d) = Some \<lparr>ni_id = ?m[?i := ?m ! ?i OR ?b], ni_depth = Suc d\<rparr>"
    using d by (simp add: getChildNodeID_def createID_simps kLeafDepth_def SHAMapNodeID_new_def Let_def)
  moreover have "?m[?i := ?m ! ?i OR ?b] = maskedToDepth k (Suc d)"
  proof (rule nth_equalityI)
    fix j assume "j < length (?m[?i := ?m ! ?i OR ?b])"
    then have j: "j < 32" using m by simp
    show "?m[?i := ?m ! ?i OR ?b] ! j = maskedToDepth k (Suc d) ! j"
    proof (cases "odd d")
      case True
      then have "Suc d div 2 = Suc ?i" "even (Suc d)" by auto
      then show ?thesis
        using True m i j d k by (auto simp: nth_list_update maskedToDepth_nth mask_byte_def nibble_def byte_masks)
    next
      case False
      then have "Suc d div 2 = ?i" by auto
      then show ?thesis
        using False m i j d k by (auto simp: nth_list_update maskedToDepth_nth mask_byte_def nibble_def byte_masks)
    qed
  qed (use m k d in \<open>simp add: maskedToDepth_length\<close>)
  moreover have "createID (Suc d) k = \<lparr>ni_id = maskedToDepth k (Suc d), ni_depth = Suc d\<rparr>"
    using d by (simp add: createID_def SHAMapNodeID_new_def kLeafDepth_def)
  ultimately show ?thesis by simp
qed

text \<open>
  The wire format of node identifiers is exact. A byte string is accepted if and only if it is
  the serialization of a valid identifier (32 bytes of prefix, no bit set below the depth, depth at
  most 64), and it is then read as that identifier.
\<close>

theorem node_id_wire_roundtrip:
  "deserializeSHAMapNodeID d = Some n \<longleftrightarrow> node_id_ok n \<and> d = getRawString n"
proof
  assume d: "deserializeSHAMapNodeID d = Some n"
  then have len: "length d = 33" and n: "n = \<lparr>ni_id = take 32 d, ni_depth = unat (d ! 32)\<rparr>"
    and ok: "unat (d ! 32) \<le> 64" "isPrefixOfAtDepth (take 32 d) (unat (d ! 32)) (take 32 d)"
    by (auto simp: deserializeSHAMapNodeID_def SHAMapNodeID_new_def kLeafDepth_def Let_def split: if_splits)
  have "d = take 32 d @ [d ! 32]" using len take_Suc_conv_app_nth [of 32 d] by simp
  then show "node_id_ok n \<and> d = getRawString n"
    using len ok by (simp add: n node_id_ok_def getRawString_def kLeafDepth_def isPrefixOf_def)
next
  assume "node_id_ok n \<and> d = getRawString n"
  then have ok: "uint256_ok (ni_id n)" "ni_depth n \<le> 64" "isPrefixOfAtDepth (ni_id n) (ni_depth n) (ni_id n)"
    and d: "d = ni_id n @ [of_nat (ni_depth n)]"
    by (simp_all add: node_id_ok_def getRawString_def kLeafDepth_def isPrefixOf_def)
  have "unat (of_nat (ni_depth n) :: byte) = ni_depth n" using ok(2) by (simp add: unat_of_nat)
  then show "deserializeSHAMapNodeID d = Some n"
    using ok by (simp add: d deserializeSHAMapNodeID_def nth_append SHAMapNodeID_new_def kLeafDepth_def Let_def)
qed

text \<open>
  Descending is consistent with prefixes. From the identifier of a key at some depth, the branch
  selected for the key leads to the identifier of the key one level deeper, without an exception, and
  an identifier covers exactly the keys that share its nibbles.
\<close>

theorem selectBranch_walk:
  assumes "uint256_ok k" and "uint256_ok k'" and "d < 64"
  shows "getChildNodeID (createID d k) (selectBranch (createID d k) k) = Some (createID (Suc d) k) \<and>
    selectBranch (createID d k) k < kBranchFactor \<and>
    (isPrefixOf (createID (Suc d) k) k' \<longleftrightarrow>
       isPrefixOf (createID d k) k' \<and> selectBranch (createID d k) k = selectBranch (createID d k) k')"
proof -
  have "selectBranch (createID d k) k = nibble k d" "selectBranch (createID d k) k' = nibble k' d"
    using assms(3) by (simp_all add: selectBranch_nibble createID_simps)
  moreover have "take (Suc d) (nibbles k) = take (Suc d) (nibbles k') \<longleftrightarrow>
      take d (nibbles k) = take d (nibbles k') \<and> nibble k d = nibble k' d"
    using assms(3) by (simp add: take_Suc_conv_app_nth nibbles_nth)
  ultimately show ?thesis
    using assms createID_child by (simp add: createID_isPrefixOf kBranchFactor_def)
qed

theorem selectBranch_walk_witness:
  "getChildNodeID (createID 3 (replicate 32 0xAB)) (selectBranch (createID 3 (replicate 32 0xAB)) (replicate 32 0xAB)) =
   Some (createID 4 (replicate 32 0xAB))"
  using selectBranch_walk [of "replicate 32 0xAB" "replicate 32 0xAB" 3] by simp

end
