(* ===== verification/SHAMapTreeNode.thy ===== *)
theory SHAMapTreeNode
  imports SHAMapNodeID
begin

text \<open>
  The nodes of a SHAMap as they are hashed, stored and sent: \<^verbatim>\<open>SHAMapTreeNode.cpp\<close>,
  \<^verbatim>\<open>SHAMapInnerNode.cpp\<close>, the three leaf node headers and \<^verbatim>\<open>HashPrefix.h\<close>. An inner node holds the bit
  mask of its branches and the hashes of its children; \<^verbatim>\<open>TaggedPointer\<close> only packs these arrays. The
  digest \<^verbatim>\<open>sha512Half\<close> is the parameter \<open>sha\<close>. A constructor that throws returns \<open>None\<close>.
\<close>

section \<open>Data\<close>

datatype SHAMapNodeType = TnTransactionNm | TnTransactionMd | TnAccountState

record shamap_item =
  si_key :: uint256
  si_data :: "byte list"

record inner_node =
  in_isBranch :: "16 word"
  in_hashes :: "uint256 list"

datatype flat_node = FInner inner_node | FLeaf SHAMapNodeType shamap_item

type_synonym digest = "byte list \<Rightarrow> uint256"

definition makeHashPrefix :: "byte \<Rightarrow> byte \<Rightarrow> byte \<Rightarrow> byte list" where
  "makeHashPrefix a b c = [a, b, c, 0]"

definition prefix_TransactionId :: "byte list" where
  "prefix_TransactionId = makeHashPrefix 0x54 0x58 0x4E"

definition prefix_TxNode :: "byte list" where
  "prefix_TxNode = makeHashPrefix 0x53 0x4E 0x44"

definition prefix_LeafNode :: "byte list" where
  "prefix_LeafNode = makeHashPrefix 0x4D 0x4C 0x4E"

definition prefix_InnerNode :: "byte list" where
  "prefix_InnerNode = makeHashPrefix 0x4D 0x49 0x4E"

definition kWireTypeTransaction :: byte where
  "kWireTypeTransaction = 0"

definition kWireTypeAccountState :: byte where
  "kWireTypeAccountState = 1"

definition kWireTypeInner :: byte where
  "kWireTypeInner = 2"

definition kWireTypeCompressedInner :: byte where
  "kWireTypeCompressedInner = 3"

definition kWireTypeTransactionWithMeta :: byte where
  "kWireTypeTransactionWithMeta = 4"

definition kMinShaMapItemBytes :: nat where
  "kMinShaMapItemBytes = 12"

section \<open>Inner nodes\<close>

definition inner_empty :: inner_node where
  "inner_empty = \<lparr>in_isBranch = 0, in_hashes = replicate 16 zero256\<rparr>"

definition isEmptyBranch :: "inner_node \<Rightarrow> nat \<Rightarrow> bool" where
  "isEmptyBranch n i \<longleftrightarrow> \<not> bit (in_isBranch n) i"

definition branch_list :: "inner_node \<Rightarrow> nat list" where
  "branch_list n = filter (\<lambda>i. \<not> isEmptyBranch n i) [0..<kBranchFactor]"

definition getBranchCount :: "inner_node \<Rightarrow> nat" where
  "getBranchCount n = length (branch_list n)"

definition getChildHash :: "inner_node \<Rightarrow> nat \<Rightarrow> uint256" where
  "getChildHash n i = (if isEmptyBranch n i then zero256 else in_hashes n ! i)"

definition iterChildren :: "inner_node \<Rightarrow> byte list" where
  "iterChildren n = concat (map (getChildHash n) [0..<kBranchFactor])"

definition inner_set :: "nat \<Rightarrow> uint256 \<Rightarrow> inner_node \<Rightarrow> inner_node" where
  "inner_set i h n =
     \<lparr>in_isBranch = (if h \<noteq> zero256 then in_isBranch n OR push_bit i 1 else in_isBranch n),
      in_hashes = (in_hashes n)[i := h]\<rparr>"

definition makeFullInner :: "byte list \<Rightarrow> inner_node option" where
  "makeFullInner d =
     (if length d \<noteq> kBranchFactor * 32 then None
      else Some (fold (\<lambda>i. inner_set i (take 32 (drop (32 * i) d))) [0..<kBranchFactor] inner_empty))"

fun compressed_loop :: "byte list \<Rightarrow> inner_node \<Rightarrow> inner_node option" where
  "compressed_loop d n =
     (if d = [] then Some n
      else
        let h = take 32 d;
            pos = unat (d ! 32)
        in if pos \<ge> kBranchFactor then None
           else compressed_loop (drop 33 d) (inner_set pos h n))"

declare compressed_loop.simps [simp del]

definition makeCompressedInner :: "byte list \<Rightarrow> inner_node option" where
  "makeCompressedInner d =
     (if length d mod 33 \<noteq> 0 \<or> length d > 33 * kBranchFactor then None
      else compressed_loop d inner_empty)"

section \<open>Hashing and serialization\<close>

definition inner_updateHash :: "digest \<Rightarrow> inner_node \<Rightarrow> uint256" where
  "inner_updateHash sha n =
     (if in_isBranch n \<noteq> 0 then sha (prefix_InnerNode @ iterChildren n) else zero256)"

fun leaf_updateHash :: "digest \<Rightarrow> SHAMapNodeType \<Rightarrow> shamap_item \<Rightarrow> uint256" where
  "leaf_updateHash sha TnTransactionNm i = sha (prefix_TransactionId @ si_data i)"
| "leaf_updateHash sha TnTransactionMd i = sha (prefix_TxNode @ si_data i @ si_key i)"
| "leaf_updateHash sha TnAccountState i = sha (prefix_LeafNode @ si_data i @ si_key i)"

fun node_updateHash :: "digest \<Rightarrow> flat_node \<Rightarrow> uint256" where
  "node_updateHash sha (FInner n) = inner_updateHash sha n"
| "node_updateHash sha (FLeaf t i) = leaf_updateHash sha t i"

definition inner_serializeForWire :: "inner_node \<Rightarrow> byte list" where
  "inner_serializeForWire n =
     (if getBranchCount n < 12
      then concat (map (\<lambda>i. in_hashes n ! i @ [of_nat i]) (branch_list n)) @ [kWireTypeCompressedInner]
      else iterChildren n @ [kWireTypeInner])"

fun leaf_serializeForWire :: "SHAMapNodeType \<Rightarrow> shamap_item \<Rightarrow> byte list" where
  "leaf_serializeForWire TnTransactionNm i = si_data i @ [kWireTypeTransaction]"
| "leaf_serializeForWire TnTransactionMd i = si_data i @ si_key i @ [kWireTypeTransactionWithMeta]"
| "leaf_serializeForWire TnAccountState i = si_data i @ si_key i @ [kWireTypeAccountState]"

fun serializeForWire :: "flat_node \<Rightarrow> byte list" where
  "serializeForWire (FInner n) = inner_serializeForWire n"
| "serializeForWire (FLeaf t i) = leaf_serializeForWire t i"

definition inner_serializeWithPrefix :: "inner_node \<Rightarrow> byte list" where
  "inner_serializeWithPrefix n = prefix_InnerNode @ iterChildren n"

fun leaf_serializeWithPrefix :: "SHAMapNodeType \<Rightarrow> shamap_item \<Rightarrow> byte list" where
  "leaf_serializeWithPrefix TnTransactionNm i = prefix_TransactionId @ si_data i"
| "leaf_serializeWithPrefix TnTransactionMd i = prefix_TxNode @ si_data i @ si_key i"
| "leaf_serializeWithPrefix TnAccountState i = prefix_LeafNode @ si_data i @ si_key i"

fun serializeWithPrefix :: "flat_node \<Rightarrow> byte list" where
  "serializeWithPrefix (FInner n) = inner_serializeWithPrefix n"
| "serializeWithPrefix (FLeaf t i) = leaf_serializeWithPrefix t i"

section \<open>Parsing\<close>

text \<open>The outcome of a parser: the null pointer, an exception, or a node.\<close>

datatype parsed = PNull | PThrow | PNode flat_node

definition makeTransaction :: "digest \<Rightarrow> byte list \<Rightarrow> flat_node option" where
  "makeTransaction sha d =
     (if length d < kMinShaMapItemBytes then None
      else Some (FLeaf TnTransactionNm \<lparr>si_key = sha (prefix_TransactionId @ d), si_data = d\<rparr>))"

definition makeTransactionWithMeta :: "byte list \<Rightarrow> flat_node option" where
  "makeTransactionWithMeta d =
     (if length d < 32 then None
      else
        let tag = drop (length d - 32) d;
            s = take (length d - 32) d
        in if length s < kMinShaMapItemBytes then None
           else Some (FLeaf TnTransactionMd \<lparr>si_key = tag, si_data = s\<rparr>))"

definition makeAccountState :: "byte list \<Rightarrow> flat_node option" where
  "makeAccountState d =
     (if length d < 32 then None
      else
        let tag = drop (length d - 32) d;
            s = take (length d - 32) d
        in if tag = zero256 then None
           else if length s < kMinShaMapItemBytes then None
           else Some (FLeaf TnAccountState \<lparr>si_key = tag, si_data = s\<rparr>))"

definition parse_or_throw :: "flat_node option \<Rightarrow> parsed" where
  "parse_or_throw r = (case r of None \<Rightarrow> PThrow | Some n \<Rightarrow> PNode n)"

definition makeFromWire :: "digest \<Rightarrow> byte list \<Rightarrow> parsed" where
  "makeFromWire sha rawNode =
     (if rawNode = [] then PNull
      else
        let type = last rawNode;
            d = butlast rawNode
        in parse_or_throw
             (if type = kWireTypeTransaction then makeTransaction sha d
              else if type = kWireTypeAccountState then makeAccountState d
              else if type = kWireTypeInner then map_option FInner (makeFullInner d)
              else if type = kWireTypeCompressedInner then map_option FInner (makeCompressedInner d)
              else if type = kWireTypeTransactionWithMeta then makeTransactionWithMeta d
              else None))"

text \<open>The hash of a stored node is given by the caller and kept.\<close>

definition makeFromPrefix :: "digest \<Rightarrow> byte list \<Rightarrow> uint256 \<Rightarrow> parsed \<times> uint256" where
  "makeFromPrefix sha rawNode h =
     (if length rawNode < 4 then (PThrow, h)
      else
        let type = take 4 rawNode;
            d = drop 4 rawNode
        in (parse_or_throw
              (if type = prefix_TransactionId then makeTransaction sha d
               else if type = prefix_LeafNode then makeAccountState d
               else if type = prefix_InnerNode then map_option FInner (makeFullInner d)
               else if type = prefix_TxNode then makeTransactionWithMeta d
               else None), h))"

lemmas wire_types = kWireTypeTransaction_def kWireTypeAccountState_def kWireTypeInner_def
  kWireTypeCompressedInner_def kWireTypeTransactionWithMeta_def

lemmas prefix_defs = prefix_TransactionId_def prefix_TxNode_def prefix_LeafNode_def prefix_InnerNode_def makeHashPrefix_def

section \<open>Well-formed nodes\<close>

definition inner_ok :: "inner_node \<Rightarrow> bool" where
  "inner_ok n \<longleftrightarrow> length (in_hashes n) = 16 \<and> list_all uint256_ok (in_hashes n) \<and>
     (\<forall>i < 16. bit (in_isBranch n) i \<longleftrightarrow> in_hashes n ! i \<noteq> zero256)"

fun flat_ok :: "digest \<Rightarrow> flat_node \<Rightarrow> bool" where
  "flat_ok sha (FInner n) \<longleftrightarrow> inner_ok n \<and> in_isBranch n \<noteq> 0"
| "flat_ok sha (FLeaf t i) \<longleftrightarrow> uint256_ok (si_key i) \<and> kMinShaMapItemBytes \<le> length (si_data i) \<and>
     (t = TnTransactionNm \<longrightarrow> si_key i = sha (prefix_TransactionId @ si_data i)) \<and>
     (t = TnAccountState \<longrightarrow> si_key i \<noteq> zero256)"

lemma zero256_ok [simp]: "uint256_ok zero256"
  by (simp add: zero256_def)

lemma inner_empty_ok: "inner_ok inner_empty"
  by (simp add: inner_ok_def inner_empty_def list_all_iff)

lemma bit_set_branch: "i < 16 \<Longrightarrow> bit ((w :: 16 word) OR 2 ^ i) j \<longleftrightarrow> bit w j \<or> j = i"
  by (auto simp: bit_simps)

lemma inner_set_simps:
  assumes "i < 16"
  shows "bit (in_isBranch (inner_set i h n)) j \<longleftrightarrow> bit (in_isBranch n) j \<or> j = i \<and> h \<noteq> zero256"
    "in_hashes (inner_set i h n) = (in_hashes n)[i := h]"
  using assms by (auto simp: inner_set_def bit_set_branch)

lemma inner_set_fold:
  fixes f :: "nat \<Rightarrow> uint256"
  assumes "list_all (\<lambda>i. i < 16) js" "distinct js" "length (in_hashes n) = 16"
  defines "n' \<equiv> fold (\<lambda>i. inner_set i (f i)) js n"
  shows "length (in_hashes n') = 16 \<and>
    (\<forall>j < 16. in_hashes n' ! j = (if j \<in> set js then f j else in_hashes n ! j) \<and>
       (bit (in_isBranch n') j \<longleftrightarrow> bit (in_isBranch n) j \<or> j \<in> set js \<and> f j \<noteq> zero256))"
  using assms(1,2,3) unfolding n'_def
proof (induction js arbitrary: n)
  case (Cons i js)
  have i: "i < 16" using Cons.prems by simp
  then show ?case
    using Cons.IH [of "inner_set i (f i) n"] Cons.prems by (auto simp: inner_set_simps nth_list_update)
qed simp

lemma inner_eqI:
  assumes "length (in_hashes a) = 16" "length (in_hashes b) = 16"
    and "\<And>j. j < 16 \<Longrightarrow> in_hashes a ! j = in_hashes b ! j \<and> (bit (in_isBranch a) j \<longleftrightarrow> bit (in_isBranch b) j)"
  shows "(a :: inner_node) = b"
proof -
  have "in_hashes a = in_hashes b" using assms by (auto intro: nth_equalityI)
  moreover have "in_isBranch a = in_isBranch b" using assms(3) by (intro bit_word_eqI) auto
  ultimately show ?thesis by simp
qed

lemma getChildHash_ok: "inner_ok n \<Longrightarrow> i < 16 \<Longrightarrow> getChildHash n i = in_hashes n ! i"
  by (auto simp: getChildHash_def isEmptyBranch_def inner_ok_def)

lemma iterChildren_ok:
  assumes "inner_ok n"
  shows "iterChildren n = concat (in_hashes n)" "length (iterChildren n) = 512"
    "\<And>i. i < 16 \<Longrightarrow> take 32 (drop (32 * i) (iterChildren n)) = in_hashes n ! i"
proof -
  have len: "length (in_hashes n) = 16" and ok: "\<And>h. h \<in> set (in_hashes n) \<Longrightarrow> uint256_ok h"
    using assms by (auto simp: inner_ok_def list_all_iff)
  have "map (getChildHash n) [0..<16] = in_hashes n"
    using assms len by (intro nth_equalityI) (auto simp: getChildHash_ok)
  then show c: "iterChildren n = concat (in_hashes n)" by (simp add: iterChildren_def kBranchFactor_def)
  have l: "list_all uint256_ok hs \<Longrightarrow> length (concat hs) = 32 * length hs" for hs
    by (induction hs) auto
  then show "length (iterChildren n) = 512" using assms len by (simp add: c inner_ok_def)
  have "list_all uint256_ok hs \<Longrightarrow> i < length hs \<Longrightarrow> take 32 (drop (32 * i) (concat hs)) = hs ! i" for hs i
    by (induction hs arbitrary: i) (auto simp: nth_Cons split: nat.splits)
  then show "\<And>i. i < 16 \<Longrightarrow> take 32 (drop (32 * i) (iterChildren n)) = in_hashes n ! i"
    using assms by (simp add: c inner_ok_def)
qed

lemma makeFullInner_serialized:
  assumes "inner_ok n"
  shows "makeFullInner (iterChildren n) = Some n"
proof -
  let ?f = "\<lambda>i. take 32 (drop (32 * i) (iterChildren n))"
  let ?n = "fold (\<lambda>i. inner_set i (?f i)) [0..<16] inner_empty"
  have "?n = n"
  proof (rule inner_eqI)
    show "length (in_hashes n) = 16" using assms by (simp add: inner_ok_def)
    show "length (in_hashes ?n) = 16"
      using inner_set_fold [of "[0..<16]" inner_empty ?f] by (simp add: inner_empty_def list_all_iff)
    show "in_hashes ?n ! j = in_hashes n ! j \<and> (bit (in_isBranch ?n) j \<longleftrightarrow> bit (in_isBranch n) j)" if "j < 16" for j
      using inner_set_fold [of "[0..<16]" inner_empty ?f] iterChildren_ok(3) [OF assms that] that assms
      by (simp add: inner_empty_def list_all_iff inner_ok_def)
  qed
  then show ?thesis using iterChildren_ok(2) [OF assms] by (simp add: makeFullInner_def kBranchFactor_def)
qed

lemma compressed_loop_append:
  assumes "list_all (\<lambda>i. i < 16 \<and> uint256_ok (f i)) js"
  shows "compressed_loop (concat (map (\<lambda>i. f i @ [of_nat i]) js) @ rest) n =
    compressed_loop rest (fold (\<lambda>i. inner_set i (f i)) js n)"
  using assms
proof (induction js arbitrary: n)
  case (Cons i js)
  then have i: "i < 16" "uint256_ok (f i)" by simp_all
  have "unat (of_nat i :: byte) = i" using i by (simp add: unat_of_nat)
  then show ?case using Cons i by (subst compressed_loop.simps) (simp add: nth_append kBranchFactor_def)
qed simp

lemma compressed_loop_chunks:
  assumes "list_all (\<lambda>i. i < 16 \<and> uint256_ok (f i)) js"
  shows "compressed_loop (concat (map (\<lambda>i. f i @ [of_nat i]) js)) n = Some (fold (\<lambda>i. inner_set i (f i)) js n)"
  using compressed_loop_append [OF assms, of "[]"] by (simp add: compressed_loop.simps [of "[]"])

lemma makeCompressedInner_serialized:
  assumes "inner_ok n"
  shows "makeCompressedInner (concat (map (\<lambda>i. in_hashes n ! i @ [of_nat i]) (branch_list n))) = Some n"
proof -
  let ?js = "branch_list n" and ?f = "\<lambda>i. in_hashes n ! i"
  have js: "set ?js = {i. i < 16 \<and> bit (in_isBranch n) i}" "distinct ?js"
    by (auto simp: branch_list_def isEmptyBranch_def kBranchFactor_def)
  then have ok: "list_all (\<lambda>i. i < 16 \<and> uint256_ok (?f i)) ?js" using assms by (auto simp: inner_ok_def list_all_iff)
  have "length (concat (map (\<lambda>i. ?f i @ [of_nat i]) ks)) = 33 * length ks"
    if "list_all (\<lambda>i. i < 16 \<and> uint256_ok (?f i)) ks" for ks using that by (induction ks) auto
  from this [OF ok] have len: "length (concat (map (\<lambda>i. ?f i @ [of_nat i]) ?js)) = 33 * length ?js" .
  have "length ?js \<le> 16" using length_filter_le [of "\<lambda>i. \<not> isEmptyBranch n i" "[0..<16]"] by (simp add: branch_list_def kBranchFactor_def)
  then have "makeCompressedInner (concat (map (\<lambda>i. ?f i @ [of_nat i]) ?js)) =
      Some (fold (\<lambda>i. inner_set i (?f i)) ?js inner_empty)"
    using compressed_loop_chunks [OF ok] len by (simp add: makeCompressedInner_def kBranchFactor_def)
  moreover have "fold (\<lambda>i. inner_set i (?f i)) ?js inner_empty = n"
  proof (rule inner_eqI)
    have l: "list_all (\<lambda>i. i < 16) ?js" "length (in_hashes inner_empty) = 16"
      using ok by (auto simp: list_all_iff inner_empty_def)
    note f = inner_set_fold [OF l(1) js(2) l(2), of ?f]
    show "length (in_hashes n) = 16" using assms by (simp add: inner_ok_def)
    show "length (in_hashes (fold (\<lambda>i. inner_set i (?f i)) ?js inner_empty)) = 16" using f by simp
    fix j :: nat assume "j < 16"
    then show "in_hashes (fold (\<lambda>i. inner_set i (?f i)) ?js inner_empty) ! j = ?f j \<and>
        (bit (in_isBranch (fold (\<lambda>i. inner_set i (?f i)) ?js inner_empty)) j \<longleftrightarrow> bit (in_isBranch n) j)"
      using f assms by (auto simp: js inner_ok_def inner_empty_def)
  qed
  ultimately show ?thesis by simp
qed

section \<open>Round trips\<close>

lemma leaf_roundtrip:
  assumes "flat_ok sha (FLeaf t i)"
  shows "makeFromWire sha (serializeForWire (FLeaf t i)) = PNode (FLeaf t i)"
    "makeFromPrefix sha (serializeWithPrefix (FLeaf t i)) h = (PNode (FLeaf t i), h)"
  using assms
  by (cases t; simp add: makeFromWire_def makeFromPrefix_def wire_types prefix_defs butlast_append parse_or_throw_def
      makeTransaction_def makeTransactionWithMeta_def makeAccountState_def Let_def kMinShaMapItemBytes_def)+

lemma inner_roundtrip:
  assumes "inner_ok n"
  shows "makeFromWire sha (serializeForWire (FInner n)) = PNode (FInner n)"
    "makeFromPrefix sha (serializeWithPrefix (FInner n)) h = (PNode (FInner n), h)"
  using makeFullInner_serialized [OF assms] makeCompressedInner_serialized [OF assms]
  by (simp_all add: makeFromWire_def makeFromPrefix_def wire_types inner_serializeForWire_def parse_or_throw_def
      inner_serializeWithPrefix_def prefix_defs butlast_append)

lemma node_roundtrip:
  assumes "flat_ok sha n"
  shows "makeFromWire sha (serializeForWire n) = PNode n" "makeFromPrefix sha (serializeWithPrefix n) h = (PNode n, h)"
  using assms leaf_roundtrip inner_roundtrip by (cases n; simp)+

lemma serializeWithPrefix_inj:
  "flat_ok sha n \<Longrightarrow> flat_ok sha n' \<Longrightarrow> serializeWithPrefix n = serializeWithPrefix n' \<longleftrightarrow> n = n'"
  using node_roundtrip(2) by (metis Pair_inject parsed.inject)

lemma node_updateHash_eq: "flat_ok sha n \<Longrightarrow> node_updateHash sha n = sha (serializeWithPrefix n)"
proof (cases n)
  case (FLeaf t i)
  then show "flat_ok sha n \<Longrightarrow> ?thesis" by (cases t) simp_all
qed (simp add: inner_updateHash_def inner_serializeWithPrefix_def)

lemma makeFromWire_leaf_ok:
  assumes "\<And>x. uint256_ok (sha x)" "makeFromWire sha raw = PNode (FLeaf t i)"
  shows "flat_ok sha (FLeaf t i)"
  using assms
  by (auto simp: makeFromWire_def parse_or_throw_def makeTransaction_def makeTransactionWithMeta_def makeAccountState_def
      Let_def kMinShaMapItemBytes_def split: if_splits option.splits)

text \<open>
  C31: nodes survive both encodings. A well-formed node, inner or leaf, is read back unchanged from its
  wire format (the compressed one is used below 12 branches) and from its storage format, so the
  storage format determines the node.
\<close>

theorem node_encodings_roundtrip:
  assumes "flat_ok sha n"
  shows "makeFromWire sha (serializeForWire n) = PNode n \<and>
    makeFromPrefix sha (serializeWithPrefix n) (node_updateHash sha n) = (PNode n, node_updateHash sha n) \<and>
    node_updateHash sha n = sha (serializeWithPrefix n)"
  using assms node_roundtrip node_updateHash_eq by blast

theorem node_encodings_roundtrip_witness:
  "makeFromWire (\<lambda>x. replicate 32 1) (serializeForWire (FLeaf TnAccountState \<lparr>si_key = replicate 32 5, si_data = replicate 12 7\<rparr>)) =
   PNode (FLeaf TnAccountState \<lparr>si_key = replicate 32 5, si_data = replicate 12 7\<rparr>)"
proof -
  have "flat_ok (\<lambda>x. replicate 32 1) (FLeaf TnAccountState \<lparr>si_key = replicate 32 5, si_data = replicate 12 7\<rparr>)"
    by (simp add: kMinShaMapItemBytes_def zero256_def)
  from node_encodings_roundtrip [OF this] show ?thesis by blast
qed

text \<open>
  The compressed format is not canonical. To the encoding of any inner node with an empty branch
  and at most 14 others, two more chunks for the empty branch can be added, the second with hash zero:
  the parser accepts the result, the node it returns hashes to the same value, but it claims a child
  on the empty branch whose hash is zero, the hash of an empty inner node.
\<close>

theorem compressed_phantom_branch:
  assumes "inner_ok n" and "in_isBranch n \<noteq> 0" and "p < 16" and "isEmptyBranch n p" and "getBranchCount n \<le> 14"
    and "uint256_ok junk" and "junk \<noteq> zero256"
  defines "raw \<equiv> concat (map (\<lambda>i. in_hashes n ! i @ [of_nat i]) (branch_list n)) @ junk @ [of_nat p] @ zero256 @ [of_nat p]"
  shows "\<exists>n'. makeFromWire sha (raw @ [kWireTypeCompressedInner]) = PNode (FInner n') \<and>
    node_updateHash sha (FInner n') = node_updateHash sha (FInner n) \<and>
    \<not> isEmptyBranch n' p \<and> getChildHash n' p = zero256"
proof -
  let ?js = "branch_list n" and ?f = "\<lambda>i. in_hashes n ! i"
  have js: "list_all (\<lambda>i. i < 16 \<and> uint256_ok (?f i)) ?js"
    using assms(1) by (auto simp: branch_list_def kBranchFactor_def inner_ok_def list_all_iff)
  have "length (concat (map (\<lambda>i. ?f i @ [of_nat i]) ks)) = 33 * length ks"
    if "list_all (\<lambda>i. i < 16 \<and> uint256_ok (?f i)) ks" for ks using that by (induction ks) auto
  from this [OF js] have len: "length raw = 33 * (getBranchCount n + 2)"
    using assms(6) by (simp add: raw_def getBranchCount_def)
  have base: "compressed_loop (concat (map (\<lambda>i. ?f i @ [of_nat i]) ?js)) inner_empty = Some n"
    using makeCompressedInner_serialized [OF assms(1)] by (auto simp: makeCompressedInner_def split: if_splits)
  then have fold: "fold (\<lambda>i. inner_set i (?f i)) ?js inner_empty = n"
    using compressed_loop_chunks [OF js] by simp
  define n' where "n' = inner_set p zero256 (inner_set p junk n)"
  have pos: "unat (of_nat p :: byte) = p" using assms(3) by (simp add: unat_of_nat)
  have chunk: "compressed_loop (h @ [of_nat p] @ rest) m = compressed_loop rest (inner_set p h m)" if "uint256_ok h" for h rest m
    using that pos assms(3) by (subst compressed_loop.simps) (simp add: nth_append kBranchFactor_def)
  have "compressed_loop raw inner_empty = Some n'"
    unfolding raw_def compressed_loop_append [OF js] fold
    using chunk [OF assms(6)] chunk [OF zero256_ok, of "[]"] by (simp add: n'_def compressed_loop.simps [of "[]"])
  then have "makeCompressedInner raw = Some n'"
    using len assms(5) by (simp add: makeCompressedInner_def kBranchFactor_def)
  then have parse: "makeFromWire sha (raw @ [kWireTypeCompressedInner]) = PNode (FInner n')"
    by (simp add: makeFromWire_def wire_types parse_or_throw_def)
  have lh: "length (in_hashes n) = 16" using assms(1) by (simp add: inner_ok_def)
  have bits: "bit (in_isBranch n') j \<longleftrightarrow> bit (in_isBranch n) j \<or> j = p" for j
    using assms(3,7) by (auto simp: n'_def inner_set_simps)
  have hashes: "in_hashes n' = (in_hashes n)[p := zero256]" using assms(3) by (simp add: n'_def inner_set_simps)
  have "in_hashes n ! p = zero256" using assms(1,3,4) by (simp add: inner_ok_def isEmptyBranch_def)
  then have "getChildHash n' j = getChildHash n j" if "j < 16" for j
    using that assms(3,4) lh by (auto simp: getChildHash_def isEmptyBranch_def bits hashes nth_list_update)
  then have "iterChildren n' = iterChildren n"
    unfolding iterChildren_def kBranchFactor_def by (intro arg_cong [of _ _ concat] map_cong) auto
  moreover have "in_isBranch n' \<noteq> 0" using bits [of p] by auto
  ultimately have "node_updateHash sha (FInner n') = node_updateHash sha (FInner n)"
    using assms(2) by (simp add: inner_updateHash_def)
  moreover have "\<not> isEmptyBranch n' p" "getChildHash n' p = zero256"
    using assms(3) lh by (auto simp: isEmptyBranch_def bits getChildHash_def hashes)
  ultimately show ?thesis using parse by blast
qed

lemma inner_set_ok:
  assumes "inner_ok n" "i < 16" "uint256_ok h" "h \<noteq> zero256"
  shows "inner_ok (inner_set i h n)"
  using assms
  by (auto simp: inner_ok_def inner_set_simps nth_list_update list_all_iff dest!: set_update_subset_insert [THEN subsetD])

definition ex_inner :: inner_node where
  "ex_inner = inner_set 1 (replicate 32 9) inner_empty"

theorem compressed_phantom_branch_witness:
  "\<exists>n'. makeFromWire (\<lambda>_. replicate 32 1) ((concat (map (\<lambda>i. in_hashes ex_inner ! i @ [of_nat i]) (branch_list ex_inner)) @
      replicate 32 3 @ [of_nat 0] @ zero256 @ [of_nat 0]) @ [kWireTypeCompressedInner]) = PNode (FInner n') \<and>
    \<not> isEmptyBranch n' 0 \<and> getChildHash n' 0 = zero256"
proof -
  have ok: "inner_ok ex_inner"
    unfolding ex_inner_def by (rule inner_set_ok [OF inner_empty_ok]) (simp_all add: zero256_def)
  have b: "bit (in_isBranch ex_inner) i \<longleftrightarrow> i = 1" for i
    by (auto simp: ex_inner_def inner_set_simps inner_empty_def zero256_def)
  have ne: "in_isBranch ex_inner \<noteq> 0" "isEmptyBranch ex_inner 0" using b [of 1] b [of 0] by (auto simp: isEmptyBranch_def)
  have cnt: "getBranchCount ex_inner \<le> 14"
    by (simp add: getBranchCount_def branch_list_def kBranchFactor_def isEmptyBranch_def b upt_rec)
  have junk: "uint256_ok (replicate 32 3)" "replicate 32 (3 :: byte) \<noteq> zero256" by (simp_all add: zero256_def)
  from compressed_phantom_branch [OF ok ne(1) _ ne(2) cnt junk, of "\<lambda>_. replicate 32 1"] show ?thesis by auto
qed

end
