(* ===== verification/SHAMap.thy ===== *)
theory SHAMap
  imports SHAMapTreeNode
begin

text \<open>
  The SHAMap, \<^verbatim>\<open>SHAMap.h\<close> and \<^verbatim>\<open>SHAMap.cpp\<close>: a radix tree of fan-out 16 over the nibbles of the keys.
  Nodes are values: the copy-on-write bookkeeping (\<^verbatim>\<open>cowid\<close>, \<^verbatim>\<open>unshareNode\<close>, \<^verbatim>\<open>walkSubTree\<close>) only keeps
  other maps from seeing a change, and no node is missing from memory, so \<^verbatim>\<open>descendThrow\<close> does not throw.
  The walks keep the stack of nodes and identifiers the code keeps (top first). \<open>None\<close> is an exception;
  the theory of the invariant shows that there is none.
\<close>

section \<open>Trees\<close>

datatype tree = SInner "tree option list" | SLeaf SHAMapNodeType shamap_item

definition child :: "tree option list \<Rightarrow> nat \<Rightarrow> tree option" where
  "child cs b = (if b < length cs then cs ! b else None)"

definition setChild :: "nat \<Rightarrow> tree option \<Rightarrow> tree option list \<Rightarrow> tree option list" where
  "setChild b c cs = cs[b := c]"

definition empty_inner :: "tree option list" where
  "empty_inner = replicate 16 None"

definition SHAMap_new :: tree where
  "SHAMap_new = SInner empty_inner"

definition leaf_key :: "tree \<Rightarrow> uint256 option" where
  "leaf_key t = (case t of SLeaf _ i \<Rightarrow> Some (si_key i) | SInner _ \<Rightarrow> None)"

lemma child_mem: "child cs b = Some c \<Longrightarrow> Some c \<in> set cs"
  by (metis child_def nth_mem option.distinct(1))

lemma tree_option_size: "Some c \<in> set cs \<Longrightarrow> size c < Suc (size_list (size_option size) cs)"
  using size_list_estimation' [of "Some c" cs "size_option size (Some c)" "size_option size"] by simp

lemmas child_size [termination_simp] = tree_option_size [OF child_mem]

section \<open>Paths\<close>

type_synonym path_stack = "(tree \<times> node_id) list"

definition pushRoot :: "tree \<Rightarrow> path_stack" where
  "pushRoot node = [(node, node_id_root)]"

definition pushChild :: "tree \<Rightarrow> nat \<Rightarrow> path_stack \<Rightarrow> path_stack option" where
  "pushChild node branch st =
     (case st of
        [] \<Rightarrow> None
      | (_, i) # _ \<Rightarrow> map_option (\<lambda>childID. (node, childID) # st) (getChildNodeID i branch))"

definition pushNode :: "tree \<Rightarrow> uint256 \<Rightarrow> path_stack \<Rightarrow> path_stack option" where
  "pushNode node target st =
     (case st of
        [] \<Rightarrow> Some (pushRoot node)
      | (_, i) # _ \<Rightarrow> pushChild node (selectBranch i target) st)"

fun walk_loop :: "uint256 \<Rightarrow> node_id \<Rightarrow> tree \<Rightarrow> path_stack \<Rightarrow> (tree option \<times> path_stack) option" where
  "walk_loop k nodeID (SInner cs) st = do {
     st' \<leftarrow> pushNode (SInner cs) k st;
     let branch = selectBranch nodeID k;
     case child cs branch of
       None \<Rightarrow> Some (None, st')
     | Some c \<Rightarrow> do {
         nodeID' \<leftarrow> getChildNodeID nodeID branch;
         walk_loop k nodeID' c st'
       }
   }"
| "walk_loop k nodeID (SLeaf t i) st = do {
     st' \<leftarrow> pushNode (SLeaf t i) k st;
     Some (Some (SLeaf t i), st')
   }"

definition walkTowardsKey :: "tree \<Rightarrow> uint256 \<Rightarrow> (tree option \<times> path_stack) option" where
  "walkTowardsKey root k = walk_loop k node_id_root root []"

definition findKey :: "tree \<Rightarrow> uint256 \<Rightarrow> tree option option" where
  "findKey root k = do {
     (leaf, _) \<leftarrow> walkTowardsKey root k;
     Some (case leaf of Some l \<Rightarrow> if leaf_key l \<noteq> Some k then None else Some l | None \<Rightarrow> None)
   }"

definition hasItem :: "tree \<Rightarrow> uint256 \<Rightarrow> bool option" where
  "hasItem root k = map_option (\<lambda>leaf. leaf \<noteq> None) (findKey root k)"

definition peekItem :: "tree \<Rightarrow> uint256 \<Rightarrow> shamap_item option option" where
  "peekItem root k =
     map_option (\<lambda>leaf. case leaf of Some (SLeaf _ i) \<Rightarrow> Some i | _ \<Rightarrow> None) (findKey root k)"

fun dirtyUp :: "path_stack \<Rightarrow> uint256 \<Rightarrow> tree \<Rightarrow> tree" where
  "dirtyUp [] target c = c"
| "dirtyUp ((SInner cs, nodeID) # st) target c =
     dirtyUp st target (SInner (setChild (selectBranch nodeID target) (Some c) cs))"
| "dirtyUp ((SLeaf t i, nodeID) # st) target c = dirtyUp st target c"

section \<open>Adding an item\<close>

text \<open>The loop that makes inner nodes while the two keys take the same branch.\<close>

function split_loop :: "uint256 \<Rightarrow> uint256 \<Rightarrow> node_id \<Rightarrow> path_stack \<Rightarrow> (path_stack \<times> nat \<times> nat) option" where
  "split_loop tag other nodeID st =
     (let b1 = selectBranch nodeID tag;
          b2 = selectBranch nodeID other
      in if b1 = b2
         then (case pushNode (SInner empty_inner) tag st of
                 None \<Rightarrow> None
               | Some st' \<Rightarrow> (case getChildNodeID nodeID b1 of
                               None \<Rightarrow> None
                             | Some nodeID' \<Rightarrow> split_loop tag other nodeID' st'))
         else Some (st, b1, b2))"
  by pat_completeness auto

lemma getChildNodeID_depth: "getChildNodeID n b = Some n' \<Longrightarrow> ni_depth n < 64 \<and> ni_depth n' = Suc (ni_depth n)"
  by (auto simp: getChildNodeID_def kLeafDepth_def SHAMapNodeID_new_def Let_def split: if_splits)

termination split_loop
  by (relation "measure (\<lambda>(tag, other, n, st). 64 - ni_depth n)") (auto dest: getChildNodeID_depth)

declare split_loop.simps [simp del]

definition addGiveItem :: "SHAMapNodeType \<Rightarrow> shamap_item \<Rightarrow> tree \<Rightarrow> (tree \<times> bool) option" where
  "addGiveItem type item root =
     (let tag = si_key item
      in case walkTowardsKey root tag of
           None \<Rightarrow> None
         | Some (_, []) \<Rightarrow> None
         | Some (_, (SInner cs, nodeID) # st) \<Rightarrow>
             Some (dirtyUp st tag (SInner (setChild (selectBranch nodeID tag) (Some (SLeaf type item)) cs)), True)
         | Some (_, (SLeaf t other, nodeID) # st) \<Rightarrow>
             if si_key other = tag then Some (root, False)
             else (case split_loop tag (si_key other) nodeID st of
                     None \<Rightarrow> None
                   | Some (st', b1, b2) \<Rightarrow>
                       if st = [] then Some (root, True)
                       else Some (dirtyUp st' tag
                              (SInner (setChild b2 (Some (SLeaf type other))
                                 (setChild b1 (Some (SLeaf type item)) empty_inner))), True)))"

definition addItem :: "SHAMapNodeType \<Rightarrow> shamap_item \<Rightarrow> tree \<Rightarrow> (tree \<times> bool) option" where
  "addItem type item root = addGiveItem type item root"

section \<open>Deleting an item\<close>

definition branches :: "tree option list \<Rightarrow> tree list" where
  "branches cs = List.map_filter (\<lambda>c. c) cs"

lemma branches_mem: "c \<in> set (branches cs) \<longleftrightarrow> Some c \<in> set cs"
  by (force simp: branches_def List.map_filter_def)

lemma branches_size [termination_simp]: "branches cs = [c] \<Longrightarrow> size c < Suc (size_list (size_option size) cs)"
  using branches_mem [of c cs] by (simp add: tree_option_size)

fun onlyBelow :: "tree \<Rightarrow> shamap_item option" where
  "onlyBelow (SLeaf t i) = Some i"
| "onlyBelow (SInner cs) = (case branches cs of [c] \<Rightarrow> onlyBelow c | _ \<Rightarrow> None)"

definition node_branch_count :: "tree option list \<Rightarrow> nat" where
  "node_branch_count cs = length (branches cs)"

fun del_loop :: "uint256 \<Rightarrow> SHAMapNodeType \<Rightarrow> tree \<Rightarrow> path_stack \<Rightarrow> tree option \<Rightarrow> tree" where
  "del_loop k type root [] prevNode = root"
| "del_loop k type root ((SLeaf t i, nodeID) # st) prevNode = del_loop k type root st prevNode"
| "del_loop k type root ((SInner cs, nodeID) # st) prevNode =
     (let cs' = setChild (selectBranch nodeID k) prevNode cs
      in if isRoot nodeID then del_loop k type (SInner cs') st None
         else
           let bc = node_branch_count cs';
               prevNode' =
                 (if bc = 0 then None
                  else if bc = 1
                  then (case onlyBelow (SInner cs') of
                          Some item \<Rightarrow> Some (SLeaf type item)
                        | None \<Rightarrow> Some (SInner cs'))
                  else Some (SInner cs'))
           in del_loop k type root st prevNode')"

definition delItem :: "uint256 \<Rightarrow> tree \<Rightarrow> (tree \<times> bool) option" where
  "delItem k root =
     (case walkTowardsKey root k of
        None \<Rightarrow> None
      | Some (_, []) \<Rightarrow> None
      | Some (_, (SInner cs, nodeID) # st) \<Rightarrow> Some (root, False)
      | Some (_, (SLeaf type i, nodeID) # st) \<Rightarrow>
          if si_key i \<noteq> k then Some (root, False)
          else Some (del_loop k type root st None, True))"

section \<open>Updating an item\<close>

text \<open>
  \<^verbatim>\<open>setItem\<close> reports whether the hash of the leaf changed. When it did not, the path is not
  marked dirty and the tree stays as it was: a leaf that this map already owns then holds the new
  item, which has the encoding of the old one unless the digest collides.
\<close>

definition updateGiveItem :: "digest \<Rightarrow> SHAMapNodeType \<Rightarrow> shamap_item \<Rightarrow> tree \<Rightarrow> (tree \<times> bool) option" where
  "updateGiveItem sha type item root =
     (let tag = si_key item
      in case walkTowardsKey root tag of
           None \<Rightarrow> None
         | Some (_, []) \<Rightarrow> None
         | Some (_, (SInner cs, nodeID) # st) \<Rightarrow> Some (root, False)
         | Some (_, (SLeaf t old, nodeID) # st) \<Rightarrow>
             if si_key old \<noteq> tag then Some (root, False)
             else if t \<noteq> type then Some (root, False)
             else if leaf_updateHash sha t old \<noteq> leaf_updateHash sha t item
             then Some (dirtyUp st tag (SLeaf t item), True)
             else Some (root, True))"

section \<open>Iteration\<close>

datatype BelowDirection = First | Last

definition scan_order :: "BelowDirection \<Rightarrow> nat list" where
  "scan_order direction = (case direction of First \<Rightarrow> [0..<16] | Last \<Rightarrow> rev [0..<16])"

definition first_branch :: "nat list \<Rightarrow> tree option list \<Rightarrow> (nat \<times> tree) option" where
  "first_branch bs cs =
     (case filter (\<lambda>b. child cs b \<noteq> None) bs of
        [] \<Rightarrow> None
      | b # _ \<Rightarrow> map_option (\<lambda>c. (b, c)) (child cs b))"

lemma first_branch_child: "first_branch bs cs = Some (b, c) \<Longrightarrow> child cs b = Some c"
  by (auto simp: first_branch_def split: list.splits)

lemmas first_branch_size [termination_simp] = child_size [OF first_branch_child]

fun belowHelper :: "BelowDirection \<Rightarrow> tree \<Rightarrow> path_stack \<Rightarrow> (shamap_item option \<times> path_stack) option" where
  "belowHelper direction (SLeaf t i) st = Some (Some i, st)"
| "belowHelper direction (SInner cs) st =
     (case first_branch (scan_order direction) cs of
        None \<Rightarrow> Some (None, st)
      | Some (b, c) \<Rightarrow> (case pushChild c b st of
                         None \<Rightarrow> None
                       | Some st' \<Rightarrow> belowHelper direction c st'))"

definition peekFirstItem :: "tree \<Rightarrow> (shamap_item option \<times> path_stack) option" where
  "peekFirstItem root =
     (case belowHelper First root (pushRoot root) of
        None \<Rightarrow> None
      | Some (None, _) \<Rightarrow> Some (None, [])
      | Some (Some i, st) \<Rightarrow> Some (Some i, st))"

fun next_loop :: "uint256 \<Rightarrow> path_stack \<Rightarrow> (shamap_item option \<times> path_stack) option" where
  "next_loop k [] = Some (None, [])"
| "next_loop k ((SLeaf t i, nodeID) # st) = next_loop k st"
| "next_loop k ((SInner cs, nodeID) # st) =
     (case first_branch [selectBranch nodeID k + 1..<16] cs of
        Some (b, c) \<Rightarrow> (case pushChild c b ((SInner cs, nodeID) # st) of
                         None \<Rightarrow> None
                       | Some st' \<Rightarrow> (case belowHelper First c st' of
                                       Some (Some i, st'') \<Rightarrow> Some (Some i, st'')
                                     | _ \<Rightarrow> None))
      | None \<Rightarrow> next_loop k st)"

definition peekNextItem :: "uint256 \<Rightarrow> path_stack \<Rightarrow> (shamap_item option \<times> path_stack) option" where
  "peekNextItem k st = (case st of [] \<Rightarrow> None | _ # st' \<Rightarrow> next_loop k st')"

text \<open>The iterator holds the item it is at and the stack; the loop visits a range of items.\<close>

definition iter_begin :: "tree \<Rightarrow> (shamap_item option \<times> path_stack) option" where
  "iter_begin root = peekFirstItem root"

definition iter_next :: "shamap_item \<Rightarrow> path_stack \<Rightarrow> (shamap_item option \<times> path_stack) option" where
  "iter_next item st = peekNextItem (si_key item) st"

fun iter_loop :: "nat \<Rightarrow> shamap_item option \<times> path_stack \<Rightarrow> shamap_item list option" where
  "iter_loop fuel (None, st) = Some []"
| "iter_loop 0 (Some i, st) = None"
| "iter_loop (Suc fuel) (Some i, st) = do {
     it \<leftarrow> iter_next i st;
     rest \<leftarrow> iter_loop fuel it;
     Some (i # rest)
   }"

text \<open>\<^verbatim>\<open>base_uint\<close> compares the bytes from the most significant one.\<close>

fun uint256_less :: "uint256 \<Rightarrow> uint256 \<Rightarrow> bool" where
  "uint256_less (a # as) (b # bs) \<longleftrightarrow> a < b \<or> a = b \<and> uint256_less as bs"
| "uint256_less _ _ \<longleftrightarrow> False"

definition bound_order :: "BelowDirection \<Rightarrow> nat \<Rightarrow> nat list" where
  "bound_order direction taken = (case direction of First \<Rightarrow> [taken + 1..<16] | Last \<Rightarrow> rev [0..<taken])"

fun bound_loop :: "uint256 \<Rightarrow> BelowDirection \<Rightarrow> path_stack \<Rightarrow> (shamap_item option \<times> path_stack) option" where
  "bound_loop k direction [] = Some (None, [])"
| "bound_loop k direction ((SLeaf t i, nodeID) # st) =
     (if (case direction of First \<Rightarrow> uint256_less k (si_key i) | Last \<Rightarrow> uint256_less (si_key i) k)
      then Some (Some i, (SLeaf t i, nodeID) # st)
      else bound_loop k direction st)"
| "bound_loop k direction ((SInner cs, nodeID) # st) =
     (case first_branch (bound_order direction (selectBranch nodeID k)) cs of
        Some (b, c) \<Rightarrow> (case pushChild c b ((SInner cs, nodeID) # st) of
                         None \<Rightarrow> None
                       | Some st' \<Rightarrow> (case belowHelper direction c st' of
                                       Some (Some i, st'') \<Rightarrow> Some (Some i, st'')
                                     | _ \<Rightarrow> None))
      | None \<Rightarrow> bound_loop k direction st)"

definition boundHelper :: "tree \<Rightarrow> uint256 \<Rightarrow> BelowDirection \<Rightarrow> (shamap_item option \<times> path_stack) option" where
  "boundHelper root k direction =
     (case walkTowardsKey root k of None \<Rightarrow> None | Some (_, st) \<Rightarrow> bound_loop k direction st)"

definition upperBound :: "tree \<Rightarrow> uint256 \<Rightarrow> shamap_item option option" where
  "upperBound root k = map_option fst (boundHelper root k First)"

definition lowerBound :: "tree \<Rightarrow> uint256 \<Rightarrow> shamap_item option option" where
  "lowerBound root k = map_option fst (boundHelper root k Last)"

section \<open>Hashes\<close>

text \<open>The inner node over the hashes of its children.\<close>

definition inner_of :: "uint256 option list \<Rightarrow> inner_node" where
  "inner_of hs =
     \<lparr>in_isBranch = fold (\<lambda>i w. if hs ! i \<noteq> None then w OR push_bit i 1 else w) [0..<length hs] 0,
      in_hashes = map (case_option zero256 (\<lambda>h. h)) hs\<rparr>"

fun tree_hash :: "digest \<Rightarrow> tree \<Rightarrow> uint256" where
  "tree_hash sha (SLeaf t i) = leaf_updateHash sha t i"
| "tree_hash sha (SInner cs) = inner_updateHash sha (inner_of (map (map_option (tree_hash sha)) cs))"

definition getHash :: "digest \<Rightarrow> tree \<Rightarrow> uint256" where
  "getHash sha root = tree_hash sha root"

fun flatten :: "digest \<Rightarrow> tree \<Rightarrow> flat_node" where
  "flatten sha (SLeaf t i) = FLeaf t i"
| "flatten sha (SInner cs) = FInner (inner_of (map (map_option (tree_hash sha)) cs))"

end
