(* ===== verification/SHAMap_Correct.thy ===== *)
theory SHAMap_Correct
  imports SHAMap
begin

text \<open>
  The invariant of the SHAMap and what its operations do to the set of items: the prefix property
  (a node at some depth covers one key prefix), the merge property (below the root every inner node
  has at least two items) and one leaf type. The tree is determined by its items, and lookups,
  insertion, deletion and update are those of a map from keys to items.
\<close>

section \<open>The invariant\<close>

fun tree_items :: "tree \<Rightarrow> shamap_item list" where
  "tree_items (SLeaf t i) = [i]"
| "tree_items (SInner cs) = concat (map (case_option [] tree_items) cs)"

fun is_inner :: "tree \<Rightarrow> bool" where
  "is_inner (SInner _) \<longleftrightarrow> True"
| "is_inner (SLeaf _ _) \<longleftrightarrow> False"

definition compact :: "tree \<Rightarrow> bool" where
  "compact t \<longleftrightarrow> is_inner t \<longrightarrow> 2 \<le> length (tree_items t)"

fun tree_wf :: "SHAMapNodeType \<Rightarrow> nat list \<Rightarrow> tree \<Rightarrow> bool" where
  "tree_wf ty P (SLeaf t i) \<longleftrightarrow> t = ty \<and> uint256_ok (si_key i) \<and> length P \<le> 64 \<and> take (length P) (nibbles (si_key i)) = P"
| "tree_wf ty P (SInner cs) \<longleftrightarrow> length P < 64 \<and> length cs = 16 \<and>
     list_all (\<lambda>b. case child cs b of None \<Rightarrow> True | Some c \<Rightarrow> tree_wf ty (P @ [b]) c \<and> compact c) [0..<16]"

definition shamap_inv :: "SHAMapNodeType \<Rightarrow> tree \<Rightarrow> bool" where
  "shamap_inv ty root \<longleftrightarrow> is_inner root \<and> tree_wf ty [] root"

definition tree_keys :: "tree \<Rightarrow> uint256 set" where
  "tree_keys t = si_key ` set (tree_items t)"

lemma tree_wf_child: "tree_wf ty P (SInner cs) \<Longrightarrow> child cs b = Some c \<Longrightarrow> tree_wf ty (P @ [b]) c \<and> compact c \<and> b < 16"
  by (auto simp: list_all_iff child_def split: if_splits option.splits)

lemma tree_wf_Inner:
  "tree_wf ty P (SInner cs) \<longleftrightarrow> length P < 64 \<and> length cs = 16 \<and>
     (\<forall>b c. child cs b = Some c \<longrightarrow> tree_wf ty (P @ [b]) c \<and> compact c)"
  by (auto simp: list_all_iff child_def split: option.splits)

declare tree_wf.simps(2) [simp del]

lemma item_in_Inner: "i \<in> set (tree_items (SInner cs)) \<longleftrightarrow> (\<exists>b c. child cs b = Some c \<and> i \<in> set (tree_items c))"
proof -
  have "i \<in> set (tree_items (SInner cs)) \<longleftrightarrow> (\<exists>c. Some c \<in> set cs \<and> i \<in> set (tree_items c))"
    by (auto split: option.splits)
  then show ?thesis by (auto simp: child_def in_set_conv_nth split: if_splits)
qed

declare tree_items.simps(2) [simp del]

lemma tree_wf_item:
  "tree_wf ty P t \<Longrightarrow> i \<in> set (tree_items t) \<Longrightarrow> uint256_ok (si_key i) \<and> take (length P) (nibbles (si_key i)) = P"
proof (induction ty P t rule: tree_wf.induct)
  case (2 ty P cs)
  then obtain b c where bc: "child cs b = Some c" "i \<in> set (tree_items c)" by (auto simp: item_in_Inner)
  have w: "tree_wf ty (P @ [b]) c" "b < 16" using tree_wf_child [OF 2(2) bc(1)] by simp_all
  have "uint256_ok (si_key i) \<and> take (length (P @ [b])) (nibbles (si_key i)) = P @ [b]"
    using 2(1) [of b c] w bc by simp
  then have "take (length P) (take (Suc (length P)) (nibbles (si_key i))) = P" by simp
  then show ?case using \<open>uint256_ok (si_key i) \<and> _\<close> by (simp add: min_def)
qed simp

lemma take_Suc_nibbles: "d < 64 \<Longrightarrow> take (Suc d) (nibbles k) = take d (nibbles k) @ [nibble k d]"
  by (simp add: take_Suc_conv_app_nth nibbles_nth)

text \<open>An item below an inner node is below the branch its key selects.\<close>

lemma item_branch:
  assumes "tree_wf ty P (SInner cs)" "child cs b = Some c" "i \<in> set (tree_items c)"
  shows "nibble (si_key i) (length P) = b"
proof -
  have "length P < 64" using assms(1) by (simp add: tree_wf_Inner)
  moreover have "take (length (P @ [b])) (nibbles (si_key i)) = P @ [b]"
    using tree_wf_item tree_wf_child assms by blast
  ultimately show ?thesis by (simp add: take_Suc_nibbles)
qed

lemma item_in_branch:
  assumes "tree_wf ty P (SInner cs)"
  shows "i \<in> set (tree_items (SInner cs)) \<longleftrightarrow>
    (\<exists>c. child cs (nibble (si_key i) (length P)) = Some c \<and> i \<in> set (tree_items c))"
  using item_branch [OF assms] by (auto simp: item_in_Inner)

lemma items_child:
  assumes "tree_wf ty P (SInner cs)" "child cs b = Some c"
  shows "set (tree_items c) = {i \<in> set (tree_items (SInner cs)). nibble (si_key i) (length P) = b}"
proof (intro set_eqI iffI)
  fix i assume "i \<in> set (tree_items c)"
  then show "i \<in> {i \<in> set (tree_items (SInner cs)). nibble (si_key i) (length P) = b}"
    using item_branch [OF assms] assms(2) by (auto simp: item_in_Inner)
next
  fix i assume "i \<in> {i \<in> set (tree_items (SInner cs)). nibble (si_key i) (length P) = b}"
  then show "i \<in> set (tree_items c)" using item_in_branch [OF assms(1), of i] assms(2) by auto
qed

lemma tree_keys_inj:
  "tree_wf ty P t \<Longrightarrow> i \<in> set (tree_items t) \<Longrightarrow> j \<in> set (tree_items t) \<Longrightarrow> si_key i = si_key j \<Longrightarrow> i = j"
proof (induction ty P t rule: tree_wf.induct)
  case (2 ty P cs)
  obtain c where c: "child cs (nibble (si_key i) (length P)) = Some c" "i \<in> set (tree_items c)" "j \<in> set (tree_items c)"
    using 2(2-5) by (auto simp: item_in_branch)
  moreover have "tree_wf ty (P @ [nibble (si_key i) (length P)]) c" using tree_wf_child [OF 2(2) c(1)] by blast
  ultimately show ?case using 2(1) [of "nibble (si_key i) (length P)" c] 2(5) by auto
qed simp

section \<open>Walking towards a key\<close>

text \<open>The node where the walk for a key ends, the inner nodes above it, and the tree with that node replaced.\<close>

fun terminal :: "uint256 \<Rightarrow> nat \<Rightarrow> tree \<Rightarrow> tree" where
  "terminal k d (SLeaf t i) = SLeaf t i"
| "terminal k d (SInner cs) = (case child cs (nibble k d) of None \<Rightarrow> SInner cs | Some c \<Rightarrow> terminal k (Suc d) c)"

fun spine :: "uint256 \<Rightarrow> nat \<Rightarrow> tree \<Rightarrow> (tree option list) list" where
  "spine k d (SLeaf t i) = []"
| "spine k d (SInner cs) = (case child cs (nibble k d) of None \<Rightarrow> [] | Some c \<Rightarrow> cs # spine k (Suc d) c)"

fun replace :: "uint256 \<Rightarrow> nat \<Rightarrow> tree \<Rightarrow> tree \<Rightarrow> tree" where
  "replace k d (SLeaf t i) x = x"
| "replace k d (SInner cs) x =
     (case child cs (nibble k d) of None \<Rightarrow> x | Some c \<Rightarrow> SInner (setChild (nibble k d) (Some (replace k (Suc d) c x)) cs))"

text \<open>The stack for a list of inner nodes, the first one at depth \<open>d\<close>.\<close>

fun stack_of :: "uint256 \<Rightarrow> nat \<Rightarrow> (tree option list) list \<Rightarrow> path_stack" where
  "stack_of k d [] = []"
| "stack_of k d (cs # css) = stack_of k (Suc d) css @ [(SInner cs, createID d k)]"

fun stack_at :: "uint256 \<Rightarrow> nat \<Rightarrow> path_stack \<Rightarrow> bool" where
  "stack_at k d [] \<longleftrightarrow> d = 0"
| "stack_at k d ((t, i) # st) \<longleftrightarrow> (\<exists>e. d = Suc e \<and> e < 64 \<and> i = createID e k)"

lemma pushNode_at:
  assumes "uint256_ok k" "stack_at k d st"
  shows "pushNode t k st = Some ((t, createID d k) # st)"
proof (cases st)
  case Nil
  then show ?thesis using assms by (simp add: pushNode_def pushRoot_def node_id_root_eq [OF assms(1)])
next
  case (Cons a st')
  obtain u i where a: "a = (u, i)" by (cases a)
  then obtain e where e: "d = Suc e" "e < 64" "i = createID e k" using assms(2) Cons by auto
  then show ?thesis using assms(1)
    by (simp add: pushNode_def pushChild_def Cons a selectBranch_nibble createID_simps createID_child)
qed

lemma walk_loop_spec:
  assumes "uint256_ok k"
  shows "tree_wf ty P t \<Longrightarrow> length P = d \<Longrightarrow> d \<le> 64 \<Longrightarrow> stack_at k d st \<Longrightarrow>
    walk_loop k (createID d k) t st =
      Some (case terminal k d t of SLeaf ty' i \<Rightarrow> Some (SLeaf ty' i) | SInner _ \<Rightarrow> None,
            (terminal k d t, createID (d + length (spine k d t)) k) # stack_of k d (spine k d t) @ st)"
proof (induction t arbitrary: P d st)
  case (SInner cs)
  have d: "d < 64" using SInner.prems by (simp add: tree_wf_Inner)
  have sel: "selectBranch (createID d k) k = nibble k d" using d by (simp add: selectBranch_nibble createID_simps)
  have push: "pushNode (SInner cs) k st = Some ((SInner cs, createID d k) # st)"
    by (rule pushNode_at [OF assms SInner.prems(4)])
  show ?case
  proof (cases "child cs (nibble k d)")
    case None
    then show ?thesis by (simp add: push sel)
  next
    case (Some c)
    have "stack_at k (Suc d) ((SInner cs, createID d k) # st)" using d by simp
    moreover have "tree_wf ty (P @ [nibble k d]) c" using tree_wf_child [OF SInner.prems(1) Some] by blast
    ultimately have "walk_loop k (createID (Suc d) k) c ((SInner cs, createID d k) # st) =
      Some (case terminal k (Suc d) c of SLeaf ty' i \<Rightarrow> Some (SLeaf ty' i) | SInner _ \<Rightarrow> None,
            (terminal k (Suc d) c, createID (Suc d + length (spine k (Suc d) c)) k) #
              stack_of k (Suc d) (spine k (Suc d) c) @ (SInner cs, createID d k) # st)"
      using SInner.IH [OF child_mem [OF Some], of c "P @ [nibble k d]" "Suc d"] SInner.prems(2) d by simp
    then show ?thesis using Some by (simp add: push sel createID_child [OF assms d])
  qed
qed (use assms in \<open>simp add: pushNode_at\<close>)

lemma terminal_wf:
  assumes "uint256_ok k"
  shows "tree_wf ty P t \<Longrightarrow> P = take d (nibbles k) \<Longrightarrow> d \<le> 64 \<Longrightarrow>
    tree_wf ty (take (d + length (spine k d t)) (nibbles k)) (terminal k d t) \<and> d + length (spine k d t) \<le> 64 \<and>
    (\<forall>cs. terminal k d t = SInner cs \<longrightarrow> d + length (spine k d t) < 64 \<and> child cs (nibble k (d + length (spine k d t))) = None)"
proof (induction t arbitrary: P d)
  case (SInner cs)
  have d: "d < 64" using SInner.prems by (simp add: tree_wf_Inner)
  show ?case
  proof (cases "child cs (nibble k d)")
    case (Some c)
    have "tree_wf ty (take (Suc d) (nibbles k)) c"
      using tree_wf_child [OF SInner.prems(1) Some] SInner.prems(2) d by (simp add: take_Suc_nibbles)
    then show ?thesis using SInner.IH [OF child_mem [OF Some], of c _ "Suc d"] d Some by simp
  qed (use SInner.prems d in simp)
qed simp

lemma terminal_sub: "set (tree_items (terminal k d t)) \<subseteq> set (tree_items t)"
proof (induction t arbitrary: d)
  case (SInner cs)
  show ?case
  proof (cases "child cs (nibble k d)")
    case (Some c)
    then show ?thesis using SInner.IH [OF child_mem [OF Some], of c "Suc d"] by (fastforce simp: item_in_Inner)
  qed simp
qed simp

lemma terminal_item: "terminal k d t = SLeaf t' i \<Longrightarrow> i \<in> set (tree_items t)"
  using terminal_sub [of k d t] by simp

lemma terminal_found:
  "tree_wf ty P t \<Longrightarrow> length P = d \<Longrightarrow> i \<in> set (tree_items t) \<Longrightarrow> terminal (si_key i) d t = SLeaf ty i"
proof (induction t arbitrary: P d)
  case (SInner cs)
  then obtain c where c: "child cs (nibble (si_key i) d) = Some c" "i \<in> set (tree_items c)" by (auto simp: item_in_branch)
  have "tree_wf ty (P @ [nibble (si_key i) d]) c" using tree_wf_child [OF SInner.prems(1) c(1)] by blast
  then show ?case using SInner.IH [OF child_mem [OF c(1)], of c _ "Suc d"] SInner.prems(2) c by simp
qed simp

lemma terminal_key:
  assumes "tree_wf ty P t" "length P = d"
  shows "(\<exists>i. terminal k d t = SLeaf ty i \<and> si_key i = k) \<longleftrightarrow> k \<in> tree_keys t"
  using terminal_found [OF assms] terminal_item [of k d t] by (auto simp: tree_keys_def)

lemma dirtyUp_replace:
  "length P = d \<Longrightarrow> tree_wf ty P t \<Longrightarrow>
   dirtyUp (stack_of k d (spine k d t) @ st) k x = dirtyUp st k (replace k d t x)"
proof (induction t arbitrary: P d st x)
  case (SInner cs)
  have d: "d < 64" using SInner.prems by (simp add: tree_wf_Inner)
  show ?case
  proof (cases "child cs (nibble k d)")
    case (Some c)
    have "tree_wf ty (P @ [nibble k d]) c" using tree_wf_child [OF SInner.prems(2) Some] by blast
    then show ?thesis
      using SInner.IH [OF child_mem [OF Some], of c "P @ [nibble k d]" "Suc d"] SInner.prems(1) Some d
      by (simp add: selectBranch_nibble createID_simps)
  qed simp
qed simp

text \<open>The walk of a map that satisfies the invariant.\<close>

lemma walkTowardsKey_spec:
  assumes "shamap_inv ty root" "uint256_ok k"
  shows "walkTowardsKey root k =
    Some (case terminal k 0 root of SLeaf ty' i \<Rightarrow> Some (SLeaf ty' i) | SInner _ \<Rightarrow> None,
          (terminal k 0 root, createID (length (spine k 0 root)) k) # stack_of k 0 (spine k 0 root))"
proof -
  have wf: "tree_wf ty [] root" using assms by (simp add: shamap_inv_def)
  show ?thesis
    using walk_loop_spec [OF assms(2) wf, of 0 "[]"] by (simp add: walkTowardsKey_def node_id_root_eq [OF assms(2)])
qed

lemma findKey_spec:
  assumes "shamap_inv ty root" "uint256_ok k"
  shows "findKey root k = Some (if k \<in> tree_keys root then Some (terminal k 0 root) else None)"
proof -
  have wf: "tree_wf ty [] root" using assms(1) by (simp add: shamap_inv_def)
  show ?thesis
  proof (cases "terminal k 0 root")
    case (SInner cs)
    then show ?thesis
      using terminal_key [OF wf, of 0 k] by (auto simp: findKey_def walkTowardsKey_spec [OF assms])
  next
    case (SLeaf t i)
    have "t = ty" using terminal_wf [OF assms(2) wf, of 0] SLeaf by simp
    then show ?thesis
      using SLeaf terminal_key [OF wf, of 0 k] by (auto simp: findKey_def walkTowardsKey_spec [OF assms] leaf_key_def)
  qed
qed

text \<open>Lookups, for keys of any length.\<close>

lemma walk_loop_found: "walk_loop k n t st = Some (Some l, st') \<Longrightarrow> \<exists>t' i. l = SLeaf t' i \<and> i \<in> set (tree_items t)"
proof (induction t arbitrary: n st)
  case (SInner cs)
  then obtain c n' s where c: "child cs (selectBranch n k) = Some c" "walk_loop k n' c s = Some (Some l, st')"
    by (auto simp: Let_def split: bind_splits option.splits)
  from SInner.IH [OF child_mem [OF c(1)] _ c(2)] show ?case using c(1) by (auto simp: item_in_Inner)
qed (auto split: bind_splits)

lemma peekItem_spec:
  assumes "shamap_inv ty root"
  shows "peekItem root k = Some (Some i) \<longleftrightarrow> i \<in> set (tree_items root) \<and> si_key i = k"
proof (cases "uint256_ok k")
  case True
  have wf: "tree_wf ty [] root" using assms by (simp add: shamap_inv_def)
  show ?thesis
    using terminal_found [OF wf, of 0] by (auto simp: peekItem_def findKey_spec [OF assms True] tree_keys_def dest: tree_keys_inj [OF wf])
next
  case False
  have wf: "tree_wf ty [] root" using assms by (simp add: shamap_inv_def)
  have "si_key i \<noteq> k" if "i \<in> set (tree_items root)" for i using tree_wf_item [OF wf that] False by auto
  moreover have "peekItem root k \<noteq> Some (Some i)"
  proof
    assume "peekItem root k = Some (Some i)"
    then obtain l st where l: "walk_loop k node_id_root root [] = Some (Some l, st)" "leaf_key l = Some k"
      by (auto simp: peekItem_def findKey_def walkTowardsKey_def split: bind_splits option.splits if_splits)
    then show False using walk_loop_found [OF l(1)] \<open>\<And>i. i \<in> set (tree_items root) \<Longrightarrow> si_key i \<noteq> k\<close> by (auto simp: leaf_key_def)
  qed
  ultimately show ?thesis by blast
qed

section \<open>Adding an item\<close>

lemma child_setChild: "length cs = 16 \<Longrightarrow> child (setChild b x cs) b' = (if b' = b \<and> b < 16 then x else child cs b')"
  by (auto simp: child_def setChild_def)

lemma tree_items_branches: "tree_items (SInner cs) = concat (map tree_items (branches cs))"
  by (induction cs) (auto simp: tree_items.simps branches_def List.map_filter_def split: option.splits)

lemma length_items_setChild:
  assumes "child cs b = Some c" "length cs = 16"
  shows "length (tree_items (SInner (setChild b x cs))) + length (tree_items c) =
         length (tree_items (SInner cs)) + length (case_option [] tree_items x)"
proof -
  define l where "l = (\<lambda>x. length (case_option [] tree_items x))"
  have b: "b < length cs" "cs ! b = Some c" using assms by (auto simp: child_def split: if_splits)
  have e: "length (tree_items (SInner cs)) = sum_list (map l cs)" for cs
    by (simp add: tree_items.simps l_def length_concat comp_def)
  have "l (cs ! b) \<le> sum_list (map l cs)" using b(1) by (simp add: member_le_sum_list)
  then show ?thesis
    using b by (simp add: e setChild_def map_update sum_list_update) (simp add: l_def)
qed

lemma wf_setChild:
  assumes "tree_wf ty P (SInner cs)" "\<And>c. x = Some c \<Longrightarrow> tree_wf ty (P @ [b]) c \<and> compact c"
  shows "tree_wf ty P (SInner (setChild b x cs))"
proof -
  have "length (setChild b x cs) = 16" using assms(1) by (simp add: tree_wf_Inner setChild_def)
  moreover have "length cs = 16" using assms(1) by (simp add: tree_wf_Inner)
  ultimately show ?thesis using assms by (auto simp: tree_wf_Inner child_setChild split: if_splits)
qed

lemma items_setChild:
  assumes "tree_wf ty P (SInner cs)" "b < 16"
  shows "set (tree_items (SInner (setChild b x cs))) =
    {i \<in> set (tree_items (SInner cs)). nibble (si_key i) (length P) \<noteq> b} \<union> set (case_option [] tree_items x)"
proof -
  have l: "length cs = 16" using assms(1) by (simp add: tree_wf_Inner)
  show ?thesis
    using item_branch [OF assms(1)] assms(2)
    by (auto simp: item_in_Inner child_setChild [OF l] split: if_splits option.splits) metis+
qed

text \<open>Replacing the node where the walk ends by one with at least as many items.\<close>

lemma replace_spec:
  assumes "uint256_ok k"
  shows "tree_wf ty P t \<Longrightarrow> P = take d (nibbles k) \<Longrightarrow> d \<le> 64 \<Longrightarrow>
    tree_wf ty (take (d + length (spine k d t)) (nibbles k)) x \<Longrightarrow> (spine k d t \<noteq> [] \<Longrightarrow> compact x) \<Longrightarrow>
    length (tree_items (terminal k d t)) \<le> length (tree_items x) \<Longrightarrow>
    tree_wf ty P (replace k d t x) \<and> (spine k d t \<noteq> [] \<and> compact t \<longrightarrow> compact (replace k d t x)) \<and>
    length (tree_items t) + length (tree_items x) = length (tree_items (replace k d t x)) + length (tree_items (terminal k d t)) \<and>
    set (tree_items (replace k d t x)) = (set (tree_items t) - set (tree_items (terminal k d t))) \<union> set (tree_items x)"
proof (induction t arbitrary: P d)
  case (SInner cs)
  have d: "d < 64" and l: "length cs = 16" using SInner.prems(1-3) by (auto simp: tree_wf_Inner)
  have lp: "length P = d" using SInner.prems(2) d by simp
  show ?case
  proof (cases "child cs (nibble k d)")
    case (Some c)
    define b r where "b = nibble k d" and "r = replace k (Suc d) c x"
    have cb: "child cs b = Some c" using Some by (simp add: b_def)
    have P: "P @ [b] = take (Suc d) (nibbles k)" using SInner.prems(2) d by (simp add: take_Suc_nibbles b_def)
    have c: "tree_wf ty (P @ [b]) c" "compact c" "b < 16" using tree_wf_child [OF SInner.prems(1) cb] by auto
    have ih: "tree_wf ty (P @ [b]) r \<and> (spine k (Suc d) c \<noteq> [] \<and> compact c \<longrightarrow> compact r) \<and>
      length (tree_items c) + length (tree_items x) = length (tree_items r) + length (tree_items (terminal k (Suc d) c)) \<and>
      set (tree_items r) = (set (tree_items c) - set (tree_items (terminal k (Suc d) c))) \<union> set (tree_items x)"
      unfolding r_def by (rule SInner.IH [OF child_mem [OF Some]]) (use SInner.prems c P Some d in simp_all)
    have cr: "compact r"
    proof (cases "spine k (Suc d) c")
      case Nil
      then have "r = x" unfolding r_def by (cases c) (auto split: option.splits)
      then show ?thesis using SInner.prems(5) Some by simp
    qed (use ih c(2) in simp)
    have t: "set (tree_items (terminal k (Suc d) c)) \<subseteq> set (tree_items c)" by (rule terminal_sub)
    have eq: "set (tree_items c) = {i \<in> set (tree_items (SInner cs)). nibble (si_key i) d = b}"
      using items_child [OF SInner.prems(1) cb] lp by simp
    have len: "length (tree_items (SInner (setChild b (Some r) cs))) + length (tree_items c) =
         length (tree_items (SInner cs)) + length (tree_items r)" using length_items_setChild [OF cb l, of "Some r"] by simp
    have "tree_wf ty P (SInner (setChild b (Some r) cs))" using wf_setChild [OF SInner.prems(1)] ih cr by auto
    moreover have "compact (SInner cs) \<longrightarrow> compact (SInner (setChild b (Some r) cs))"
      using len ih SInner.prems(6) Some by (auto simp: compact_def)
    moreover have "set (tree_items (SInner (setChild b (Some r) cs))) =
        set (tree_items (SInner cs)) - set (tree_items (terminal k (Suc d) c)) \<union> set (tree_items x)"
      using items_setChild [OF SInner.prems(1) c(3), of "Some r"] ih t lp unfolding eq by (simp, blast)
    ultimately show ?thesis using len ih Some by (simp add: b_def [symmetric] r_def [symmetric])
  qed (use SInner.prems in simp)
qed simp

lemma stack_at_stack_of:
  "stack_at k d st \<Longrightarrow> d + length css \<le> 64 \<Longrightarrow> stack_at k (d + length css) (stack_of k d css @ st)"
proof (induction css arbitrary: d st)
  case (Cons cs css)
  have "stack_at k (Suc d) ((SInner cs, createID d k) # st)" using Cons.prems by auto
  from Cons.IH [OF this] Cons.prems show ?case by simp
qed simp

text \<open>The loop adds one inner node for every further branch the two keys share.\<close>

lemma split_loop_spec:
  assumes "uint256_ok k" "uint256_ok o'" "k \<noteq> o'"
  shows "take d (nibbles o') = take d (nibbles k) \<Longrightarrow> d \<le> 64 \<Longrightarrow> stack_at k d st \<Longrightarrow>
    \<exists>n. split_loop k o' (createID d k) st =
      Some (stack_of k d (replicate n empty_inner) @ st, nibble k (d + n), nibble o' (d + n)) \<and>
      d + n < 64 \<and> nibble k (d + n) \<noteq> nibble o' (d + n) \<and> take (d + n) (nibbles o') = take (d + n) (nibbles k)"
proof (induction "64 - d" arbitrary: d st)
  case 0
  then have "nibbles o' = nibbles k" by simp
  then show ?case using nibbles_inj assms by metis
next
  case (Suc m)
  then have d: "d < 64" by simp
  have sel: "selectBranch (createID d k) x = nibble x d" for x using d by (simp add: selectBranch_nibble createID_simps)
  show ?case
  proof (cases "nibble k d = nibble o' d")
    case False
    then show ?thesis by (intro exI [of _ 0]) (use d Suc.prems in \<open>simp add: split_loop.simps sel\<close>)
  next
    case True
    have "stack_at k (Suc d) ((SInner empty_inner, createID d k) # st)" using d by auto
    moreover have "take (Suc d) (nibbles o') = take (Suc d) (nibbles k)" using Suc.prems(1) True d by (simp add: take_Suc_nibbles)
    moreover have "m = 64 - Suc d" "Suc d \<le> 64" using Suc.hyps(2) d by simp_all
    ultimately obtain n where n: "split_loop k o' (createID (Suc d) k) ((SInner empty_inner, createID d k) # st) =
      Some (stack_of k (Suc d) (replicate n empty_inner) @ (SInner empty_inner, createID d k) # st, nibble k (Suc d + n), nibble o' (Suc d + n))"
      "Suc d + n < 64" "nibble k (Suc d + n) \<noteq> nibble o' (Suc d + n)" "take (Suc d + n) (nibbles o') = take (Suc d + n) (nibbles k)"
      using Suc.hyps(1) by blast
    show ?thesis
      by (intro exI [of _ "Suc n"])
        (use n True [symmetric] d Suc.prems assms in \<open>simp add: split_loop.simps [of _ _ "createID d k"] sel pushNode_at createID_child\<close>)
  qed
qed

lemma items_empty [simp]: "tree_items (SInner empty_inner) = []"
  by (simp add: empty_inner_def tree_items.simps)

lemma empty_wf: "length P < 64 \<Longrightarrow> tree_wf ty P (SInner empty_inner)"
  by (simp add: tree_wf_Inner empty_inner_def child_def)

lemma child_empty [simp]: "child empty_inner b = None" "length empty_inner = 16"
  by (simp_all add: empty_inner_def child_def)

lemma length_items_setChild_None:
  "child cs b = None \<Longrightarrow> length cs = 16 \<Longrightarrow> b < 16 \<Longrightarrow>
   length (tree_items (SInner (setChild b x cs))) = length (tree_items (SInner cs)) + length (case_option [] tree_items x)"
proof -
  assume a: "child cs b = None" "length cs = 16" "b < 16"
  have "cs ! b = None" "b < length cs" using a by (auto simp: child_def)
  then show ?thesis
    by (simp add: tree_items.simps setChild_def length_concat comp_def map_update sum_list_update)
qed

lemma dirtyUp_chain:
  assumes "uint256_ok k"
  shows "d + n < 64 \<Longrightarrow> tree_wf ty (take (d + n) (nibbles k)) x \<Longrightarrow> 2 \<le> length (tree_items x) \<Longrightarrow>
    \<exists>y. dirtyUp (stack_of k d (replicate n empty_inner) @ st) k x = dirtyUp st k y \<and>
      tree_wf ty (take d (nibbles k)) y \<and> length (tree_items y) = length (tree_items x) \<and> set (tree_items y) = set (tree_items x)"
proof (induction n arbitrary: d st)
  case (Suc n)
  then obtain y where y: "dirtyUp (stack_of k (Suc d) (replicate n empty_inner) @ (SInner empty_inner, createID d k) # st) k x =
      dirtyUp ((SInner empty_inner, createID d k) # st) k y"
    "tree_wf ty (take (Suc d) (nibbles k)) y" "length (tree_items y) = length (tree_items x)" "set (tree_items y) = set (tree_items x)"
    using Suc.IH [of "Suc d" "(SInner empty_inner, createID d k) # st"] by auto
  have d: "d < 64" using Suc.prems by simp
  have sel: "selectBranch (createID d k) k = nibble k d" using d by (simp add: selectBranch_nibble createID_simps)
  let ?z = "SInner (setChild (nibble k d) (Some y) empty_inner)"
  have e: "tree_wf ty (take d (nibbles k)) (SInner empty_inner)" using d by (simp add: empty_wf)
  have "tree_wf ty (take d (nibbles k)) ?z"
    by (rule wf_setChild [OF e]) (use y Suc.prems d in \<open>simp add: take_Suc_nibbles compact_def\<close>)
  then show ?case
    by (intro exI [of _ ?z])
      (use y d in \<open>simp add: sel length_items_setChild_None nibble_less items_setChild [OF e nibble_less]\<close>)
qed auto

lemma spine_Nil: "is_inner t \<Longrightarrow> spine k d t = [] \<Longrightarrow> is_inner (terminal k d t)"
  by (cases t) (auto split: option.splits)

lemma terminal_inner: "spine k d t = [] \<Longrightarrow> terminal k d t = t"
  by (cases t) (auto split: option.splits)

lemma compact_terminal:
  "tree_wf ty P t \<Longrightarrow> spine k d t \<noteq> [] \<Longrightarrow> compact (terminal k d t)"
proof (induction t arbitrary: P d)
  case (SInner cs)
  then obtain c where c: "child cs (nibble k d) = Some c" by (auto split: option.splits)
  have w: "tree_wf ty (P @ [nibble k d]) c" "compact c" using tree_wf_child [OF SInner.prems(1) c] by auto
  show ?case
  proof (cases "spine k (Suc d) c")
    case Nil
    then show ?thesis using c w by (simp add: terminal_inner)
  next
    case Cons
    then show ?thesis using SInner.IH [OF child_mem [OF c] _ w(1), of "Suc d"] c by simp
  qed
qed simp

text \<open>The tree that holds two items at the end of a walk, with the inner nodes the shared branches need.\<close>

lemma split_leaf:
  fixes ty :: SHAMapNodeType
  assumes "uint256_ok (si_key i)" "uint256_ok (si_key j)" "d < 64"
    and "take d (nibbles (si_key j)) = take d (nibbles (si_key i))" "nibble (si_key i) d \<noteq> nibble (si_key j) d"
  defines "x \<equiv> SInner (setChild (nibble (si_key j) d) (Some (SLeaf ty j)) (setChild (nibble (si_key i) d) (Some (SLeaf ty i)) empty_inner))"
  shows "tree_wf ty (take d (nibbles (si_key i))) x \<and> length (tree_items x) = 2 \<and> set (tree_items x) = {i, j}"
proof -
  let ?P = "take d (nibbles (si_key i))" and ?cs = "setChild (nibble (si_key i) d) (Some (SLeaf ty i)) empty_inner"
  have e: "tree_wf ty ?P (SInner empty_inner)" using assms(3) by (simp add: empty_wf)
  have w: "tree_wf ty ?P (SInner ?cs)"
    by (rule wf_setChild [OF e]) (use assms in \<open>auto simp: compact_def take_Suc_nibbles\<close>)
  moreover have "tree_wf ty ?P x" unfolding x_def
    by (rule wf_setChild [OF w])
      (use assms(2,3) assms(4) [symmetric] in \<open>auto simp: compact_def take_Suc_nibbles\<close>)
  moreover have "length ?cs = 16" by (simp add: setChild_def)
  ultimately show ?thesis using assms(3,5) unfolding x_def
    by (auto simp: length_items_setChild_None child_setChild items_setChild [OF w] items_setChild [OF e])
qed

text \<open>What \<open>dirtyUp\<close> makes of the map when it starts where the walk ended.\<close>

lemma dirtyUp_spec:
  assumes inv: "shamap_inv ty root" and k: "uint256_ok k"
    and x: "tree_wf ty (take (length (spine k 0 root)) (nibbles k)) x" "spine k 0 root = [] \<Longrightarrow> is_inner x"
      "spine k 0 root \<noteq> [] \<Longrightarrow> compact x" "length (tree_items (terminal k 0 root)) \<le> length (tree_items x)"
  shows "shamap_inv ty (dirtyUp (stack_of k 0 (spine k 0 root)) k x) \<and>
    set (tree_items (dirtyUp (stack_of k 0 (spine k 0 root)) k x)) =
      (set (tree_items root) - set (tree_items (terminal k 0 root))) \<union> set (tree_items x)"
proof -
  have wf: "tree_wf ty [] root" "is_inner root" using inv by (simp_all add: shamap_inv_def)
  have "dirtyUp (stack_of k 0 (spine k 0 root)) k x = replace k 0 root x"
    using dirtyUp_replace [OF _ wf(1), of 0 k "[]" x] by simp
  moreover have "is_inner (replace k 0 root x)" using wf(2) x(2) by (cases root) (auto split: option.splits)
  ultimately show ?thesis using replace_spec [OF k wf(1), of 0 x] x by (auto simp: shamap_inv_def)
qed

lemma shamap_terminal:
  assumes inv: "shamap_inv ty root" and k: "uint256_ok k"
  shows "tree_wf ty (take (length (spine k 0 root)) (nibbles k)) (terminal k 0 root)" "length (spine k 0 root) \<le> 64"
    "terminal k 0 root = SInner cs \<Longrightarrow> length (spine k 0 root) < 64 \<and> child cs (nibble k (length (spine k 0 root))) = None"
    "k \<in> tree_keys root \<longleftrightarrow> (\<exists>i. terminal k 0 root = SLeaf ty i \<and> si_key i = k)"
    "terminal k 0 root = SLeaf t j \<Longrightarrow> t = ty \<and> uint256_ok (si_key j) \<and> spine k 0 root \<noteq> [] \<and>
       take (length (spine k 0 root)) (nibbles (si_key j)) = take (length (spine k 0 root)) (nibbles k)"
proof -
  have wf: "tree_wf ty [] root" "is_inner root" using inv by (simp_all add: shamap_inv_def)
  show t: "tree_wf ty (take (length (spine k 0 root)) (nibbles k)) (terminal k 0 root)" and l: "length (spine k 0 root) \<le> 64"
    and "terminal k 0 root = SInner cs \<Longrightarrow> length (spine k 0 root) < 64 \<and> child cs (nibble k (length (spine k 0 root))) = None"
    using terminal_wf [OF k wf(1), of 0] by simp_all
  show "k \<in> tree_keys root \<longleftrightarrow> (\<exists>i. terminal k 0 root = SLeaf ty i \<and> si_key i = k)"
    using terminal_key [OF wf(1), of 0 k] by simp
  show "terminal k 0 root = SLeaf t j \<Longrightarrow> t = ty \<and> uint256_ok (si_key j) \<and> spine k 0 root \<noteq> [] \<and>
       take (length (spine k 0 root)) (nibbles (si_key j)) = take (length (spine k 0 root)) (nibbles k)"
    using t l spine_Nil [OF wf(2), of k 0] by auto
qed

lemma add_at_inner:
  assumes inv: "shamap_inv ty root" and ok: "uint256_ok (si_key item)" and t: "terminal (si_key item) 0 root = SInner cs"
  shows "\<exists>root'. addGiveItem ty item root = Some (root', True) \<and> shamap_inv ty root' \<and>
    set (tree_items root') = insert item (set (tree_items root))"
proof -
  define k s where "k = si_key item" and "s = length (spine k 0 root)"
  have k: "uint256_ok k" using ok by (simp add: k_def)
  note T = shamap_terminal [OF inv k, folded s_def]
  have t: "terminal k 0 root = SInner cs" using t by (simp add: k_def)
  note i = T(3) [OF t]
  let ?x = "SInner (setChild (nibble k s) (Some (SLeaf ty item)) cs)"
  have w: "tree_wf ty (take s (nibbles k)) (SInner cs)" using T(1) t by simp
  then have l: "length cs = 16" by (simp add: tree_wf_Inner)
  have len: "length (tree_items ?x) = Suc (length (tree_items (SInner cs)))"
    using i l by (simp add: length_items_setChild_None)
  have "tree_wf ty (take s (nibbles k)) ?x"
    by (rule wf_setChild [OF w]) (use i k in \<open>simp add: compact_def take_Suc_nibbles k_def\<close>)
  moreover have "compact ?x" if "spine k 0 root \<noteq> []"
    using compact_terminal [of ty "[]" root k 0] inv that len t by (auto simp: compact_def shamap_inv_def)
  ultimately have r: "shamap_inv ty (dirtyUp (stack_of k 0 (spine k 0 root)) k ?x) \<and>
    set (tree_items (dirtyUp (stack_of k 0 (spine k 0 root)) k ?x)) = (set (tree_items root) - set (tree_items (SInner cs))) \<union> set (tree_items ?x)"
    using dirtyUp_spec [OF inv k, of ?x] len t by (simp add: s_def)
  have "{j \<in> set (tree_items (SInner cs)). nibble (si_key j) s = nibble k s} = {}"
    using item_in_branch [OF w] i by auto
  then have x: "set (tree_items ?x) = insert item (set (tree_items (SInner cs)))"
    using items_setChild [OF w, of "nibble k s"] i by auto
  have sub: "set (tree_items (SInner cs)) \<subseteq> set (tree_items root)" using terminal_sub [of k 0 root] t by simp
  have "selectBranch (createID s k) k = nibble k s" using i by (simp add: selectBranch_nibble createID_simps)
  then have "addGiveItem ty item root = Some (dirtyUp (stack_of k 0 (spine k 0 root)) k ?x, True)"
    using walkTowardsKey_spec [OF inv k] t by (simp add: addGiveItem_def k_def [symmetric] s_def [symmetric])
  then show ?thesis using r x sub by auto
qed

lemma add_at_leaf:
  assumes inv: "shamap_inv ty root" and ok: "uint256_ok (si_key item)"
    and t: "terminal (si_key item) 0 root = SLeaf t' j" "si_key j \<noteq> si_key item"
  shows "\<exists>root'. addGiveItem ty item root = Some (root', True) \<and> shamap_inv ty root' \<and>
    set (tree_items root') = insert item (set (tree_items root))"
proof -
  define k s st where "k = si_key item" and "s = length (spine k 0 root)" and "st = stack_of k 0 (spine k 0 root)"
  have k: "uint256_ok k" "k \<noteq> si_key j" using ok t(2) by (simp_all add: k_def)
  note T = shamap_terminal [OF inv k(1), folded s_def]
  have t: "terminal k 0 root = SLeaf t' j" using t(1) by (simp add: k_def)
  note j = T(5) [OF t]
  have "stack_at k s st"
    using stack_at_stack_of [of k 0 "[]" "spine k 0 root"] T(2) by (simp add: s_def st_def)
  with split_loop_spec [OF k(1) _ k(2)] j T(2) obtain n where n: "split_loop k (si_key j) (createID s k) st =
    Some (stack_of k s (replicate n empty_inner) @ st, nibble k (s + n), nibble (si_key j) (s + n))"
    "s + n < 64" "nibble k (s + n) \<noteq> nibble (si_key j) (s + n)" "take (s + n) (nibbles (si_key j)) = take (s + n) (nibbles k)" by blast
  let ?x = "SInner (setChild (nibble (si_key j) (s + n)) (Some (SLeaf ty j)) (setChild (nibble k (s + n)) (Some (SLeaf ty item)) empty_inner))"
  have x: "tree_wf ty (take (s + n) (nibbles k)) ?x \<and> length (tree_items ?x) = 2 \<and> set (tree_items ?x) = {item, j}"
    using split_leaf [of item j "s + n" ty] n j ok by (simp add: k_def)
  then obtain y where y: "dirtyUp (stack_of k s (replicate n empty_inner) @ st) k ?x = dirtyUp st k y"
      "tree_wf ty (take s (nibbles k)) y" "length (tree_items y) = 2" "set (tree_items y) = {item, j}"
    using dirtyUp_chain [OF k(1) n(2), of ty ?x st] by auto
  have r: "shamap_inv ty (dirtyUp st k y) \<and> set (tree_items (dirtyUp st k y)) = (set (tree_items root) - {j}) \<union> {item, j}"
    using dirtyUp_spec [OF inv k(1), of y] y(2-4) j t by (simp add: compact_def s_def st_def)
  have "st \<noteq> []" using j by (cases "spine k 0 root") (auto simp: st_def)
  then have "addGiveItem ty item root = Some (dirtyUp st k y, True)"
    using walkTowardsKey_spec [OF inv k(1)] t j k(2) n(1) y(1)
    by (simp add: addGiveItem_def k_def [symmetric] s_def [symmetric] st_def [symmetric])
  moreover have "j \<in> set (tree_items root)" by (rule terminal_item [OF t])
  ultimately show ?thesis using r by auto
qed

lemma addGiveItem_spec:
  assumes inv: "shamap_inv ty root" and ok: "uint256_ok (si_key item)"
  shows "\<exists>root'. addGiveItem ty item root = Some (root', si_key item \<notin> tree_keys root) \<and> shamap_inv ty root' \<and>
    set (tree_items root') = (if si_key item \<in> tree_keys root then set (tree_items root) else insert item (set (tree_items root)))"
proof (cases "terminal (si_key item) 0 root")
  case (SInner cs)
  then show ?thesis using add_at_inner [OF inv ok SInner] shamap_terminal(4) [OF inv ok] by simp
next
  case (SLeaf t j)
  show ?thesis
  proof (cases "si_key j = si_key item")
    case True
    then show ?thesis
      using walkTowardsKey_spec [OF inv ok] shamap_terminal(4,5) [OF inv ok] SLeaf inv by (simp add: addGiveItem_def)
  next
    case False
    then show ?thesis using add_at_leaf [OF inv ok SLeaf] shamap_terminal(4) [OF inv ok] SLeaf by simp
  qed
qed

section \<open>Deleting and updating an item\<close>

lemma compact_items: "compact t \<Longrightarrow> tree_items t \<noteq> []"
  by (cases t) (auto simp: compact_def)

lemma wf_branches: "tree_wf ty P (SInner cs) \<Longrightarrow> c \<in> set (branches cs) \<Longrightarrow> \<exists>b. child cs b = Some c \<and> tree_wf ty (P @ [b]) c \<and> compact c"
proof -
  assume w: "tree_wf ty P (SInner cs)" and "c \<in> set (branches cs)"
  then obtain b where "b < length cs" "cs ! b = Some c" by (auto simp: branches_mem in_set_conv_nth [of "Some c"])
  then have "child cs b = Some c" by (simp add: child_def)
  then show ?thesis using w by (auto simp: tree_wf_Inner)
qed

lemma onlyBelow_spec: "tree_wf ty P t \<Longrightarrow> onlyBelow t = (case tree_items t of [i] \<Rightarrow> Some i | _ \<Rightarrow> None)"
proof (induction t arbitrary: P rule: onlyBelow.induct)
  case (2 cs)
  show ?case
  proof (cases "branches cs")
    case (Cons c bs)
    show ?thesis
    proof (cases bs)
      case Nil
      obtain b where "tree_wf ty (P @ [b]) c" using wf_branches [OF 2(2), of c] Cons by auto
      then show ?thesis using 2(1) [of c "[]"] Cons Nil by (simp add: tree_items_branches)
    next
      case (Cons c' bs')
      note bs = \<open>branches cs = c # bs\<close> Cons
      have "compact c" "compact c'" using wf_branches [OF 2(2)] bs by auto
      then have "tree_items c \<noteq> []" "tree_items c' \<noteq> []" by (simp_all add: compact_items)
      then show ?thesis using bs by (auto simp: tree_items_branches neq_Nil_conv split: list.splits)
    qed
  qed (simp add: tree_items_branches)
qed simp

definition collapse :: "SHAMapNodeType \<Rightarrow> tree option list \<Rightarrow> tree option" where
  "collapse ty cs =
     (if node_branch_count cs = 0 then None
      else if node_branch_count cs = 1
      then (case onlyBelow (SInner cs) of Some item \<Rightarrow> Some (SLeaf ty item) | None \<Rightarrow> Some (SInner cs))
      else Some (SInner cs))"

fun del_below :: "SHAMapNodeType \<Rightarrow> uint256 \<Rightarrow> nat \<Rightarrow> tree \<Rightarrow> tree option" where
  "del_below ty k d (SLeaf t i) = None"
| "del_below ty k d (SInner cs) =
     (case child cs (nibble k d) of
        None \<Rightarrow> Some (SInner cs)
      | Some c \<Rightarrow> collapse ty (setChild (nibble k d) (del_below ty k (Suc d) c) cs))"

lemma collapse_spec:
  assumes "tree_wf ty P (SInner cs)" "tree_items (SInner cs) \<noteq> []"
  shows "\<exists>t. collapse ty cs = Some t \<and> tree_wf ty P t \<and> compact t \<and> tree_items t = tree_items (SInner cs)"
proof (cases "tree_items (SInner cs)")
  case (Cons i rest)
  have nz: "node_branch_count cs \<noteq> 0" using assms(2) by (auto simp: node_branch_count_def tree_items_branches)
  show ?thesis
  proof (cases rest)
    case Nil
    have "length (branches cs) \<le> 1"
    proof (rule ccontr)
      assume "\<not> length (branches cs) \<le> 1"
      then obtain c c' bs where bs: "branches cs = c # c' # bs" by (cases "branches cs"; cases "tl (branches cs)") auto
      have "compact c" "compact c'" using wf_branches [OF assms(1)] bs by auto
      then have "tree_items c \<noteq> []" "tree_items c' \<noteq> []" by (simp_all add: compact_items)
      then show False using Cons Nil bs by (auto simp: tree_items_branches append_eq_Cons_conv)
    qed
    then have "node_branch_count cs = 1" using nz unfolding node_branch_count_def by linarith
    then have "collapse ty cs = Some (SLeaf ty i)"
      using onlyBelow_spec [OF assms(1)] Cons Nil by (simp add: collapse_def)
    moreover have "tree_wf ty P (SLeaf ty i)"
      using tree_wf_item [OF assms(1), of i] assms(1) Cons by (simp add: tree_wf_Inner)
    ultimately show ?thesis using Cons Nil by (simp add: compact_def)
  next
    case (Cons j js)
    then have "collapse ty cs = Some (SInner cs)"
      using nz onlyBelow_spec [OF assms(1)] \<open>tree_items (SInner cs) = i # rest\<close> by (simp add: collapse_def)
    then show ?thesis using assms(1) Cons \<open>tree_items (SInner cs) = i # rest\<close> by (simp add: compact_def)
  qed
qed (use assms(2) in simp)

text \<open>The children of an inner node after one of its items is deleted below it.\<close>

lemma del_child:
  assumes w: "tree_wf ty P (SInner cs)" and c: "child cs b = Some c" and i: "i \<in> set (tree_items c)"
    and r: "case r of None \<Rightarrow> tree_items c = [i]
      | Some c' \<Rightarrow> tree_wf ty (P @ [b]) c' \<and> compact c' \<and> Suc (length (tree_items c')) = length (tree_items c) \<and>
          set (tree_items c') = set (tree_items c) - {i}"
  shows "tree_wf ty P (SInner (setChild b r cs))"
    "Suc (length (tree_items (SInner (setChild b r cs)))) = length (tree_items (SInner cs))"
    "set (tree_items (SInner (setChild b r cs))) = set (tree_items (SInner cs)) - {i}"
proof -
  have l: "length cs = 16" and b: "b < 16" using w tree_wf_child [OF w c] by (simp_all add: tree_wf_Inner)
  show "tree_wf ty P (SInner (setChild b r cs))" by (rule wf_setChild [OF w]) (use r in auto)
  show "Suc (length (tree_items (SInner (setChild b r cs)))) = length (tree_items (SInner cs))"
    using length_items_setChild [OF c l, of r] r by (cases r) auto
  have "set (case_option [] tree_items r) = set (tree_items c) - {i}" using r by (cases r) auto
  then show "set (tree_items (SInner (setChild b r cs))) = set (tree_items (SInner cs)) - {i}"
    using items_setChild [OF w b, of r] items_child [OF w c] i by auto
qed

lemma del_below_spec:
  "tree_wf ty P t \<Longrightarrow> compact t \<Longrightarrow> length P = d \<Longrightarrow> i \<in> set (tree_items t) \<Longrightarrow>
   (case del_below ty (si_key i) d t of None \<Rightarrow> tree_items t = [i]
    | Some t' \<Rightarrow> tree_wf ty P t' \<and> compact t' \<and> Suc (length (tree_items t')) = length (tree_items t) \<and>
        set (tree_items t') = set (tree_items t) - {i})"
proof (induction t arbitrary: P d)
  case (SInner cs)
  let ?b = "nibble (si_key i) d"
  obtain c where c: "child cs ?b = Some c" "i \<in> set (tree_items c)"
    using item_in_branch [OF SInner.prems(1)] SInner.prems(3,4) by auto
  have w: "tree_wf ty (P @ [?b]) c" "compact c" using tree_wf_child [OF SInner.prems(1) c(1)] by auto
  define r where "r = del_below ty (si_key i) (Suc d) c"
  have "case r of None \<Rightarrow> tree_items c = [i]
      | Some c' \<Rightarrow> tree_wf ty (P @ [?b]) c' \<and> compact c' \<and> Suc (length (tree_items c')) = length (tree_items c) \<and>
          set (tree_items c') = set (tree_items c) - {i}"
    unfolding r_def by (rule SInner.IH [OF child_mem [OF c(1)] _ w]) (use SInner.prems(3) c(2) in simp_all)
  note D = del_child [OF SInner.prems(1) c this]
  have "tree_items (SInner (setChild ?b r cs)) \<noteq> []" using D(2) SInner.prems(2) by (auto simp: compact_def)
  from collapse_spec [OF D(1) this] obtain t where t: "collapse ty (setChild ?b r cs) = Some t" "tree_wf ty P t" "compact t"
    "tree_items t = tree_items (SInner (setChild ?b r cs))" by blast
  then show ?case using c(1) D(2,3) by (simp add: r_def [symmetric])
qed simp

lemma del_loop_below:
  "tree_wf ty P t \<Longrightarrow> length P = d \<Longrightarrow> 0 < d \<Longrightarrow> terminal k d t = SLeaf t' i \<Longrightarrow>
   del_loop k ty root (stack_of k d (spine k d t) @ st) None = del_loop k ty root st (del_below ty k d t)"
proof (induction t arbitrary: P d st)
  case (SInner cs)
  then obtain c where c: "child cs (nibble k d) = Some c" by (auto split: option.splits)
  have w: "tree_wf ty (P @ [nibble k d]) c" using tree_wf_child [OF SInner.prems(1) c] by auto
  have d: "d < 64" using SInner.prems by (simp add: tree_wf_Inner)
  then show ?case
    using SInner.IH [OF child_mem [OF c] _ w, of "Suc d" "(SInner cs, createID d k) # st"] c SInner.prems
    by (simp add: Let_def selectBranch_nibble createID_simps isRoot_def collapse_def cong: if_cong)
qed simp

lemma delItem_spec:
  assumes inv: "shamap_inv ty root" and k: "uint256_ok k"
  shows "\<exists>root'. delItem k root = Some (root', k \<in> tree_keys root) \<and> shamap_inv ty root' \<and>
    set (tree_items root') = {i \<in> set (tree_items root). si_key i \<noteq> k}"
proof (cases "k \<in> tree_keys root")
  case False
  then have "{i \<in> set (tree_items root). si_key i \<noteq> k} = set (tree_items root)" by (auto simp: tree_keys_def)
  moreover have "delItem k root = Some (root, False)"
  proof (cases "terminal k 0 root")
    case (SLeaf t j)
    then show ?thesis
      using False walkTowardsKey_spec [OF inv k] shamap_terminal(4,5) [OF inv k] by (auto simp: delItem_def)
  qed (simp add: delItem_def walkTowardsKey_spec [OF inv k])
  ultimately show ?thesis using inv False by auto
next
  case True
  then obtain i where i: "terminal k 0 root = SLeaf ty i" "si_key i = k" using shamap_terminal(4) [OF inv k] by blast
  have iin: "i \<in> set (tree_items root)" by (rule terminal_item [OF i(1)])
  have wf: "tree_wf ty [] root" "is_inner root" using inv by (simp_all add: shamap_inv_def)
  then obtain cs where cs: "root = SInner cs" by (cases root) auto
  let ?b = "nibble k 0"
  from cs i(1) obtain c where c: "child cs ?b = Some c" by (auto split: option.splits)
  then have ci: "i \<in> set (tree_items c)" using cs i(1) by (intro terminal_item [of k 1]) simp
  have w: "tree_wf ty [] (SInner cs)" "tree_wf ty [?b] c" "compact c" using tree_wf_child [of ty "[]" cs] c wf(1) cs by auto
  define r where "r = del_below ty k 1 c"
  have "case r of None \<Rightarrow> tree_items c = [i]
      | Some c' \<Rightarrow> tree_wf ty ([] @ [?b]) c' \<and> compact c' \<and> Suc (length (tree_items c')) = length (tree_items c) \<and>
          set (tree_items c') = set (tree_items c) - {i}"
    using del_below_spec [OF w(2,3) _ ci, of 1] by (simp add: r_def i(2) cong: option.case_cong)
  note D = del_child [OF w(1) c ci this]
  have "del_loop k ty root (stack_of k 0 (spine k 0 root)) None = SInner (setChild ?b r cs)"
    using del_loop_below [OF w(2), of 1 k ty i root "[(SInner cs, createID 0 k)]"] i(1) cs c
    by (simp add: r_def isRoot_def selectBranch_nibble createID_simps)
  then have "delItem k root = Some (SInner (setChild ?b r cs), True)"
    using walkTowardsKey_spec [OF inv k] i by (simp add: delItem_def)
  moreover have "set (tree_items root) - {i} = {i \<in> set (tree_items root). si_key i \<noteq> k}"
    using tree_keys_inj [OF wf(1)] i(2) iin by blast
  ultimately show ?thesis using D True cs by (simp add: shamap_inv_def)
qed

lemma other_keys:
  assumes "k \<notin> tree_keys t"
  shows "(\<lambda>old. if si_key old = k \<and> Q old then i else old) ` set (tree_items t) = set (tree_items t)"
proof -
  have "(\<lambda>old. if si_key old = k \<and> Q old then i else old) ` set (tree_items t) = (\<lambda>old. old) ` set (tree_items t)"
    using assms by (intro image_cong) (auto simp: tree_keys_def)
  then show ?thesis by simp
qed

lemma old_image:
  assumes "tree_wf ty P t" "old \<in> set (tree_items t)"
  shows "(\<lambda>j. if si_key j = si_key old \<and> Q j then i else j) ` set (tree_items t) =
    (if Q old then insert i (set (tree_items t) - {old}) else set (tree_items t))"
proof -
  have "si_key j = si_key old \<longleftrightarrow> j = old" if "j \<in> set (tree_items t)" for j
    using tree_keys_inj [OF assms(1) that assms(2)] by auto
  then have "(\<lambda>j. if si_key j = si_key old \<and> Q j then i else j) ` set (tree_items t) = (\<lambda>j. if j = old \<and> Q j then i else j) ` set (tree_items t)"
    by (intro image_cong) auto
  also have "\<dots> = (if Q old then insert i (set (tree_items t) - {old}) else set (tree_items t))" using assms(2) by force
  finally show ?thesis .
qed

lemma updateGiveItem_spec:
  assumes inv: "shamap_inv ty root" and k: "uint256_ok (si_key item)"
  shows "\<exists>root'. updateGiveItem sha ty item root = Some (root', si_key item \<in> tree_keys root) \<and> shamap_inv ty root' \<and>
    set (tree_items root') =
      (\<lambda>old. if si_key old = si_key item \<and> leaf_updateHash sha ty old \<noteq> leaf_updateHash sha ty item then item else old) ` set (tree_items root)"
proof (cases "si_key item \<in> tree_keys root")
  case False
  have "updateGiveItem sha ty item root = Some (root, False)"
  proof (cases "terminal (si_key item) 0 root")
    case (SLeaf t j)
    then show ?thesis
      using False walkTowardsKey_spec [OF inv k] shamap_terminal(4,5) [OF inv k] by (auto simp: updateGiveItem_def)
  qed (simp add: updateGiveItem_def walkTowardsKey_spec [OF inv k])
  then show ?thesis unfolding other_keys [OF False] using inv False by simp
next
  case True
  define k' st where "k' = si_key item" and "st = stack_of k' 0 (spine k' 0 root)"
  have ok: "uint256_ok k'" using k by (simp add: k'_def)
  obtain old where old: "terminal k' 0 root = SLeaf ty old" "si_key old = k'"
    using True shamap_terminal(4) [OF inv k] by (auto simp: k'_def)
  note t = shamap_terminal(2,5) [OF inv ok]
  have leaf: "tree_wf ty (take (length (spine k' 0 root)) (nibbles k')) (SLeaf ty item)" using t(1) k by (simp add: k'_def)
  have oin: "old \<in> set (tree_items root)" by (rule terminal_item [OF old(1)])
  have wf: "tree_wf ty [] root" using inv by (simp add: shamap_inv_def)
  have d: "shamap_inv ty (dirtyUp st k' (SLeaf ty item)) \<and>
    set (tree_items (dirtyUp st k' (SLeaf ty item))) = insert item (set (tree_items root) - {old})"
    using dirtyUp_spec [OF inv ok leaf] t(2) [OF old(1)] by (simp add: compact_def st_def old(1))
  have "updateGiveItem sha ty item root =
      Some (if leaf_updateHash sha ty old \<noteq> leaf_updateHash sha ty item then dirtyUp st k' (SLeaf ty item) else root, True)"
    using walkTowardsKey_spec [OF inv ok] old by (simp add: updateGiveItem_def k'_def [symmetric] st_def [symmetric])
  moreover have "(\<lambda>j. if si_key j = k' \<and> leaf_updateHash sha ty j \<noteq> leaf_updateHash sha ty item then item else j) ` set (tree_items root) =
    (if leaf_updateHash sha ty old \<noteq> leaf_updateHash sha ty item then insert item (set (tree_items root) - {old}) else set (tree_items root))"
    using old_image [OF wf oin, of "\<lambda>j. leaf_updateHash sha ty j \<noteq> leaf_updateHash sha ty item" item] old(2) by (simp only: not_not)
  ultimately show ?thesis using d True inv by (auto simp: k'_def)
qed

section \<open>The tree is determined by its items\<close>

lemma distinct_concat_keyed:
  "(\<And>j. j < length xs \<Longrightarrow> distinct (f (xs ! j)) \<and> (\<forall>i\<in>set (f (xs ! j)). g i = n + j)) \<Longrightarrow> distinct (concat (map f xs))"
proof (induction xs arbitrary: n)
  case (Cons x xs)
  have "distinct (concat (map f xs))" by (rule Cons.IH [of "Suc n"]) (use Cons.prems [of "Suc _"] in auto)
  moreover have "distinct (f x)" "\<forall>i\<in>set (f x). g i = n" using Cons.prems [of 0] by auto
  moreover have "g i \<noteq> n" if "i \<in> set (concat (map f xs))" for i
  proof -
    from that obtain j where "j < length xs" "i \<in> set (f (xs ! j))" by (auto simp: in_set_conv_nth [of _ xs])
    then show ?thesis using Cons.prems [of "Suc j"] by auto
  qed
  ultimately show ?case by auto
qed simp

lemma distinct_items: "tree_wf ty P t \<Longrightarrow> distinct (tree_items t)"
proof (induction t arbitrary: P)
  case (SInner cs)
  have "distinct (concat (map (case_option [] tree_items) cs))"
  proof (rule distinct_concat_keyed [where g = "\<lambda>i. nibble (si_key i) (length P)" and n = 0])
    fix j assume j: "j < length cs"
    show "distinct (case_option [] tree_items (cs ! j)) \<and> (\<forall>i\<in>set (case_option [] tree_items (cs ! j)). nibble (si_key i) (length P) = 0 + j)"
    proof (cases "cs ! j")
      case (Some c)
      then have c: "child cs j = Some c" using j by (simp add: child_def)
      show ?thesis using SInner.IH [OF child_mem [OF c], of c] tree_wf_child [OF SInner.prems c] item_branch [OF SInner.prems c] Some by auto
    qed simp
  qed
  then show ?case by (simp add: tree_items.simps)
qed simp

lemma length_items: "tree_wf ty P t \<Longrightarrow> length (tree_items t) = card (set (tree_items t))"
  by (simp add: distinct_items distinct_card)

lemma tree_canonical:
  "tree_wf ty P t \<Longrightarrow> tree_wf ty P t' \<Longrightarrow> set (tree_items t) = set (tree_items t') \<Longrightarrow>
   is_inner t = is_inner t' \<or> compact t \<and> compact t' \<Longrightarrow> t = t'"
proof (induction t arbitrary: P t')
  case (SLeaf s i)
  have "length (tree_items t') = card {i}" using length_items [OF SLeaf.prems(2)] SLeaf.prems(3) by simp
  then have "\<not> is_inner t'" using SLeaf.prems(4) by (auto simp: compact_def)
  then show ?case using SLeaf.prems by (cases t') auto
next
  case (SInner cs)
  have "is_inner t'"
    using SInner.prems(4) length_items [OF SInner.prems(1)] length_items [OF SInner.prems(2)] SInner.prems(3)
    by (cases t') (auto simp: compact_def)
  then obtain cs' where cs': "t' = SInner cs'" by (cases t') auto
  have l: "length cs = 16" "length cs' = 16" using SInner.prems(1,2) cs' by (simp_all add: tree_wf_Inner)
  have "cs ! b = cs' ! b" if "b < 16" for b
  proof (cases "child cs b")
    case None
    have "child cs' b = None"
    proof (rule ccontr)
      assume "child cs' b \<noteq> None"
      then obtain c where c: "child cs' b = Some c" by auto
      then obtain i where i: "i \<in> set (tree_items c)" using tree_wf_child [of ty P cs' b c] SInner.prems(2) cs' compact_items by fastforce
      then have "i \<in> set (tree_items (SInner cs))" "nibble (si_key i) (length P) = b"
        using items_child [of ty P cs' b c] c SInner.prems(2,3) cs' by auto
      then show False using item_in_branch [OF SInner.prems(1)] None by auto
    qed
    then show ?thesis using None l that by (simp add: child_def)
  next
    case (Some c)
    note w = tree_wf_child [OF SInner.prems(1) Some]
    then obtain i where i: "i \<in> set (tree_items c)" using compact_items by fastforce
    then have "i \<in> set (tree_items (SInner cs'))" "nibble (si_key i) (length P) = b"
      using items_child [OF SInner.prems(1) Some] SInner.prems(3) cs' by auto
    then obtain c' where c': "child cs' b = Some c'" using item_in_branch [of ty P cs' i] SInner.prems(2) cs' by auto
    note w' = tree_wf_child [OF SInner.prems(2) [unfolded cs'] c']
    have "set (tree_items c) = set (tree_items c')"
      using items_child [OF SInner.prems(1) Some] items_child [OF SInner.prems(2) [unfolded cs'] c'] SInner.prems(3) cs' by simp
    then have "c = c'" using SInner.IH [OF child_mem [OF Some], of c "P @ [b]" c'] w w' by blast
    then show ?thesis using Some c' l that by (simp add: child_def)
  qed
  then show ?case using cs' l by (auto intro: nth_equalityI)
qed

lemma shamap_canonical:
  "shamap_inv ty t \<Longrightarrow> shamap_inv ty t' \<Longrightarrow> set (tree_items t) = set (tree_items t') \<Longrightarrow> t = t'"
  using tree_canonical [of ty "[]" t t'] by (simp add: shamap_inv_def)

section \<open>Sequences of operations\<close>

datatype shamap_op = OpAdd shamap_item | OpDel uint256 | OpUpdate shamap_item

fun op_ok :: "shamap_op \<Rightarrow> bool" where
  "op_ok (OpAdd i) \<longleftrightarrow> uint256_ok (si_key i)"
| "op_ok (OpDel k) \<longleftrightarrow> uint256_ok k"
| "op_ok (OpUpdate i) \<longleftrightarrow> uint256_ok (si_key i)"

fun shamap_step :: "digest \<Rightarrow> SHAMapNodeType \<Rightarrow> shamap_op \<Rightarrow> tree \<Rightarrow> (tree \<times> bool) option" where
  "shamap_step sha ty (OpAdd i) root = addItem ty i root"
| "shamap_step sha ty (OpDel k) root = delItem k root"
| "shamap_step sha ty (OpUpdate i) root = updateGiveItem sha ty i root"

fun shamap_run :: "digest \<Rightarrow> SHAMapNodeType \<Rightarrow> shamap_op list \<Rightarrow> tree \<Rightarrow> (tree \<times> bool list) option" where
  "shamap_run sha ty [] root = Some (root, [])"
| "shamap_run sha ty (op # ops) root =
     (case shamap_step sha ty op root of
        None \<Rightarrow> None
      | Some (root', r) \<Rightarrow> map_option (\<lambda>(root'', rs). (root'', r # rs)) (shamap_run sha ty ops root'))"

text \<open>The same operations on a finite map from keys to items.\<close>

fun map_step :: "digest \<Rightarrow> SHAMapNodeType \<Rightarrow> shamap_op \<Rightarrow> (uint256 \<rightharpoonup> shamap_item) \<Rightarrow> (uint256 \<rightharpoonup> shamap_item) \<times> bool" where
  "map_step sha ty (OpAdd i) m = (if m (si_key i) = None then (m(si_key i \<mapsto> i), True) else (m, False))"
| "map_step sha ty (OpDel k) m = (m(k := None), m k \<noteq> None)"
| "map_step sha ty (OpUpdate i) m =
     (case m (si_key i) of
        None \<Rightarrow> (m, False)
      | Some old \<Rightarrow> (if leaf_updateHash sha ty old \<noteq> leaf_updateHash sha ty i then m(si_key i \<mapsto> i) else m, True))"

fun map_run :: "digest \<Rightarrow> SHAMapNodeType \<Rightarrow> shamap_op list \<Rightarrow> (uint256 \<rightharpoonup> shamap_item) \<Rightarrow> (uint256 \<rightharpoonup> shamap_item) \<times> bool list" where
  "map_run sha ty [] m = (m, [])"
| "map_run sha ty (op # ops) m =
     (let (m', r) = map_step sha ty op m; (m'', rs) = map_run sha ty ops m' in (m'', r # rs))"

definition shamap_abs :: "tree \<Rightarrow> uint256 \<rightharpoonup> shamap_item" where
  "shamap_abs root k = (case peekItem root k of Some (Some i) \<Rightarrow> Some i | _ \<Rightarrow> None)"

lemma shamap_abs_iff: "shamap_inv ty root \<Longrightarrow> shamap_abs root k = Some i \<longleftrightarrow> i \<in> set (tree_items root) \<and> si_key i = k"
proof -
  have "shamap_abs root k = Some i \<longleftrightarrow> peekItem root k = Some (Some i)" by (auto simp: shamap_abs_def split: option.splits)
  then show "shamap_inv ty root \<Longrightarrow> ?thesis" using peekItem_spec by simp
qed

lemma shamap_abs_eqI:
  assumes "shamap_inv ty root" "\<And>k i. m k = Some i \<longleftrightarrow> i \<in> set (tree_items root) \<and> si_key i = k"
  shows "shamap_abs root = m"
proof
  fix k
  have "shamap_abs root k = Some i \<longleftrightarrow> m k = Some i" for i using shamap_abs_iff [OF assms(1)] assms(2) by simp
  then show "shamap_abs root k = m k" by (metis not_None_eq)
qed

lemma shamap_abs_None: "shamap_inv ty root \<Longrightarrow> shamap_abs root k = None \<longleftrightarrow> k \<notin> tree_keys root"
  using shamap_abs_iff [of ty root k] unfolding tree_keys_def by (metis (no_types, lifting) imageE image_eqI not_None_eq)

lemma shamap_step_spec:
  assumes inv: "shamap_inv ty root" and ok: "op_ok op"
  shows "\<exists>root'. shamap_step sha ty op root = Some (root', snd (map_step sha ty op (shamap_abs root))) \<and> shamap_inv ty root' \<and>
    shamap_abs root' = fst (map_step sha ty op (shamap_abs root))"
proof (cases op)
  case (OpAdd i)
  then have "uint256_ok (si_key i)" using ok by simp
  from addGiveItem_spec [OF inv this] obtain root' where r: "addGiveItem ty i root = Some (root', si_key i \<notin> tree_keys root)" "shamap_inv ty root'"
    "set (tree_items root') = (if si_key i \<in> tree_keys root then set (tree_items root) else insert i (set (tree_items root)))" by blast
  have "shamap_abs root' = (if shamap_abs root (si_key i) = None then (shamap_abs root)(si_key i \<mapsto> i) else shamap_abs root)"
    by (rule shamap_abs_eqI [OF r(2)])
      (use r(3) shamap_abs_iff [OF inv] in \<open>auto simp: shamap_abs_None [OF inv] tree_keys_def image_iff\<close>)
  then show ?thesis using r OpAdd by (auto simp: addItem_def shamap_abs_None [OF inv])
next
  case (OpDel k)
  then have "uint256_ok k" using ok by simp
  from delItem_spec [OF inv this] obtain root' where r: "delItem k root = Some (root', k \<in> tree_keys root)" "shamap_inv ty root'"
    "set (tree_items root') = {i \<in> set (tree_items root). si_key i \<noteq> k}" by blast
  have "shamap_abs root' = (shamap_abs root)(k := None)"
    by (rule shamap_abs_eqI [OF r(2)]) (use r(3) shamap_abs_iff [OF inv] in auto)
  then show ?thesis using r OpDel shamap_abs_None [OF inv, of k] by auto
next
  case (OpUpdate i)
  then have "uint256_ok (si_key i)" using ok by simp
  from updateGiveItem_spec [OF inv this, of sha] obtain root' where r: "updateGiveItem sha ty i root = Some (root', si_key i \<in> tree_keys root)"
    "shamap_inv ty root'" "set (tree_items root') =
      (\<lambda>old. if si_key old = si_key i \<and> leaf_updateHash sha ty old \<noteq> leaf_updateHash sha ty i then i else old) ` set (tree_items root)" by blast
  have wf: "tree_wf ty [] root" using inv by (simp add: shamap_inv_def)
  have "shamap_abs root' = fst (map_step sha ty (OpUpdate i) (shamap_abs root))"
  proof (cases "shamap_abs root (si_key i)")
    case None
    then have "si_key i \<notin> tree_keys root" using shamap_abs_None [OF inv] by simp
    from r(3) [unfolded other_keys [OF this]] have "set (tree_items root') = set (tree_items root)" .
    then show ?thesis using None by (intro shamap_abs_eqI [OF r(2)]) (use shamap_abs_iff [OF inv] in simp)
  next
    case (Some old)
    then have old: "old \<in> set (tree_items root)" "si_key old = si_key i" using shamap_abs_iff [OF inv] by auto
    have "fst (map_step sha ty (OpUpdate i) (shamap_abs root)) =
      (if leaf_updateHash sha ty old \<noteq> leaf_updateHash sha ty i then (shamap_abs root)(si_key i \<mapsto> i) else shamap_abs root)"
      using Some by simp
    moreover have "set (tree_items root') =
      (if leaf_updateHash sha ty old \<noteq> leaf_updateHash sha ty i then insert i (set (tree_items root) - {old}) else set (tree_items root))"
      using r(3) old_image [OF wf old(1), of "\<lambda>j. leaf_updateHash sha ty j \<noteq> leaf_updateHash sha ty i" i] old(2) by simp
    moreover have "((shamap_abs root)(si_key i \<mapsto> i)) k = Some j \<longleftrightarrow> j \<in> insert i (set (tree_items root) - {old}) \<and> si_key j = k" for k j
      using tree_keys_inj [OF wf _ old(1), of j] old(2) shamap_abs_iff [OF inv, of k j] by (cases "k = si_key i") auto
    ultimately show ?thesis by (intro shamap_abs_eqI [OF r(2)]) (simp add: shamap_abs_iff [OF inv])
  qed
  moreover have "snd (map_step sha ty (OpUpdate i) (shamap_abs root)) = (si_key i \<in> tree_keys root)"
    using shamap_abs_None [OF inv, of "si_key i"] by (auto split: option.splits)
  ultimately show ?thesis using r OpUpdate by auto
qed

lemma SHAMap_new_inv: "shamap_inv ty SHAMap_new" "shamap_abs SHAMap_new = Map.empty"
proof -
  show inv: "shamap_inv ty SHAMap_new" by (simp add: SHAMap_new_def shamap_inv_def empty_wf)
  show "shamap_abs SHAMap_new = Map.empty"
    by (rule shamap_abs_eqI [OF inv]) (simp add: SHAMap_new_def)
qed

lemma shamap_run_spec:
  "shamap_inv ty root \<Longrightarrow> list_all op_ok ops \<Longrightarrow>
   \<exists>root'. shamap_run sha ty ops root = Some (root', snd (map_run sha ty ops (shamap_abs root))) \<and> shamap_inv ty root' \<and>
     shamap_abs root' = fst (map_run sha ty ops (shamap_abs root))"
proof (induction ops arbitrary: root)
  case (Cons op ops)
  from shamap_step_spec [OF Cons.prems(1), of op sha] Cons.prems(2)
  obtain root' where r: "shamap_step sha ty op root = Some (root', snd (map_step sha ty op (shamap_abs root)))" "shamap_inv ty root'"
    "shamap_abs root' = fst (map_step sha ty op (shamap_abs root))" by auto
  from Cons.IH [OF r(2)] Cons.prems(2) r show ?case by (auto simp: case_prod_unfold Let_def)
qed simp

text \<open>
  C2: the SHAMap implements a map from keys to items. Any sequence of \<^verbatim>\<open>addItem\<close>,
  \<^verbatim>\<open>delItem\<close> and \<^verbatim>\<open>updateGiveItem\<close> on a new map runs without an exception and keeps the
  invariant of the tree; every operation returns the boolean the same operation on the finite map
  returns, and afterwards \<^verbatim>\<open>peekItem\<close> answers as that map does, for every key. An update that
  does not change the hash of the leaf changes nothing.
\<close>

theorem shamap_refines_map:
  assumes "list_all op_ok ops"
  shows "\<exists>root. shamap_run sha ty ops SHAMap_new = Some (root, snd (map_run sha ty ops Map.empty)) \<and> shamap_inv ty root \<and>
    shamap_abs root = fst (map_run sha ty ops Map.empty)"
  using shamap_run_spec [OF SHAMap_new_inv(1) assms] by (simp add: SHAMap_new_inv(2))

definition ex_ops :: "shamap_op list" where
  "ex_ops = [OpAdd \<lparr>si_key = replicate 32 1, si_data = [1]\<rparr>, OpAdd \<lparr>si_key = replicate 32 2, si_data = [2]\<rparr>, OpDel (replicate 32 1)]"

theorem shamap_refines_map_witness:
  "\<exists>root. shamap_run (\<lambda>x. x) TnAccountState ex_ops SHAMap_new = Some (root, [True, True, True]) \<and> shamap_inv TnAccountState root \<and>
    shamap_abs root = [replicate 32 2 \<mapsto> \<lparr>si_key = replicate 32 2, si_data = [2]\<rparr>]"
proof -
  have "list_all op_ok ex_ops" by (simp add: ex_ops_def)
  moreover have "map_run (\<lambda>x. x) TnAccountState ex_ops Map.empty =
    ([replicate 32 2 \<mapsto> \<lparr>si_key = replicate 32 2, si_data = [2]\<rparr>], [True, True, True])"
    by (auto simp: ex_ops_def numeral_eq_Suc)
  ultimately show ?thesis using shamap_refines_map [of ex_ops "\<lambda>x. x" TnAccountState] by simp
qed

text \<open>
  C26: the tree does not depend on the history. Two maps built from new ones by different sequences of
  insertions, deletions and updates, after which \<^verbatim>\<open>peekItem\<close> gives the same answers, are the same
  tree and have the same root hash: deletion merges what insertion split.
\<close>

theorem shamap_history_independent:
  assumes "list_all op_ok ops" and "list_all op_ok ops'"
    and "shamap_run sha ty ops SHAMap_new = Some (r, rs)" and "shamap_run sha ty ops' SHAMap_new = Some (r', rs')"
    and "\<And>k. uint256_ok k \<Longrightarrow> peekItem r k = peekItem r' k"
  shows "r = r' \<and> getHash sha r = getHash sha r'"
proof -
  have inv: "shamap_inv ty r" "shamap_inv ty r'"
    using shamap_run_spec [OF SHAMap_new_inv(1) assms(1), of sha ty] shamap_run_spec [OF SHAMap_new_inv(1) assms(2), of sha ty] assms(3,4)
    by auto
  have "i \<in> set (tree_items r) \<longleftrightarrow> i \<in> set (tree_items r')" for i
  proof (cases "uint256_ok (si_key i)")
    case True
    then show ?thesis using peekItem_spec [OF inv(1), of "si_key i" i] peekItem_spec [OF inv(2), of "si_key i" i] assms(5) by simp
  next
    case False
    then show ?thesis using tree_wf_item [of ty "[]" r i] tree_wf_item [of ty "[]" r' i] inv by (auto simp: shamap_inv_def)
  qed
  then have "r = r'" using shamap_canonical [OF inv] by blast
  then show ?thesis by simp
qed

definition ex_single :: tree where
  "ex_single = SInner (setChild 0 (Some (SLeaf TnAccountState \<lparr>si_key = replicate 32 2, si_data = [2]\<rparr>)) empty_inner)"

theorem shamap_history_independent_witness:
  "\<exists>r rs r' rs'. shamap_run (\<lambda>x. x) TnAccountState ex_ops SHAMap_new = Some (r, rs) \<and>
    shamap_run (\<lambda>x. x) TnAccountState [OpAdd \<lparr>si_key = replicate 32 2, si_data = [2]\<rparr>] SHAMap_new = Some (r', rs') \<and>
    r = r' \<and> getHash (\<lambda>x. x) r = getHash (\<lambda>x. x) r'"
proof -
  have a: "shamap_run (\<lambda>x. x) TnAccountState ex_ops SHAMap_new = Some (ex_single, [True, True, True])"
    "shamap_run (\<lambda>x. x) TnAccountState [OpAdd \<lparr>si_key = replicate 32 2, si_data = [2]\<rparr>] SHAMap_new = Some (ex_single, [True])"
    by code_simp+
  have "list_all op_ok ex_ops" "list_all op_ok [OpAdd \<lparr>si_key = replicate 32 2, si_data = [2]\<rparr>]" by (simp_all add: ex_ops_def)
  from shamap_history_independent [OF this a] a show ?thesis by blast
qed

end
