(* ===== verification/SHAMap_Hash.thy ===== *)
theory SHAMap_Hash
  imports SHAMap_Correct
begin

text \<open>
  The root hash of a SHAMap as a commitment to its items: every node is hashed over an encoding that
  determines it, so two maps with one root hash have the same items unless the digest collides on the
  encodings of their nodes or maps one of them to zero, the hash that stands for an empty branch.
\<close>

section \<open>Nodes and their encodings\<close>

definition items_ok :: "digest \<Rightarrow> SHAMapNodeType \<Rightarrow> tree \<Rightarrow> bool" where
  "items_ok sha ty t \<longleftrightarrow> list_all (\<lambda>i. flat_ok sha (FLeaf ty i)) (tree_items t)"

fun preimages :: "digest \<Rightarrow> tree \<Rightarrow> byte list list" where
  "preimages sha (SLeaf t i) = [leaf_serializeWithPrefix t i]"
| "preimages sha (SInner cs) =
     (if list_all (\<lambda>c. c = None) cs then [] else [serializeWithPrefix (flatten sha (SInner cs))]) @
     concat (map (case_option [] (preimages sha)) cs)"

lemma preimages_child: "child cs b = Some c \<Longrightarrow> set (preimages sha c) \<subseteq> set (preimages sha (SInner cs))"
  by (force simp: child_def split: if_splits dest: nth_mem)

declare preimages.simps(2) [simp del]

lemma items_ok_child: "items_ok sha ty (SInner cs) \<Longrightarrow> child cs b = Some c \<Longrightarrow> items_ok sha ty c"
  by (auto simp: items_ok_def list_all_iff item_in_Inner)

lemma bit_fold_or:
  "bit (fold (\<lambda>i w. if f i then w OR push_bit i 1 else w) js (w :: 16 word)) j \<longleftrightarrow> bit w j \<or> j < 16 \<and> j \<in> set js \<and> f j"
proof (induction js arbitrary: w)
  case (Cons i xs)
  have "bit (push_bit i (1 :: 16 word)) j \<longleftrightarrow> j < 16 \<and> j = i" by (auto simp: bit_simps)
  then show ?case using Cons by (auto simp: bit_or_iff simp del: push_bit_of_1)
qed simp

lemma inner_of_simps:
  assumes "length hs = 16"
  shows "bit (in_isBranch (inner_of hs)) j \<longleftrightarrow> j < 16 \<and> hs ! j \<noteq> None"
    "in_hashes (inner_of hs) = map (case_option zero256 (\<lambda>h. h)) hs"
  unfolding inner_of_def using assms by (auto simp: bit_fold_or simp del: push_bit_of_1)

lemma inner_of_empty: "length hs = 16 \<Longrightarrow> in_isBranch (inner_of hs) = 0 \<longleftrightarrow> list_all (\<lambda>h. h = None) hs"
  by (subst bit_eq_iff) (auto simp: inner_of_simps list_all_length)

lemma no_children: "list_all (\<lambda>c. c = None) cs \<Longrightarrow> tree_items (SInner cs) = []"
  by (auto simp: tree_items.simps list_all_iff)

lemma tree_hash_sha:
  assumes "tree_wf ty P t" "tree_items t \<noteq> []"
  shows "tree_hash sha t = sha (serializeWithPrefix (flatten sha t)) \<and> serializeWithPrefix (flatten sha t) \<in> set (preimages sha t)"
proof (cases t)
  case (SInner cs)
  have l: "length cs = 16" using assms SInner by (simp add: tree_wf_Inner)
  have ne: "\<not> list_all (\<lambda>c. c = None) cs" using assms(2) SInner no_children by blast
  then have "\<not> list_all (\<lambda>h. h = None) (map (map_option (tree_hash sha)) cs)" by (auto simp: list_all_iff)
  then show ?thesis using ne inner_of_empty [of "map (map_option (tree_hash sha)) cs"] l SInner
    by (simp add: inner_updateHash_def inner_serializeWithPrefix_def preimages.simps)
next
  case (SLeaf t' i)
  then show ?thesis by (cases t') simp_all
qed

lemma tree_hash_ok: "(\<And>x. uint256_ok (sha x)) \<Longrightarrow> uint256_ok (tree_hash sha t)"
proof (cases t)
  case (SLeaf t' i)
  then show "(\<And>x. uint256_ok (sha x)) \<Longrightarrow> ?thesis" by (cases t') simp_all
qed (simp add: inner_updateHash_def)

lemma flatten_ok:
  assumes w: "tree_wf ty P t" "tree_items t \<noteq> []" and i: "items_ok sha ty t" and sha: "\<And>x. uint256_ok (sha x)"
    and nz: "\<And>x. x \<in> set (preimages sha t) \<Longrightarrow> sha x \<noteq> zero256"
  shows "flat_ok sha (flatten sha t)"
proof (cases t)
  case (SInner cs)
  have l: "length cs = 16" using w SInner by (simp add: tree_wf_Inner)
  have z: "tree_hash sha c \<noteq> zero256" if "child cs b = Some c" for b c
  proof -
    have "tree_wf ty (P @ [b]) c" "tree_items c \<noteq> []" using tree_wf_child [of ty P cs b c] w SInner that compact_items by auto
    from tree_hash_sha [OF this, of sha] show ?thesis using nz preimages_child [OF that, of sha] SInner by auto
  qed
  have "inner_ok (inner_of (map (map_option (tree_hash sha)) cs))"
    unfolding inner_ok_def
  proof (intro conjI allI impI)
    show "list_all uint256_ok (in_hashes (inner_of (map (map_option (tree_hash sha)) cs)))"
      using l tree_hash_ok [OF sha] by (auto simp: inner_of_simps list_all_iff split: option.splits)
    fix b :: nat assume b: "b < 16"
    show "bit (in_isBranch (inner_of (map (map_option (tree_hash sha)) cs))) b \<longleftrightarrow>
      in_hashes (inner_of (map (map_option (tree_hash sha)) cs)) ! b \<noteq> zero256"
      using z [of b] b l by (cases "cs ! b") (auto simp: inner_of_simps child_def)
  qed (use l in \<open>simp add: inner_of_simps\<close>)
  moreover have "\<not> list_all (\<lambda>h. h = None) (map (map_option (tree_hash sha)) cs)"
    using w(2) SInner no_children [of cs] by (fastforce simp: list_all_iff)
  ultimately show ?thesis using SInner inner_of_empty [of "map (map_option (tree_hash sha)) cs"] l by simp
next
  case (SLeaf t' j)
  then show ?thesis using w i by (simp add: items_ok_def)
qed

section \<open>One hash, one set of items\<close>

definition collision :: "digest \<Rightarrow> byte list list \<Rightarrow> byte list list \<Rightarrow> bool" where
  "collision sha xs ys \<longleftrightarrow> list_ex (\<lambda>x. list_ex (\<lambda>y. x \<noteq> y \<and> sha x = sha y) ys) xs"

lemma collision_mono: "collision sha xs ys \<Longrightarrow> set xs \<subseteq> set xs' \<Longrightarrow> set ys \<subseteq> set ys' \<Longrightarrow> collision sha xs' ys'"
  by (force simp: collision_def list_ex_iff)

lemma tree_hash_binding:
  assumes sha: "\<And>x. uint256_ok (sha x)"
  shows "tree_wf ty P t \<Longrightarrow> tree_wf ty P t' \<Longrightarrow> tree_items t \<noteq> [] \<Longrightarrow> tree_items t' \<noteq> [] \<Longrightarrow>
    items_ok sha ty t \<Longrightarrow> items_ok sha ty t' \<Longrightarrow>
    (\<And>x. x \<in> set (preimages sha t) \<union> set (preimages sha t') \<Longrightarrow> sha x \<noteq> zero256) \<Longrightarrow>
    tree_hash sha t = tree_hash sha t' \<Longrightarrow> \<not> collision sha (preimages sha t) (preimages sha t') \<Longrightarrow> t = t'"
proof (induction t arbitrary: P t')
  case (SLeaf s i)
  have "flatten sha (SLeaf s i) = flatten sha t'"
    using serializeWithPrefix_inj [OF flatten_ok [OF SLeaf.prems(1,3,5) sha] flatten_ok [OF SLeaf.prems(2,4,6) sha]]
      tree_hash_sha [OF SLeaf.prems(1,3), of sha] tree_hash_sha [OF SLeaf.prems(2,4), of sha] SLeaf.prems(7-9)
    by (force simp: collision_def list_ex_iff)
  then show ?case by (cases t') auto
next
  case (SInner cs)
  have "flatten sha (SInner cs) = flatten sha t'"
    using serializeWithPrefix_inj [OF flatten_ok [OF SInner.prems(1,3,5) sha] flatten_ok [OF SInner.prems(2,4,6) sha]]
      tree_hash_sha [OF SInner.prems(1,3), of sha] tree_hash_sha [OF SInner.prems(2,4), of sha] SInner.prems(7-9)
    by (force simp: collision_def list_ex_iff)
  then obtain cs' where t': "t' = SInner cs'" and eq: "inner_of (map (map_option (tree_hash sha)) cs) = inner_of (map (map_option (tree_hash sha)) cs')"
    by (cases t') auto
  have l: "length cs = 16" "length cs' = 16" using SInner.prems(1,2) t' by (simp_all add: tree_wf_Inner)
  have "cs ! b = cs' ! b" if b: "b < 16" for b
  proof -
    have n: "cs ! b = None \<longleftrightarrow> cs' ! b = None"
      using arg_cong [OF eq, of "\<lambda>n. bit (in_isBranch n) b"] l b by (cases "cs ! b"; cases "cs' ! b"; simp add: inner_of_simps)
    have h: "case_option zero256 (\<lambda>h. h) (map_option (tree_hash sha) (cs ! b)) = case_option zero256 (\<lambda>h. h) (map_option (tree_hash sha) (cs' ! b))"
      using arg_cong [OF eq, of "\<lambda>n. in_hashes n ! b"] l b by (simp add: inner_of_simps)
    show ?thesis
    proof (cases "cs ! b")
      case (Some c)
      then obtain c' where "cs' ! b = Some c'" using n by (cases "cs' ! b") auto
      then have c: "child cs b = Some c" "child cs' b = Some c'" using Some l b by (simp_all add: child_def)
      note w = tree_wf_child [OF SInner.prems(1) c(1)] tree_wf_child [OF SInner.prems(2) [unfolded t'] c(2)]
      have "c = c'"
      proof (rule SInner.IH [OF child_mem [OF c(1)]])
        show "\<not> collision sha (preimages sha c) (preimages sha c')"
          using collision_mono [OF _ preimages_child [OF c(1)] preimages_child [OF c(2)]] SInner.prems(9) t' by auto
        show "sha x \<noteq> zero256" if "x \<in> set (preimages sha c) \<union> set (preimages sha c')" for x
          using SInner.prems(7) [of x] that preimages_child [OF c(1), of sha] preimages_child [OF c(2), of sha] t' by blast
        show "items_ok sha ty c" "items_ok sha ty c'"
          using items_ok_child [OF SInner.prems(5) c(1)] items_ok_child [OF SInner.prems(6) [unfolded t'] c(2)] by simp_all
        show "tree_hash sha c = tree_hash sha c'" using h Some \<open>cs' ! b = Some c'\<close> by simp
      qed (use w compact_items in auto)
      then show ?thesis using Some \<open>cs' ! b = Some c'\<close> by simp
    qed (use n in simp)
  qed
  then show ?case using l t' by (auto intro: nth_equalityI)
qed

lemma getHash_empty:
  assumes "shamap_inv ty root"
  shows "tree_items root = [] \<Longrightarrow> getHash sha root = zero256"
    "tree_items root \<noteq> [] \<Longrightarrow> \<exists>x\<in>set (preimages sha root). getHash sha root = sha x"
proof -
  obtain cs where cs: "root = SInner cs" "tree_wf ty [] (SInner cs)" using assms by (cases root) (auto simp: shamap_inv_def)
  show "tree_items root \<noteq> [] \<Longrightarrow> \<exists>x\<in>set (preimages sha root). getHash sha root = sha x"
    using tree_hash_sha [OF cs(2), of sha] cs(1) by (auto simp: getHash_def)
  assume "tree_items root = []"
  moreover have "tree_items c \<noteq> []" if "child cs b = Some c" for b c using tree_wf_child [OF cs(2) that] compact_items by blast
  ultimately have "child cs b = None" for b
    using cs(1) item_in_Inner [of _ cs] by (cases "child cs b") (auto simp: neq_Nil_conv, metis list.set_intros(1))
  then have "list_all (\<lambda>h. h = None) (map (map_option (tree_hash sha)) cs)"
    by (auto simp: list_all_length child_def) (metis option.distinct(1))
  then show "getHash sha root = zero256"
    using inner_of_empty [of "map (map_option (tree_hash sha)) cs"] cs by (simp add: getHash_def tree_wf_Inner inner_updateHash_def)
qed

lemma root_hash_commits_lemma:
  assumes sha: "\<And>x. uint256_ok (sha x)"
    and r: "shamap_inv ty r" "items_ok sha ty r" and r': "shamap_inv ty r'" "items_ok sha ty r'"
    and col: "\<not> collision sha (preimages sha r) (preimages sha r')"
    and nz: "list_all (\<lambda>x. sha x \<noteq> zero256) (preimages sha r @ preimages sha r')"
  shows "getHash sha r = getHash sha r' \<longleftrightarrow> set (tree_items r) = set (tree_items r')"
proof
  assume h: "getHash sha r = getHash sha r'"
  have nz: "sha x \<noteq> zero256" if "x \<in> set (preimages sha r) \<union> set (preimages sha r')" for x using nz that by (auto simp: list_all_iff)
  show "set (tree_items r) = set (tree_items r')"
  proof (cases "tree_items r = [] \<or> tree_items r' = []")
    case True
    then show ?thesis using getHash_empty [OF r(1), of sha] getHash_empty [OF r'(1), of sha] h nz by fastforce
  next
    case False
    then have "r = r'"
      using tree_hash_binding [OF sha, of ty "[]" r r'] r r' nz h col by (simp add: shamap_inv_def getHash_def)
    then show ?thesis by simp
  qed
next
  assume "set (tree_items r) = set (tree_items r')"
  then show "getHash sha r = getHash sha r'" using shamap_canonical [OF r(1) r'(1)] by simp
qed

text \<open>
  C7: the root hash commits to the contents. For two maps of one leaf type whose items are well formed
  (the key of a transaction is its digest, account state keys are not zero, no item is shorter than
  the parser's minimum), \<^verbatim>\<open>SHAMap::getHash\<close> is the same exactly when the maps hold the same
  items, except when the digest collides on the encodings of a node of the one and a node of the
  other, or maps the encoding of one of their nodes to zero.
\<close>

theorem root_hash_commits:
  assumes sha: "\<And>x. uint256_ok (sha x)"
    and r: "shamap_inv ty r" "items_ok sha ty r" and r': "shamap_inv ty r'" "items_ok sha ty r'"
    and col: "\<not> collision sha (preimages sha r) (preimages sha r')"
    and nz: "list_all (\<lambda>x. sha x \<noteq> zero256) (preimages sha r @ preimages sha r')"
  shows "getHash sha r = getHash sha r' \<longleftrightarrow> set (tree_items r) = set (tree_items r')"
  using root_hash_commits_lemma [OF sha r r' col nz] .

definition ex_item :: "byte \<Rightarrow> shamap_item" where
  "ex_item b = \<lparr>si_key = replicate 32 b, si_data = replicate 12 b\<rparr>"

definition ex_map :: "byte list \<Rightarrow> tree" where
  "ex_map bs = foldl (\<lambda>t b. case addGiveItem TnAccountState (ex_item b) t of Some (t', _) \<Rightarrow> t' | None \<Rightarrow> t) SHAMap_new bs"

definition ex_sha :: digest where
  "ex_sha x = replicate 32 (x ! 2 + x ! 20 + x ! 40)"

lemma ex_map_facts:
  "shamap_inv TnAccountState (ex_map [1])" "shamap_inv TnAccountState (ex_map [1, 0x11])"
  "items_ok ex_sha TnAccountState (ex_map [1])" "items_ok ex_sha TnAccountState (ex_map [1, 0x11])"
  "\<not> collision ex_sha (preimages ex_sha (ex_map [1])) (preimages ex_sha (ex_map [1, 0x11]))"
  "list_all (\<lambda>x. ex_sha x \<noteq> zero256) (preimages ex_sha (ex_map [1]) @ preimages ex_sha (ex_map [1, 0x11]))"
  "set (tree_items (ex_map [1])) \<noteq> set (tree_items (ex_map [1, 0x11]))"
  by code_simp+

theorem root_hash_commits_witness: "getHash ex_sha (ex_map [1]) \<noteq> getHash ex_sha (ex_map [1, 0x11])"
proof -
  have "\<And>x. uint256_ok (ex_sha x)" by (simp add: ex_sha_def)
  from root_hash_commits [OF this ex_map_facts(1,3,2,4,5,6)] ex_map_facts(7) show ?thesis by simp
qed

end
