(* ===== verification/SHAMapDelta.thy ===== *)
theory SHAMapDelta
  imports SHAMap_Hash
begin

text \<open>
  The comparison of two maps, \<^verbatim>\<open>SHAMapDelta.cpp\<close>: \<open>compare\<close> walks both trees together, skips the
  branches with equal hashes and stops at a limit. The table of differences is the list of its
  entries in the order of the keys. The two loops work on explicit stacks, as in the code.
\<close>

section \<open>The table of differences\<close>

type_synonym delta_ref = "shamap_item option \<times> shamap_item option"

type_synonym delta = "(uint256 \<times> delta_ref) list"

fun delta_insert :: "uint256 \<times> delta_ref \<Rightarrow> delta \<Rightarrow> delta" where
  "delta_insert e [] = [e]"
| "delta_insert e (e' # es) =
     (if fst e = fst e' then e' # es
      else if uint256_less (fst e) (fst e') then e # e' # es
      else e' # delta_insert e es)"

definition unmatched :: "bool \<Rightarrow> shamap_item \<Rightarrow> uint256 \<times> delta_ref" where
  "unmatched isFirstMap item = (si_key item, if isFirstMap then (Some item, None) else (None, Some item))"

definition changed :: "bool \<Rightarrow> shamap_item \<Rightarrow> shamap_item \<Rightarrow> uint256 \<times> delta_ref" where
  "changed isFirstMap item other = (si_key item, if isFirstMap then (Some item, Some other) else (Some other, Some item))"

section \<open>A branch against one item or none\<close>

lemma branches_sizes: "sum_list (map (\<lambda>t. Suc (size t)) (branches cs)) \<le> size_list (size_option size) cs"
  by (induction cs) (auto simp: branches_def List.map_filter_def split: option.splits)

function walk_branch_loop ::
  "shamap_item option \<Rightarrow> bool \<Rightarrow> tree list \<Rightarrow> bool \<Rightarrow> delta \<Rightarrow> int \<Rightarrow> bool \<times> bool \<times> delta \<times> int" where
  "walk_branch_loop other isFirstMap [] emptyBranch differences maxCount = (True, emptyBranch, differences, maxCount)"
| "walk_branch_loop other isFirstMap (SInner cs # nodeStack) emptyBranch differences maxCount =
     walk_branch_loop other isFirstMap (rev (branches cs) @ nodeStack) emptyBranch differences maxCount"
| "walk_branch_loop other isFirstMap (SLeaf t item # nodeStack) emptyBranch differences maxCount =
     (case other of
        Some o' \<Rightarrow>
          if emptyBranch \<or> si_key item \<noteq> si_key o'
          then let d = delta_insert (unmatched isFirstMap item) differences; m = maxCount - 1
               in if m \<le> 0 then (False, emptyBranch, d, m) else walk_branch_loop other isFirstMap nodeStack emptyBranch d m
          else if si_data item \<noteq> si_data o'
          then let d = delta_insert (changed isFirstMap item o') differences; m = maxCount - 1
               in if m \<le> 0 then (False, emptyBranch, d, m) else walk_branch_loop other isFirstMap nodeStack True d m
          else walk_branch_loop other isFirstMap nodeStack True differences maxCount
      | None \<Rightarrow>
          let d = delta_insert (unmatched isFirstMap item) differences; m = maxCount - 1
          in if m \<le> 0 then (False, emptyBranch, d, m) else walk_branch_loop other isFirstMap nodeStack emptyBranch d m)"
  by pat_completeness auto
termination
proof (relation "measure (\<lambda>(_, _, st, _). sum_list (map (\<lambda>t. Suc (size t)) st))", goal_cases)
  case (2 other isFirstMap cs nodeStack emptyBranch differences maxCount)
  then show ?case using branches_sizes [of cs] by (simp add: rev_map [symmetric])
qed simp_all

definition walkBranch :: "tree \<Rightarrow> shamap_item option \<Rightarrow> bool \<Rightarrow> delta \<Rightarrow> int \<Rightarrow> bool \<times> delta \<times> int" where
  "walkBranch node otherMapItem isFirstMap differences maxCount =
     (case walk_branch_loop otherMapItem isFirstMap [node] (otherMapItem = None) differences maxCount of
        (ok, emptyBranch, d, m) \<Rightarrow>
          if \<not> ok then (False, d, m)
          else case otherMapItem of
            Some o' \<Rightarrow>
              if \<not> emptyBranch
              then let d' = delta_insert (unmatched (\<not> isFirstMap) o') d; m' = m - 1
                   in if m' \<le> 0 then (False, d', m') else (True, d', m')
              else (True, d, m)
          | None \<Rightarrow> (True, d, m))"

section \<open>Two maps\<close>

definition child_hash :: "digest \<Rightarrow> tree option \<Rightarrow> uint256" where
  "child_hash sha c = (case c of None \<Rightarrow> zero256 | Some t \<Rightarrow> tree_hash sha t)"

fun compare_branches ::
  "digest \<Rightarrow> tree option list \<Rightarrow> tree option list \<Rightarrow> nat list \<Rightarrow> (tree \<times> tree) list \<Rightarrow> delta \<Rightarrow> int \<Rightarrow>
    bool \<times> (tree \<times> tree) list \<times> delta \<times> int" where
  "compare_branches sha cs cs' [] nodeStack differences maxCount = (True, nodeStack, differences, maxCount)"
| "compare_branches sha cs cs' (i # js) nodeStack differences maxCount =
     (if child_hash sha (child cs i) \<noteq> child_hash sha (child cs' i)
      then (case (child cs i, child cs' i) of
              (Some ours, None) \<Rightarrow>
                (case walkBranch ours None True differences maxCount of
                   (ok, d, m) \<Rightarrow> if ok then compare_branches sha cs cs' js nodeStack d m else (False, nodeStack, d, m))
            | (None, Some other) \<Rightarrow>
                (case walkBranch other None False differences maxCount of
                   (ok, d, m) \<Rightarrow> if ok then compare_branches sha cs cs' js nodeStack d m else (False, nodeStack, d, m))
            | (Some ours, Some other) \<Rightarrow> compare_branches sha cs cs' js ((ours, other) # nodeStack) differences maxCount
            | (None, None) \<Rightarrow> compare_branches sha cs cs' js nodeStack differences maxCount)
      else compare_branches sha cs cs' js nodeStack differences maxCount)"

definition tree_weight :: "tree option \<Rightarrow> nat" where
  "tree_weight c = (case c of None \<Rightarrow> 0 | Some t \<Rightarrow> Suc (size t))"

lemma compare_branches_weight:
  "compare_branches sha cs cs' bs st d m = (ok, st', d', m') \<Longrightarrow>
   sum_list (map (\<lambda>(a, b). Suc (size a)) st') \<le>
   sum_list (map (\<lambda>(a, b). Suc (size a)) st) + sum_list (map (\<lambda>i. tree_weight (child cs i)) bs)"
proof (induction bs arbitrary: st d m)
  case (Cons i bs)
  then show ?case by (fastforce simp: tree_weight_def split: if_splits option.splits prod.splits)
qed simp

lemma children_weight: "sum_list (map (\<lambda>i. tree_weight (child cs i)) [0..<n]) \<le> size_list (size_option size) cs"
proof -
  have "sum_list (map (\<lambda>i. tree_weight (child cs i)) [0..<n]) = (\<Sum>i\<in>{..<n}. tree_weight (child cs i))"
    by (simp add: interv_sum_list_conv_sum_set_nat atLeast0LessThan)
  also have "\<dots> = (\<Sum>i\<in>{..<n} \<inter> {..<length cs}. tree_weight (child cs i))"
    by (rule sum.mono_neutral_right) (auto simp: child_def tree_weight_def)
  also have "\<dots> \<le> (\<Sum>i\<in>{..<length cs}. tree_weight (child cs i))" by (rule sum_mono2) auto
  also have "\<dots> = (\<Sum>i\<in>{0..<length cs}. tree_weight (cs ! i))" by (simp add: child_def atLeast0LessThan)
  also have "\<dots> = sum_list (map tree_weight cs)" by (simp add: sum_list_sum_nth)
  also have "\<dots> \<le> size_list (size_option size) cs" by (induction cs) (auto simp: tree_weight_def split: option.splits)
  finally show ?thesis .
qed

function compare_loop :: "digest \<Rightarrow> (tree \<times> tree) list \<Rightarrow> delta \<Rightarrow> int \<Rightarrow> bool \<times> delta \<times> int" where
  "compare_loop sha [] differences maxCount = (True, differences, maxCount)"
| "compare_loop sha ((SLeaf t ours, SLeaf t' other) # nodeStack) differences maxCount =
     (if si_key ours = si_key other
      then if si_data ours \<noteq> si_data other
           then let d = delta_insert (changed True ours other) differences; m = maxCount - 1
                in if m \<le> 0 then (False, d, m) else compare_loop sha nodeStack d m
           else compare_loop sha nodeStack differences maxCount
      else
        let d = delta_insert (unmatched True ours) differences; m = maxCount - 1
        in if m \<le> 0 then (False, d, m)
           else
             let d' = delta_insert (unmatched False other) d; m' = m - 1
             in if m' \<le> 0 then (False, d', m') else compare_loop sha nodeStack d' m')"
| "compare_loop sha ((SInner cs, SLeaf t' other) # nodeStack) differences maxCount =
     (case walkBranch (SInner cs) (Some other) True differences maxCount of
        (ok, d, m) \<Rightarrow> if ok then compare_loop sha nodeStack d m else (False, d, m))"
| "compare_loop sha ((SLeaf t ours, SInner cs') # nodeStack) differences maxCount =
     (case walkBranch (SInner cs') (Some ours) False differences maxCount of
        (ok, d, m) \<Rightarrow> if ok then compare_loop sha nodeStack d m else (False, d, m))"
| "compare_loop sha ((SInner cs, SInner cs') # nodeStack) differences maxCount =
     (case compare_branches sha cs cs' [0..<16] nodeStack differences maxCount of
        (ok, nodeStack', d, m) \<Rightarrow> if ok then compare_loop sha nodeStack' d m else (False, d, m))"
  by pat_completeness auto
termination
proof (relation "measure (\<lambda>(_, st, _). sum_list (map (\<lambda>(a, b). Suc (size a)) st))", goal_cases)
  case (7 sha cs cs' nodeStack differences maxCount ok q nodeStack' q' d m)
  then have "compare_branches sha cs cs' [0..<16] nodeStack differences maxCount = (ok, nodeStack', d, m)" by simp
  from compare_branches_weight [OF this] show ?case using children_weight [of cs 16] by (simp del: upt_rec_numeral)
qed simp_all

definition compare :: "digest \<Rightarrow> tree \<Rightarrow> tree \<Rightarrow> delta \<Rightarrow> int \<Rightarrow> bool \<times> delta" where
  "compare sha root otherRoot differences maxCount =
     (if getHash sha root = getHash sha otherRoot then (True, differences)
      else case compare_loop sha [(root, otherRoot)] differences maxCount of (ok, d, m) \<Rightarrow> (ok, d))"

end
