(* ===== verification/SHAMap_Order.thy ===== *)
theory SHAMap_Order
  imports SHAMap_Correct
begin

text \<open>
  The order of the items of a SHAMap: an in-order traversal of the tree is the order of the keys, so
  iteration visits the items by increasing key, and the bounds are the nearest items on each side.
\<close>

section \<open>The order of keys\<close>

lemma uint256_less_irrefl [simp]: "\<not> uint256_less k k"
  by (induction k) auto

lemma uint256_less_trans: "uint256_less k l \<Longrightarrow> uint256_less l m \<Longrightarrow> uint256_less k m"
proof (induction k l arbitrary: m rule: uint256_less.induct)
  case (1 a as b bs)
  then show ?case by (cases m) auto
qed auto

lemma uint256_less_asym: "uint256_less k l \<Longrightarrow> \<not> uint256_less l k"
  using uint256_less_trans uint256_less_irrefl by blast

lemma uint256_less_linear: "length k = length l \<Longrightarrow> uint256_less k l \<or> k = l \<or> uint256_less l k"
  by (induction k l rule: list_induct2) auto

lemma uint256_less_nth: "length k = length l \<Longrightarrow> j < length k \<Longrightarrow> take j k = take j l \<Longrightarrow> k ! j < l ! j \<Longrightarrow> uint256_less k l"
proof (induction k l arbitrary: j rule: list_induct2)
  case (Cons a k b l)
  then show ?case by (cases j) auto
qed simp

lemma byte_split: "unat (b :: byte) = 16 * unat (drop_bit 4 b) + unat (b AND 0xF)"
proof -
  have "(0xF :: byte) = mask 4" by (simp add: mask_eq_exp_minus_1)
  then have "b AND 0xF = take_bit 4 b" by (simp only: take_bit_eq_mask)
  then have "unat (b AND 0xF) = unat b mod 16" by (simp add: unsigned_take_bit_eq) (simp add: take_bit_eq_mod)
  moreover have "unat (drop_bit 4 b) = unat b div 16" unfolding unat_drop_bit_eq by (simp add: drop_bit_eq_div)
  ultimately show ?thesis by simp
qed

lemma nibble_less_key:
  assumes ok: "uint256_ok k" "uint256_ok l" and d: "d < 64" "take d (nibbles k) = take d (nibbles l)" "nibble k d < nibble l d"
  shows "uint256_less k l"
proof (rule uint256_less_nth)
  have nib: "nibble k e = nibble l e" if "e < d" for e
    using arg_cong [OF d(2), of "\<lambda>xs. xs ! e"] that d(1) by (simp add: nibbles_nth)
  show "length k = length l" "d div 2 < length k" using ok d(1) by auto
  have "k ! j = l ! j" if "j < d div 2" for j
  proof -
    have "nibble k (2 * j) = nibble l (2 * j)" "nibble k (Suc (2 * j)) = nibble l (Suc (2 * j))" using that by (auto intro!: nib)
    then show ?thesis by (subst byte_nibbles) (simp add: nibble_def unsigned_word_eqI)
  qed
  then show "take (d div 2) k = take (d div 2) l" using ok d(1) by (intro nth_equalityI) auto
  show "k ! (d div 2) < l ! (d div 2)"
  proof (cases "even d")
    case True
    then have "unat (drop_bit 4 (k ! (d div 2))) < unat (drop_bit 4 (l ! (d div 2)))" using d(3) by (simp add: nibble_def)
    then show ?thesis
      unfolding word_less_nat_alt byte_split [of "k ! (d div 2)"] byte_split [of "l ! (d div 2)"]
      using byte_and_15 [of "k ! (d div 2)"] byte_and_15 [of "l ! (d div 2)"] by linarith
  next
    case False
    then obtain m where m: "d = 2 * m + 1" by (rule oddE)
    then have "nibble k (2 * m) = nibble l (2 * m)" by (intro nib) simp
    then have "drop_bit 4 (k ! (d div 2)) = drop_bit 4 (l ! (d div 2))" by (simp add: m nibble_def unsigned_word_eqI)
    moreover have "unat (k ! (d div 2) AND 0xF) < unat (l ! (d div 2) AND 0xF)" using False d(3) by (simp add: nibble_def)
    ultimately show ?thesis
      unfolding word_less_nat_alt byte_split [of "k ! (d div 2)"] byte_split [of "l ! (d div 2)"] by simp
  qed
qed

text \<open>The items of the branches of a node, against a key with the prefix of the node.\<close>

lemma branch_order:
  assumes "tree_wf ty P (SInner cs)" "uint256_ok k" "P = take (length P) (nibbles k)" "i \<in> set (tree_items (SInner cs))"
  shows "nibble (si_key i) (length P) < nibble k (length P) \<Longrightarrow> uint256_less (si_key i) k"
    "nibble k (length P) < nibble (si_key i) (length P) \<Longrightarrow> uint256_less k (si_key i)"
proof -
  have d: "length P < 64" using assms(1) by (simp add: tree_wf_Inner)
  have "uint256_ok (si_key i)" "take (length P) (nibbles (si_key i)) = take (length P) (nibbles k)"
    using tree_wf_item [OF assms(1,4)] assms(3) by simp_all
  then show "nibble (si_key i) (length P) < nibble k (length P) \<Longrightarrow> uint256_less (si_key i) k"
    "nibble k (length P) < nibble (si_key i) (length P) \<Longrightarrow> uint256_less k (si_key i)"
    using nibble_less_key assms(2) d by metis+
qed

section \<open>Traversal\<close>

fun edge :: "BelowDirection \<Rightarrow> 'a list \<Rightarrow> 'a option" where
  "edge First xs = (case xs of [] \<Rightarrow> None | x # _ \<Rightarrow> Some x)"
| "edge Last xs = (case rev xs of [] \<Rightarrow> None | x # _ \<Rightarrow> Some x)"

lemma edge_Last: "edge Last xs = edge First (rev xs)"
  by simp

lemma edge_None: "edge dir xs = None \<longleftrightarrow> xs = []" "None = edge dir xs \<longleftrightarrow> xs = []"
  by (cases dir; auto split: list.splits)+

lemma edge_Nil [simp]: "edge dir [] = None"
  by (simp add: edge_None)

lemma edge_mem: "edge dir xs = Some x \<Longrightarrow> x \<in> set xs"
  by (cases dir) (auto split: list.splits simp: rev_eq_Cons_iff)

lemma edge_append:
  "edge First (xs @ ys) = (if xs = [] then edge First ys else edge First xs)"
  "edge Last (xs @ ys) = (if ys = [] then edge Last xs else edge Last ys)"
  by (auto split: list.splits simp: rev_eq_Cons_iff Cons_eq_append_conv append_eq_Cons_conv)

definition dir_list :: "BelowDirection \<Rightarrow> 'a list \<Rightarrow> 'a list" where
  "dir_list dir xs = (case dir of First \<Rightarrow> xs | Last \<Rightarrow> rev xs)"

definition branch_items :: "tree option list \<Rightarrow> nat \<Rightarrow> shamap_item list" where
  "branch_items cs b = case_option [] tree_items (child cs b)"

lemma branch_items_mem: "i \<in> set (branch_items cs b) \<longleftrightarrow> (\<exists>c. child cs b = Some c \<and> i \<in> set (tree_items c))"
  by (cases "child cs b") (simp_all add: branch_items_def)

lemma items_as_branches:
  assumes "length cs = 16"
  shows "tree_items (SInner cs) = concat (map (branch_items cs) [0..<16])"
proof -
  have "map (case_option [] tree_items) cs = map (branch_items cs) [0..<16]"
    using assms by (intro nth_equalityI) (auto simp: branch_items_def child_def)
  then show ?thesis by (simp only: tree_items.simps)
qed

lemma first_branch_edge_First:
  "(\<And>b c. child cs b = Some c \<Longrightarrow> g c \<noteq> []) \<Longrightarrow>
   edge First (concat (map (\<lambda>b. case_option [] g (child cs b)) bs)) =
   (case first_branch bs cs of None \<Rightarrow> None | Some (b, c) \<Rightarrow> edge First (g c))"
proof (induction bs)
  case (Cons b bs)
  then show ?case
    by (cases "child cs b") (simp_all add: first_branch_def edge_append del: edge.simps)
qed (simp add: first_branch_def)

lemma first_branch_edge:
  assumes "tree_wf ty P (SInner cs)"
  shows "edge dir (concat (map (branch_items cs) bs)) =
    (case first_branch (dir_list dir bs) cs of None \<Rightarrow> None | Some (b, c) \<Rightarrow> edge dir (tree_items c))"
proof -
  have ne: "child cs b = Some c \<Longrightarrow> tree_items c \<noteq> []" for b c using tree_wf_child [OF assms] compact_items by blast
  have bi: "branch_items cs = (\<lambda>b. case_option [] tree_items (child cs b))" by (simp add: fun_eq_iff branch_items_def)
  show ?thesis
  proof (cases dir)
    case First
    show ?thesis unfolding bi First using first_branch_edge_First [of cs tree_items bs] ne
      by (simp add: dir_list_def del: edge.simps)
  next
    case Last
    have "rev (concat (map (branch_items cs) bs)) = concat (map (\<lambda>b. case_option [] (rev \<circ> tree_items) (child cs b)) (rev bs))"
      by (auto simp: rev_concat rev_map comp_def bi intro!: arg_cong [where f = concat] split: option.splits)
    then show ?thesis unfolding Last edge_Last using first_branch_edge_First [of cs "rev \<circ> tree_items" "rev bs"] ne
      by (simp add: dir_list_def del: edge.simps split: option.splits)
  qed
qed

text \<open>The stack that leads to the end of the walk for a key.\<close>

definition path_to :: "uint256 \<Rightarrow> nat \<Rightarrow> tree \<Rightarrow> path_stack" where
  "path_to k d t = (terminal k d t, createID (d + length (spine k d t)) k) # stack_of k d (spine k d t)"

lemma path_to_Leaf [simp]: "path_to k d (SLeaf t i) = [(SLeaf t i, createID d k)]"
  by (simp add: path_to_def)

lemma path_to_Inner:
  "child cs (nibble k d) = Some c \<Longrightarrow> path_to k d (SInner cs) = path_to k (Suc d) c @ [(SInner cs, createID d k)]"
  "child cs (nibble k d) = None \<Longrightarrow> path_to k d (SInner cs) = [(SInner cs, createID d k)]"
  by (simp_all add: path_to_def)

lemma createID_cong:
  "uint256_ok k \<Longrightarrow> uint256_ok l \<Longrightarrow> d \<le> 64 \<Longrightarrow> take d (nibbles k) = take d (nibbles l) \<Longrightarrow> createID d k = createID d l"
  using maskedToDepth_eq_iff [of k l d] by (simp add: createID_def kLeafDepth_def)

lemma child_key:
  assumes w: "tree_wf ty P (SInner cs)" "child cs b = Some c" "i \<in> set (tree_items c)"
    and k: "uint256_ok k" "P = take d (nibbles k)" "length P = d"
  shows "uint256_ok (si_key i)" "take (Suc d) (nibbles (si_key i)) = P @ [b]"
    "pushChild c b ((SInner cs, createID d k) # st) = Some ((c, createID (Suc d) (si_key i)) # (SInner cs, createID d k) # st)"
    "path_to (si_key i) d (SInner cs) = path_to (si_key i) (Suc d) c @ [(SInner cs, createID d k)]"
proof -
  have d: "d < 64" using w(1) k(3) by (simp add: tree_wf_Inner)
  have "i \<in> set (tree_items (SInner cs))" using w by (auto simp: item_in_Inner)
  then show ok: "uint256_ok (si_key i)" and P: "take (Suc d) (nibbles (si_key i)) = P @ [b]"
    using tree_wf_item [OF w(1)] item_branch [OF w] k(3) d by (auto simp: take_Suc_nibbles)
  then have b: "nibble (si_key i) d = b" "take d (nibbles (si_key i)) = P" using d by (auto simp: take_Suc_nibbles)
  then have "createID d (si_key i) = createID d k" using createID_cong [of "si_key i" k d] ok k d by simp
  then show "pushChild c b ((SInner cs, createID d k) # st) = Some ((c, createID (Suc d) (si_key i)) # (SInner cs, createID d k) # st)"
    "path_to (si_key i) d (SInner cs) = path_to (si_key i) (Suc d) c @ [(SInner cs, createID d k)]"
    using createID_child [OF ok d] b path_to_Inner(1) [of cs "si_key i" d c] w(2) by (simp_all add: pushChild_def)
qed

lemma belowHelper_spec:
  "tree_wf ty P t \<Longrightarrow> tree_items t \<noteq> [] \<Longrightarrow> uint256_ok k \<Longrightarrow> take d (nibbles k) = P \<Longrightarrow> d \<le> 64 \<Longrightarrow>
   \<exists>i. edge dir (tree_items t) = Some i \<and> belowHelper dir t ((t, createID d k) # st) = Some (Some i, path_to (si_key i) d t @ st)"
proof (induction t arbitrary: P k d st)
  case (SLeaf t i)
  then show ?case using createID_cong [of k "si_key i" d] by (cases dir) auto
next
  case (SInner cs)
  have d: "d < 64" and lP: "length P = d" using SInner.prems(1,4,5) by (auto simp: tree_wf_Inner)
  have l: "length cs = 16" using SInner.prems(1) by (simp add: tree_wf_Inner)
  have so: "scan_order dir = dir_list dir [0..<16]" by (simp add: scan_order_def dir_list_def)
  have e: "edge dir (tree_items (SInner cs)) = (case first_branch (scan_order dir) cs of None \<Rightarrow> None | Some (b, c) \<Rightarrow> edge dir (tree_items c))"
    unfolding so items_as_branches [OF l] by (rule first_branch_edge [OF SInner.prems(1)])
  with SInner.prems(2) obtain b c where fb: "first_branch (scan_order dir) cs = Some (b, c)"
    by (auto simp: edge_None split: option.splits)
  then have c: "child cs b = Some c" by (rule first_branch_child)
  have w: "tree_wf ty (P @ [b]) c" "tree_items c \<noteq> []" using tree_wf_child [OF SInner.prems(1) c] compact_items by auto
  then obtain i0 where i0: "i0 \<in> set (tree_items c)" by fastforce
  note key = child_key [OF SInner.prems(1) c _ SInner.prems(3) SInner.prems(4) [symmetric] lP]
  from SInner.IH [OF child_mem [OF c] _ w key(1,2) [OF i0], of "(SInner cs, createID d k) # st"] d
  obtain i where i: "edge dir (tree_items c) = Some i"
    "belowHelper dir c ((c, createID (Suc d) (si_key i0)) # (SInner cs, createID d k) # st) = Some (Some i, path_to (si_key i) (Suc d) c @ (SInner cs, createID d k) # st)"
    by auto
  then show ?case using e fb key(3) [OF i0] key(4) [OF edge_mem [OF i(1)]] by simp
qed

section \<open>The bounds\<close>

definition beyond :: "BelowDirection \<Rightarrow> uint256 \<Rightarrow> shamap_item \<Rightarrow> bool" where
  "beyond dir k i = (case dir of First \<Rightarrow> uint256_less k (si_key i) | Last \<Rightarrow> uint256_less (si_key i) k)"

definition beyond_range :: "BelowDirection \<Rightarrow> nat \<Rightarrow> nat list" where
  "beyond_range dir b = (case dir of First \<Rightarrow> [b + 1..<16] | Last \<Rightarrow> [0..<b])"

lemma branch_items_beyond:
  assumes w: "tree_wf ty P (SInner cs)" and k: "uint256_ok k" "P = take (length P) (nibbles k)" and b: "b \<noteq> nibble k (length P)"
  shows "filter (beyond dir k) (branch_items cs b) = (if (nibble k (length P) < b) = (dir = First) then branch_items cs b else [])"
proof -
  have "beyond dir k i \<longleftrightarrow> (nibble k (length P) < b) = (dir = First)" if "i \<in> set (branch_items cs b)" for i
  proof -
    from that obtain c where c: "child cs b = Some c" "i \<in> set (tree_items c)" by (auto simp: branch_items_mem)
    have "i \<in> set (tree_items (SInner cs))" using c by (auto simp: item_in_Inner)
    note o = branch_order [OF w k this] item_branch [OF w c]
    show ?thesis
    proof (cases "nibble k (length P) < b")
      case True
      then have "uint256_less k (si_key i)" using o by simp
      then show ?thesis using True uint256_less_asym by (cases dir) (auto simp: beyond_def)
    next
      case False
      then have "uint256_less (si_key i) k" using o b by simp
      then show ?thesis using False uint256_less_asym by (cases dir) (auto simp: beyond_def)
    qed
  qed
  then show ?thesis by (auto simp: filter_id_conv filter_empty_conv)
qed

lemma filter_items_Inner:
  assumes w: "tree_wf ty P (SInner cs)" and k: "uint256_ok k" "P = take (length P) (nibbles k)"
  defines "b \<equiv> nibble k (length P)"
  shows "edge dir (filter (beyond dir k) (tree_items (SInner cs))) =
    (case edge dir (filter (beyond dir k) (branch_items cs b)) of
       None \<Rightarrow> edge dir (concat (map (branch_items cs) (beyond_range dir b)))
     | Some j \<Rightarrow> Some j)"
proof -
  have l: "length cs = 16" using w by (simp add: tree_wf_Inner)
  have b: "b < 16" by (simp add: b_def)
  then have "[0..<16] = [0..<b] @ b # [b + 1..<16]" by (metis upt_conv_Cons less_imp_le_nat upt_add_eq_append le_add_diff_inverse zero_le Suc_eq_plus1 add_0)
  then have f: "filter (beyond dir k) (tree_items (SInner cs)) =
      filter (beyond dir k) (concat (map (branch_items cs) [0..<b])) @ filter (beyond dir k) (branch_items cs b) @
      filter (beyond dir k) (concat (map (branch_items cs) [b + 1..<16]))"
    by (simp add: items_as_branches [OF l])
  have c: "filter (beyond dir k) (concat (map (branch_items cs) bs)) = (if v then concat (map (branch_items cs) bs) else [])"
    if "\<forall>x\<in>set bs. x \<noteq> b \<and> ((b < x) = (dir = First)) = v" for bs v
    using that
  proof (induction bs)
    case (Cons x bs)
    have "filter (beyond dir k) (branch_items cs x) = (if v then branch_items cs x else [])"
      using branch_items_beyond [OF w k, of x dir] Cons.prems by (simp add: b_def)
    then show ?case using Cons by simp
  qed simp
  have "filter (beyond dir k) (concat (map (branch_items cs) [b + 1..<16])) = (if dir = First then concat (map (branch_items cs) [b + 1..<16]) else [])"
    "filter (beyond dir k) (concat (map (branch_items cs) [0..<b])) = (if dir \<noteq> First then concat (map (branch_items cs) [0..<b]) else [])"
    by (intro c; auto)+
  then show ?thesis unfolding f
    by (cases dir) (auto simp: beyond_range_def edge_append edge_None split: option.splits simp del: edge.simps)
qed

lemma bound_inner:
  assumes w: "tree_wf ty P (SInner cs)" and k: "uint256_ok k" "P = take d (nibbles k)" "length P = d"
  shows "bound_loop k dir ((SInner cs, createID d k) # st) =
    (case edge dir (concat (map (branch_items cs) (beyond_range dir (nibble k d)))) of
       None \<Rightarrow> bound_loop k dir st
     | Some j \<Rightarrow> Some (Some j, path_to (si_key j) d (SInner cs) @ st))"
proof -
  have d: "d < 64" using w k(3) by (simp add: tree_wf_Inner)
  then have sel: "selectBranch (createID d k) k = nibble k d" by (simp add: selectBranch_nibble createID_simps)
  have bo: "bound_order dir (nibble k d) = dir_list dir (beyond_range dir (nibble k d))"
    by (cases dir) (simp_all add: bound_order_def dir_list_def beyond_range_def)
  note e = first_branch_edge [OF w, of dir "beyond_range dir (nibble k d)", folded bo]
  show ?thesis
  proof (cases "first_branch (bound_order dir (nibble k d)) cs")
    case None
    then show ?thesis using e sel by simp
  next
    case (Some bc)
    obtain b c where bc: "bc = (b, c)" by (cases bc)
    have c: "child cs b = Some c" using Some bc by (simp add: first_branch_child)
    have cw: "tree_wf ty (P @ [b]) c" "tree_items c \<noteq> []" using tree_wf_child [OF w c] compact_items by auto
    then obtain i0 where i0: "i0 \<in> set (tree_items c)" by fastforce
    note key = child_key [OF w c _ k]
    from belowHelper_spec [OF cw key(1,2) [OF i0], of dir "(SInner cs, createID d k) # st"] d
    obtain i where i: "edge dir (tree_items c) = Some i"
      "belowHelper dir c ((c, createID (Suc d) (si_key i0)) # (SInner cs, createID d k) # st) = Some (Some i, path_to (si_key i) (Suc d) c @ (SInner cs, createID d k) # st)"
      by auto
    then show ?thesis using e Some bc key(3) [OF i0] key(4) [OF edge_mem [OF i(1)]] sel by simp
  qed
qed

lemma bound_spec:
  "tree_wf ty P t \<Longrightarrow> uint256_ok k \<Longrightarrow> P = take d (nibbles k) \<Longrightarrow> d \<le> 64 \<Longrightarrow>
   bound_loop k dir (path_to k d t @ st) =
    (case edge dir (filter (beyond dir k) (tree_items t)) of
       None \<Rightarrow> bound_loop k dir st
     | Some j \<Rightarrow> Some (Some j, path_to (si_key j) d t @ st))"
proof (induction t arbitrary: P d st)
  case (SLeaf t i)
  then show ?case using createID_cong [of k "si_key i" d] by (cases dir) (auto simp: beyond_def)
next
  case (SInner cs)
  have d: "d < 64" and lP: "length P = d" using SInner.prems(1,3,4) by (auto simp: tree_wf_Inner)
  note inner = bound_inner [OF SInner.prems(1,2,3) lP, of dir st]
  have P: "P = take (length P) (nibbles k)" using SInner.prems(3) lP by simp
  note f = filter_items_Inner [OF SInner.prems(1,2) P, of dir, unfolded lP]
  show ?case
  proof (cases "child cs (nibble k d)")
    case None
    then show ?thesis using f inner by (simp add: path_to_Inner branch_items_def)
  next
    case (Some c)
    have w: "tree_wf ty (P @ [nibble k d]) c" using tree_wf_child [OF SInner.prems(1) Some] by blast
    have ih: "bound_loop k dir (path_to k (Suc d) c @ (SInner cs, createID d k) # st) =
      (case edge dir (filter (beyond dir k) (tree_items c)) of None \<Rightarrow> bound_loop k dir ((SInner cs, createID d k) # st)
       | Some j \<Rightarrow> Some (Some j, path_to (si_key j) (Suc d) c @ (SInner cs, createID d k) # st))"
      by (rule SInner.IH [OF child_mem [OF Some] _ w]) (use SInner.prems(2,3) d in \<open>simp_all add: take_Suc_nibbles\<close>)
    have j: "path_to (si_key j) d (SInner cs) = path_to (si_key j) (Suc d) c @ [(SInner cs, createID d k)]"
      if "edge dir (filter (beyond dir k) (tree_items c)) = Some j" for j
      using child_key(4) [OF SInner.prems(1) Some _ SInner.prems(2,3) lP] edge_mem [OF that] by auto
    show ?thesis
      using f inner ih j Some by (auto simp: path_to_Inner branch_items_def split: option.splits)
  qed
qed

lemma boundHelper_spec:
  assumes "shamap_inv ty root" "uint256_ok k"
  shows "boundHelper root k dir = Some (case edge dir (filter (beyond dir k) (tree_items root)) of
    None \<Rightarrow> (None, []) | Some j \<Rightarrow> (Some j, path_to (si_key j) 0 root))"
proof -
  have wf: "tree_wf ty [] root" using assms by (simp add: shamap_inv_def)
  have "boundHelper root k dir = bound_loop k dir (path_to k 0 root @ [])"
    using walkTowardsKey_spec [OF assms] by (simp add: boundHelper_def path_to_def)
  also have "\<dots> = (case edge dir (filter (beyond dir k) (tree_items root)) of None \<Rightarrow> bound_loop k dir []
     | Some j \<Rightarrow> Some (Some j, path_to (si_key j) 0 root @ []))"
    by (rule bound_spec [OF wf assms(2)]) simp_all
  finally show ?thesis by (simp split: option.splits)
qed

text \<open>The items in the order of the tree are in the order of their keys.\<close>

lemma items_sorted: "tree_wf ty P t \<Longrightarrow> sorted_wrt (\<lambda>i j. uint256_less (si_key i) (si_key j)) (tree_items t)"
proof (induction t arbitrary: P)
  case (SInner cs)
  have l: "length cs = 16" using SInner.prems by (simp add: tree_wf_Inner)
  have "sorted_wrt (\<lambda>i j. uint256_less (si_key i) (si_key j)) (concat (map (branch_items cs) [m..<n]))" for m n
  proof (induction n)
    case (Suc n)
    have "sorted_wrt (\<lambda>i j. uint256_less (si_key i) (si_key j)) (branch_items cs n)"
    proof (cases "child cs n")
      case (Some c)
      then show ?thesis using SInner.IH [OF child_mem [OF Some], of c "P @ [n]"] tree_wf_child [OF SInner.prems Some]
        by (simp add: branch_items_def)
    qed (simp add: branch_items_def)
    moreover have "uint256_less (si_key i) (si_key j)"
      if ij: "i \<in> set (branch_items cs b)" "j \<in> set (branch_items cs n)" "b < n" for i j b
    proof -
      obtain c c' where c: "child cs b = Some c" "i \<in> set (tree_items c)" "child cs n = Some c'" "j \<in> set (tree_items c')"
        using ij(1,2) by (auto simp: branch_items_mem)
      have mem: "i \<in> set (tree_items (SInner cs))" "j \<in> set (tree_items (SInner cs))" using c by (auto simp: item_in_Inner)
      have "uint256_ok (si_key j)" "P = take (length P) (nibbles (si_key j))" using tree_wf_item [OF SInner.prems mem(2)] by simp_all
      from branch_order(1) [OF SInner.prems this mem(1)] show ?thesis
        using item_branch [OF SInner.prems c(1,2)] item_branch [OF SInner.prems c(3,4)] ij(3) by simp
    qed
    ultimately show ?case using Suc by (auto simp: sorted_wrt_append)
  qed simp
  then show ?case by (simp only: items_as_branches [OF l])
qed simp

section \<open>Iteration\<close>

lemma next_loop_bound: "list_all (\<lambda>(t, _). is_inner t) st \<Longrightarrow> next_loop k st = bound_loop k First st"
proof (induction st)
  case (Cons a st)
  obtain t n where a: "a = (t, n)" by (cases a)
  then show ?case using Cons by (cases t) (auto simp: bound_order_def split: option.splits)
qed simp

lemma stack_of_inner: "list_all (\<lambda>(t, _). is_inner t) (stack_of k d css)"
  by (induction css arbitrary: d) auto

lemma iter_next_spec:
  assumes inv: "shamap_inv ty root" and i: "i \<in> set (tree_items root)"
  shows "iter_next i (path_to (si_key i) 0 root) = Some (case edge First (filter (beyond First (si_key i)) (tree_items root)) of
    None \<Rightarrow> (None, []) | Some j \<Rightarrow> (Some j, path_to (si_key j) 0 root))"
proof -
  have wf: "tree_wf ty [] root" using inv by (simp add: shamap_inv_def)
  have ok: "uint256_ok (si_key i)" using tree_wf_item [OF wf i] by simp
  have t: "terminal (si_key i) 0 root = SLeaf ty i" by (rule terminal_found [OF wf _ i]) simp
  have "iter_next i (path_to (si_key i) 0 root) = boundHelper root (si_key i) First"
    using walkTowardsKey_spec [OF inv ok] t
    by (simp add: iter_next_def peekNextItem_def path_to_def next_loop_bound stack_of_inner boundHelper_def)
  then show ?thesis using boundHelper_spec [OF inv ok] by simp
qed

lemma iter_begin_spec:
  assumes inv: "shamap_inv ty root"
  shows "iter_begin root = Some (case edge First (tree_items root) of
    None \<Rightarrow> (None, []) | Some j \<Rightarrow> (Some j, path_to (si_key j) 0 root))"
proof (cases "tree_items root = []")
  case False
  have wf: "tree_wf ty [] root" using inv by (simp add: shamap_inv_def)
  obtain i where "i \<in> set (tree_items root)" using False by fastforce
  then have ok: "uint256_ok (si_key i)" using tree_wf_item [OF wf] by blast
  from belowHelper_spec [OF wf False ok, of 0 First "[]"] show ?thesis
    by (auto simp: iter_begin_def peekFirstItem_def pushRoot_def node_id_root_eq [OF ok])
next
  case True
  obtain cs where cs: "root = SInner cs" "tree_wf ty [] (SInner cs)" using inv by (cases root) (auto simp: shamap_inv_def)
  have "edge First (tree_items root) = (case first_branch [0..<16] cs of None \<Rightarrow> None | Some (b, c) \<Rightarrow> edge First (tree_items c))"
    using first_branch_edge [OF cs(2), of First "[0..<16]"] items_as_branches [of cs] cs by (simp add: tree_wf_Inner dir_list_def)
  moreover have "first_branch [0..<16] cs = Some (b, c) \<Longrightarrow> tree_items c \<noteq> []" for b c
    using first_branch_child tree_wf_child [OF cs(2)] compact_items by blast
  ultimately have "first_branch [0..<16] cs = None" using True by (auto simp: edge_None split: option.splits simp del: edge.simps)
  then show ?thesis using True cs(1) by (simp add: iter_begin_def peekFirstItem_def scan_order_def)
qed

lemma filter_beyond_suffix:
  assumes "tree_wf ty [] root" "tree_items root = ys @ i # zs"
  shows "filter (beyond First (si_key i)) (tree_items root) = zs"
proof -
  have "\<forall>j\<in>set ys. \<not> uint256_less (si_key i) (si_key j)" "\<forall>j\<in>set zs. uint256_less (si_key i) (si_key j)"
    using items_sorted [OF assms(1)] assms(2) uint256_less_asym by (auto simp: sorted_wrt_append)
  then show ?thesis using assms(2) by (simp add: beyond_def filter_empty_conv)
qed

lemma iter_loop_spec:
  assumes inv: "shamap_inv ty root"
  shows "tree_items root = ys @ zs \<Longrightarrow> length zs \<le> fuel \<Longrightarrow>
    iter_loop fuel (case edge First zs of None \<Rightarrow> (None, []) | Some j \<Rightarrow> (Some j, path_to (si_key j) 0 root)) = Some zs"
proof (induction zs arbitrary: ys fuel)
  case (Cons i zs)
  have wf: "tree_wf ty [] root" using inv by (simp add: shamap_inv_def)
  obtain f where f: "fuel = Suc f" "length zs \<le> f" using Cons.prems(2) by (cases fuel) auto
  have "iter_loop f (case edge First zs of None \<Rightarrow> (None, []) | Some j \<Rightarrow> (Some j, path_to (si_key j) 0 root)) = Some zs"
    using Cons.IH [of "ys @ [i]" f] Cons.prems(1) f(2) by simp
  then show ?case
    using f(1) iter_next_spec [OF inv, of i] filter_beyond_suffix [OF wf Cons.prems(1)] Cons.prems(1) by simp
qed simp

lemma edge_sorted:
  assumes "sorted_wrt (\<lambda>i j. uint256_less (si_key i) (si_key j)) xs" "edge dir xs = Some j" "i \<in> set xs"
  shows "i = j \<or> beyond dir (si_key j) i"
  using assms by (cases dir) (auto simp: beyond_def sorted_wrt_append rev_eq_Cons_iff split: list.splits)

text \<open>
  C29: iterating over a map visits its items in the order of their keys. Starting at
  \<^verbatim>\<open>SHAMap::begin\<close> and stepping with \<^verbatim>\<open>operator++\<close>, the loop ends after as many steps as there
  are items, without an exception, and has visited exactly the items \<^verbatim>\<open>peekItem\<close> finds, each once,
  by strictly increasing key.
\<close>

theorem iteration_in_key_order:
  assumes "shamap_inv ty root" and "length (tree_items root) \<le> fuel"
  shows "\<exists>it visited. iter_begin root = Some it \<and> iter_loop fuel it = Some visited \<and>
    sorted_wrt (\<lambda>i j. uint256_less (si_key i) (si_key j)) visited \<and>
    (\<forall>i. i \<in> set visited \<longleftrightarrow> peekItem root (si_key i) = Some (Some i))"
  using iter_begin_spec [OF assms(1)] iter_loop_spec [OF assms(1) _ assms(2), of "[]"] items_sorted [of ty "[]" root]
    peekItem_spec [OF assms(1)] assms(1) by (auto simp: shamap_inv_def)

definition ex_tree :: tree where
  "ex_tree = SInner (setChild 0 (Some (SLeaf TnAccountState \<lparr>si_key = replicate 32 2, si_data = [2]\<rparr>))
     (setChild 3 (Some (SLeaf TnAccountState \<lparr>si_key = replicate 32 0x30, si_data = [1]\<rparr>)) empty_inner))"

lemma ex_tree_inv: "shamap_inv TnAccountState ex_tree"
  by code_simp

theorem iteration_in_key_order_witness:
  "\<exists>it visited. iter_begin ex_tree = Some it \<and> iter_loop 2 it = Some visited \<and>
    sorted_wrt (\<lambda>i j. uint256_less (si_key i) (si_key j)) visited \<and>
    (\<forall>i. i \<in> set visited \<longleftrightarrow> peekItem ex_tree (si_key i) = Some (Some i))"
proof -
  have "length (tree_items ex_tree) \<le> 2" by code_simp
  from iteration_in_key_order [OF ex_tree_inv this] show ?thesis .
qed

definition nearest :: "BelowDirection \<Rightarrow> shamap_item list \<Rightarrow> uint256 \<Rightarrow> shamap_item option \<Rightarrow> bool" where
  "nearest dir xs k r \<longleftrightarrow>
     (case r of
        None \<Rightarrow> list_all (\<lambda>j. \<not> beyond dir k j) xs
      | Some i \<Rightarrow> i \<in> set xs \<and> beyond dir k i \<and> list_all (\<lambda>j. beyond dir k j \<longrightarrow> j = i \<or> beyond dir (si_key i) j) xs)"

lemma boundHelper_nearest:
  assumes inv: "shamap_inv ty root" and k: "uint256_ok k"
  shows "\<exists>r st. boundHelper root k dir = Some (r, st) \<and> nearest dir (tree_items root) k r"
proof -
  have wf: "tree_wf ty [] root" using inv by (simp add: shamap_inv_def)
  have s: "sorted_wrt (\<lambda>i j. uint256_less (si_key i) (si_key j)) (filter (beyond dir k) (tree_items root))"
    by (rule sorted_wrt_filter [OF items_sorted [OF wf]])
  show ?thesis
  proof (cases "edge dir (filter (beyond dir k) (tree_items root))")
    case None
    then show ?thesis
      by (simp add: boundHelper_spec [OF inv k] nearest_def) (simp add: edge_None filter_empty_conv list_all_iff)
  next
    case (Some i)
    then show ?thesis using edge_mem [OF Some] edge_sorted [OF s Some]
      by (simp add: boundHelper_spec [OF inv k] nearest_def list_all_iff)
  qed
qed

text \<open>
  C30: the bounds are the nearest items. For every key, in the map or not, \<^verbatim>\<open>upperBound\<close> finds the
  item with the least key above it and \<^verbatim>\<open>lowerBound\<close> the item with the greatest key below it, and
  they find nothing exactly when no item lies on that side.
\<close>

theorem bounds_nearest:
  assumes "shamap_inv ty root" and "uint256_ok k"
  shows "\<exists>u l. upperBound root k = Some u \<and> nearest First (tree_items root) k u \<and>
    lowerBound root k = Some l \<and> nearest Last (tree_items root) k l"
  using boundHelper_nearest [OF assms, of First] boundHelper_nearest [OF assms, of Last]
  by (auto simp: upperBound_def lowerBound_def)

theorem bounds_nearest_witness:
  "\<exists>u l. upperBound ex_tree (replicate 32 0x20) = Some u \<and> nearest First (tree_items ex_tree) (replicate 32 0x20) u \<and>
    lowerBound ex_tree (replicate 32 0x20) = Some l \<and> nearest Last (tree_items ex_tree) (replicate 32 0x20) l"
  using bounds_nearest [OF ex_tree_inv, of "replicate 32 0x20"] by simp

end
