(* ===== verification/SHAMapDelta_Correct.thy ===== *)
theory SHAMapDelta_Correct
  imports SHAMapDelta SHAMap_Order "HOL-Library.Multiset"
begin

text \<open>
  \<^verbatim>\<open>SHAMap::compare\<close> finds the differences of two maps. Each loop is described by the list of entries
  it emits; \<open>emit_entries\<close> is the effect of such a list under the limit. The entries of the whole comparison
  are the differences of the two sets of items, each once, provided that the digest separates the
  nodes of the two maps.
\<close>

section \<open>Emitting entries under a limit\<close>

definition emit_entries :: "(uint256 \<times> delta_ref) list \<Rightarrow> delta \<Rightarrow> int \<Rightarrow> bool \<times> delta \<times> int" where
  "emit_entries es d m =
     (if int (length es) < m then (True, fold delta_insert es d, m - int (length es))
      else (False, fold delta_insert (take (nat m) es) d, 0))"

lemma emit_Nil [simp]: "0 < m \<Longrightarrow> emit_entries [] d m = (True, d, m)"
  by (simp add: emit_entries_def)

lemma emit_Cons:
  assumes "0 < m"
  shows "emit_entries (e # es) d m =
    (if m - 1 \<le> 0 then (False, delta_insert e d, m - 1) else emit_entries es (delta_insert e d) (m - 1))"
proof -
  have "take (nat m) (e # es) = e # take (nat (m - 1)) es"
    using assms by (cases "nat m") (auto simp: nat_diff_distrib')
  then show ?thesis using assms by (auto simp: emit_entries_def)
qed

lemma emit_pos: "0 < m \<Longrightarrow> emit_entries es d m = (True, d', m') \<Longrightarrow> 0 < m'"
  by (auto simp: emit_entries_def split: if_splits)

lemma emit_append:
  "0 < m \<Longrightarrow> emit_entries (es @ es') d m = (case emit_entries es d m of (ok, d', m') \<Rightarrow> if ok then emit_entries es' d' m' else (False, d', m'))"
  by (induction es arbitrary: d m) (auto simp: emit_Cons)

section \<open>The entries of a branch\<close>

fun trav :: "tree \<Rightarrow> shamap_item list" where
  "trav (SLeaf t i) = [i]"
| "trav (SInner cs) = concat (rev (map (case_option [] trav) cs))"

lemma trav_branches: "concat (map trav (rev (branches cs))) = trav (SInner cs)"
  by (induction cs) (auto simp: branches_def List.map_filter_def split: option.splits)

lemma mset_trav: "mset (trav t) = mset (tree_items t)"
proof (induction t)
  case (SInner cs)
  have "mset (case_option [] trav c) = mset (case_option [] tree_items c)" if "c \<in> set cs" for c
    using SInner that by (cases c) auto
  then have "mset (concat (map (case_option [] trav) cs)) = mset (concat (map (case_option [] tree_items) cs))"
    by (induction cs) (simp_all add: mset_append)
  moreover have "mset (concat (rev xs)) = mset (concat xs)" for xs :: "shamap_item list list"
    by (induction xs) (simp_all add: mset_append add.commute)
  ultimately show ?case by (simp add: tree_items.simps)
qed simp

lemma set_trav: "set (trav t) = set (tree_items t)"
  using arg_cong [OF mset_trav, of set_mset] by simp

lemma distinct_trav: "tree_wf ty P t \<Longrightarrow> distinct (map si_key (trav t))"
  using tree_keys_inj [of ty P t] distinct_items [of ty P t] mset_eq_imp_distinct_iff [OF mset_trav [of t]]
  by (auto simp: distinct_map set_trav inj_on_def)

fun walk_events :: "shamap_item option \<Rightarrow> bool \<Rightarrow> shamap_item list \<Rightarrow> bool \<Rightarrow> (uint256 \<times> delta_ref) list \<times> bool" where
  "walk_events other isFirst [] e = ([], e)"
| "walk_events other isFirst (i # js) e =
     (case other of
        Some o' \<Rightarrow>
          if e \<or> si_key i \<noteq> si_key o' then (case walk_events other isFirst js e of (es, e') \<Rightarrow> (unmatched isFirst i # es, e'))
          else if si_data i \<noteq> si_data o' then (case walk_events other isFirst js True of (es, e') \<Rightarrow> (changed isFirst i o' # es, e'))
          else walk_events other isFirst js True
      | None \<Rightarrow> (case walk_events other isFirst js e of (es, e') \<Rightarrow> (unmatched isFirst i # es, e')))"

lemma walk_branch_loop_emit:
  "0 < m \<Longrightarrow> walk_branch_loop other f st e d m = (ok, e'', d', m') \<Longrightarrow>
   walk_events other f (concat (map trav st)) e = (es, e') \<Longrightarrow> emit_entries es d m = (ok, d', m') \<and> (ok \<longrightarrow> e'' = e')"
proof (induction other f st e d m arbitrary: es rule: walk_branch_loop.induct)
  case (2 other f cs st e d m)
  have "concat (map trav (rev (branches cs) @ st)) = concat (map trav (SInner cs # st))"
    using trav_branches [of cs] by simp
  with 2 show ?case by (metis walk_branch_loop.simps(2))
next
  case (3 other f t i st e d m)
  show ?case
  proof (cases other)
    case None
    then show ?thesis using 3 by (auto simp: emit_Cons Let_def split: prod.splits if_splits)
  next
    case (Some o')
    then show ?thesis using 3 by (auto simp: emit_Cons Let_def split: prod.splits if_splits)
  qed
qed simp

definition walk_entries :: "shamap_item option \<Rightarrow> bool \<Rightarrow> tree \<Rightarrow> (uint256 \<times> delta_ref) list" where
  "walk_entries other f t =
     (case walk_events other f (trav t) (other = None) of
        (es, e) \<Rightarrow> es @ (case other of None \<Rightarrow> [] | Some o' \<Rightarrow> if e then [] else [unmatched (\<not> f) o']))"

lemma walkBranch_emit:
  assumes "0 < m"
  shows "walkBranch t other f d m = emit_entries (walk_entries other f t) d m"
proof -
  let ?ev = "walk_events other f (trav t) (other = None)"
  obtain ok e d' m' where w: "walk_branch_loop other f [t] (other = None) d m = (ok, e, d', m')"
    by (cases "walk_branch_loop other f [t] (other = None) d m")
  from walk_branch_loop_emit [OF assms w, of "fst ?ev" "snd ?ev"]
  have em: "emit_entries (fst ?ev) d m = (ok, d', m')" "ok \<longrightarrow> e = snd ?ev" by simp_all
  show ?thesis
  proof (cases ok)
    case True
    then show ?thesis using w em emit_pos [OF assms, of "fst ?ev" d d' m'] assms
      by (cases other) (auto simp: walkBranch_def walk_entries_def emit_append emit_Cons split: prod.splits)
  next
    case False
    then show ?thesis using w em assms
      by (cases other) (auto simp: walkBranch_def walk_entries_def emit_append split: prod.splits)
  qed
qed

text \<open>
  The differences of two sets of items: a key that only one of them has, with its item on that side,
  and a key for which they have two different items, with both.
\<close>

definition diffs_of :: "shamap_item set \<Rightarrow> shamap_item set \<Rightarrow> (uint256 \<times> delta_ref) set" where
  "diffs_of A B =
     {(si_key i, Some i, None) | i. i \<in> A \<and> si_key i \<notin> si_key ` B} \<union>
     {(si_key j, None, Some j) | j. j \<in> B \<and> si_key j \<notin> si_key ` A} \<union>
     {(si_key i, Some i, Some j) | i j. i \<in> A \<and> j \<in> B \<and> si_key i = si_key j \<and> i \<noteq> j}"

lemma diffs_of_entries:
  "diffs_of A B =
     unmatched True ` {i \<in> A. si_key i \<notin> si_key ` B} \<union> unmatched False ` {j \<in> B. si_key j \<notin> si_key ` A} \<union>
     (\<lambda>(i, j). changed True i j) ` {(i, j) \<in> A \<times> B. si_key i = si_key j \<and> i \<noteq> j}"
  unfolding diffs_of_def unmatched_def changed_def by auto

lemma entries_inj [simp]:
  "unmatched f i = unmatched f' j \<longleftrightarrow> f = f' \<and> i = j" "changed f i j = changed f i' j' \<longleftrightarrow> i = i' \<and> j = j'"
  "unmatched f i \<noteq> changed f' j j'" "changed f' j j' \<noteq> unmatched f i"
  by (auto simp: unmatched_def changed_def split: if_splits)

lemma diffs_of_mem:
  "e \<in> diffs_of A B \<longleftrightarrow>
   (\<exists>i\<in>A. e = unmatched True i \<and> si_key i \<notin> si_key ` B) \<or>
   (\<exists>j\<in>B. e = unmatched False j \<and> si_key j \<notin> si_key ` A) \<or>
   (\<exists>i\<in>A. \<exists>j\<in>B. e = changed True i j \<and> si_key i = si_key j \<and> i \<noteq> j)"
  by (auto simp: diffs_of_entries)

lemma diffs_of_empty [simp]: "diffs_of A {} = unmatched True ` A" "diffs_of {} B = unmatched False ` B"
  by (auto simp: diffs_of_entries)

lemma fst_entries [simp]: "fst (unmatched f i) = si_key i" "fst (changed f i j) = si_key i"
  by (simp_all add: unmatched_def changed_def)

lemma diffs_of_keys: "fst ` diffs_of A B \<subseteq> si_key ` (A \<union> B)"
  by (auto simp: diffs_of_entries)

lemma diffs_of_same: "inj_on si_key A \<Longrightarrow> diffs_of A A = {}"
  by (auto simp: diffs_of_entries inj_on_def)

text \<open>The items fall into classes by their key; the differences are found class by class.\<close>

lemma diffs_of_partition:
  "diffs_of A B = (\<Union>b. diffs_of {i \<in> A. c (si_key i) = b} {j \<in> B. c (si_key j) = b})"
proof (rule set_eqI)
  fix e
  let ?A = "\<lambda>b. {i \<in> A. c (si_key i) = b}" and ?B = "\<lambda>b. {j \<in> B. c (si_key j) = b}"
  have im: "k \<in> si_key ` {j \<in> S. c (si_key j) = b} \<longleftrightarrow> k \<in> si_key ` S \<and> c k = b" for k b S by auto
  have "e \<in> diffs_of (?A b) (?B b) \<longleftrightarrow> e \<in> diffs_of A B \<and> c (fst e) = b" for b
  proof -
    consider i f where "e = unmatched f i" | i j where "e = changed True i j" | "\<forall>i j f. e \<noteq> unmatched f i \<and> e \<noteq> changed True i j"
      by blast
    then show ?thesis unfolding diffs_of_mem im by cases auto
  qed
  then show "e \<in> diffs_of A B \<longleftrightarrow> e \<in> (\<Union>b. diffs_of (?A b) (?B b))" by blast
qed

lemma walk_events_free:
  "other = None \<or> e \<or> si_key (the other) \<notin> si_key ` set xs \<Longrightarrow> walk_events other f xs e = (map (unmatched f) xs, e)"
  by (induction xs) (auto split: option.splits)

lemma walk_events_hit:
  "si_key o' \<notin> si_key ` set ys \<Longrightarrow> si_key i = si_key o' \<Longrightarrow>
   walk_events (Some o') f (ys @ i # zs) False =
     (map (unmatched f) ys @ (if i \<noteq> o' then [changed f i o'] else []) @ map (unmatched f) zs, True)"
  by (induction ys) (auto simp: walk_events_free)

lemma walk_entries_None: "walk_entries None f t = map (unmatched f) (trav t)"
  by (simp add: walk_entries_def walk_events_free)

lemma changed_flip: "si_key i = si_key j \<Longrightarrow> changed False i j = changed True j i"
  by (simp add: changed_def)

lemma diffs_of_new:
  assumes "si_key o' \<notin> si_key ` A"
  shows "diffs_of A {o'} = unmatched True ` A \<union> {unmatched False o'}" "diffs_of {o'} A = unmatched False ` A \<union> {unmatched True o'}"
proof -
  have n: "si_key i \<noteq> si_key o'" if "i \<in> A" for i using assms that by (metis image_eqI)
  show "diffs_of A {o'} = unmatched True ` A \<union> {unmatched False o'}"
    using n assms by (intro set_eqI) (auto simp: diffs_of_mem)
  show "diffs_of {o'} A = unmatched False ` A \<union> {unmatched True o'}"
    using n assms by (intro set_eqI) (auto simp: diffs_of_mem dest: sym [of "si_key o'"])
qed

lemma diffs_of_hit:
  assumes "i \<notin> A" "si_key i = si_key o'" "si_key o' \<notin> si_key ` A"
  shows "diffs_of (insert i A) {o'} = unmatched True ` A \<union> (if i \<noteq> o' then {changed True i o'} else {})"
    "diffs_of {o'} (insert i A) = unmatched False ` A \<union> (if i \<noteq> o' then {changed False i o'} else {})"
proof -
  have n: "si_key j \<noteq> si_key o'" if "j \<in> A" for j using assms(3) that by (metis image_eqI)
  show "diffs_of (insert i A) {o'} = unmatched True ` A \<union> (if i \<noteq> o' then {changed True i o'} else {})"
    using n assms(2) by (intro set_eqI) (auto simp: diffs_of_mem)
  show "diffs_of {o'} (insert i A) = unmatched False ` A \<union> (if i \<noteq> o' then {changed False i o'} else {})"
    using n assms(2) by (intro set_eqI) (auto simp: diffs_of_mem changed_flip dest: sym [of "si_key o'"])
qed

lemma walk_entries_spec:
  assumes "tree_wf ty P t"
  shows "distinct (map fst (walk_entries (Some o') f t)) \<and>
    set (walk_entries (Some o') f t) = (if f then diffs_of (set (tree_items t)) {o'} else diffs_of {o'} (set (tree_items t)))"
proof -
  have d: "distinct (map si_key (trav t))" by (rule distinct_trav [OF assms])
  show ?thesis
  proof (cases "si_key o' \<in> si_key ` set (trav t)")
    case False
    then have w: "walk_entries (Some o') f t = map (unmatched f) (trav t) @ [unmatched (\<not> f) o']"
      by (simp add: walk_entries_def walk_events_free)
    then show ?thesis using False d by (simp add: diffs_of_new set_trav [symmetric] comp_def)
  next
    case True
    then obtain i ys zs where i: "trav t = ys @ i # zs" "si_key i = si_key o'" by (metis imageE split_list)
    then have k: "si_key o' \<notin> si_key ` set ys" "si_key o' \<notin> si_key ` set zs" using d by auto
    then have w: "walk_entries (Some o') f t = map (unmatched f) ys @ (if i \<noteq> o' then [changed f i o'] else []) @ map (unmatched f) zs"
      using i by (simp add: walk_entries_def walk_events_hit)
    have "distinct (map fst (walk_entries (Some o') f t))" using d i w by (auto simp: comp_def)
    moreover have "i \<notin> set ys \<union> set zs" "si_key o' \<notin> si_key ` (set ys \<union> set zs)" using k i(2) by (metis Un_iff image_eqI, simp add: image_Un)
    then have "set (walk_entries (Some o') f t) = (if f then diffs_of (set (trav t)) {o'} else diffs_of {o'} (set (trav t)))"
      using diffs_of_hit [OF _ i(2), of "set ys \<union> set zs"] unfolding w i(1) by (cases f) (auto simp: image_Un)
    ultimately show ?thesis by (simp add: set_trav)
  qed
qed

section \<open>The entries of a pair of nodes\<close>

definition side_entries :: "digest \<Rightarrow> tree option list \<Rightarrow> tree option list \<Rightarrow> nat \<Rightarrow> (uint256 \<times> delta_ref) list" where
  "side_entries sha cs cs' i =
     (if child_hash sha (child cs i) = child_hash sha (child cs' i) then []
      else case (child cs i, child cs' i) of
        (Some a, None) \<Rightarrow> map (unmatched True) (trav a)
      | (None, Some b) \<Rightarrow> map (unmatched False) (trav b)
      | _ \<Rightarrow> [])"

definition side_pushes :: "digest \<Rightarrow> tree option list \<Rightarrow> tree option list \<Rightarrow> nat \<Rightarrow> (tree \<times> tree) list" where
  "side_pushes sha cs cs' i =
     (if child_hash sha (child cs i) = child_hash sha (child cs' i) then []
      else case (child cs i, child cs' i) of (Some a, Some b) \<Rightarrow> [(a, b)] | _ \<Rightarrow> [])"

lemma compare_branches_emit:
  "0 < m \<Longrightarrow> compare_branches sha cs cs' bs st d m = (ok, st', d', m') \<Longrightarrow>
   emit_entries (concat (map (side_entries sha cs cs') bs)) d m = (ok, d', m') \<and>
   (ok \<longrightarrow> st' = concat (rev (map (side_pushes sha cs cs') bs)) @ st)"
proof (induction bs arbitrary: st d m)
  case (Cons i bs)
  show ?case
  proof (cases "child_hash sha (child cs i) = child_hash sha (child cs' i)")
    case True
    then show ?thesis using Cons by (auto simp: side_entries_def side_pushes_def)
  next
    case False
    have w: "walkBranch t None f d m = emit_entries (map (unmatched f) (trav t)) d m" for t f
      using walkBranch_emit [OF Cons.prems(1)] by (simp add: walk_entries_None)
    show ?thesis
    proof (cases "side_entries sha cs cs' i = []")
      case True
      then have "compare_branches sha cs cs' bs (side_pushes sha cs cs' i @ st) d m = (ok, st', d', m')"
        using Cons.prems False by (auto simp: side_entries_def side_pushes_def w split: option.splits if_splits prod.splits)
      then show ?thesis using Cons.IH [OF Cons.prems(1)] True by auto
    next
      case ne: False
      obtain ok1 d1 m1 where e: "emit_entries (side_entries sha cs cs' i) d m = (ok1, d1, m1)" by (cases "emit_entries (side_entries sha cs cs' i) d m")
      have "(if ok1 then compare_branches sha cs cs' bs st d1 m1 else (False, st, d1, m1)) = (ok, st', d', m')" "side_pushes sha cs cs' i = []"
        using Cons.prems False ne e by (auto simp: side_entries_def side_pushes_def w split: option.splits)
      then show ?thesis using Cons.IH [of m1 st d1] emit_pos [OF Cons.prems(1), of "side_entries sha cs cs' i" d d1 m1] e Cons.prems(1)
        by (auto simp: emit_append split: if_splits)
    qed
  qed
qed simp

definition separated :: "digest \<Rightarrow> tree \<Rightarrow> tree \<Rightarrow> bool" where
  "separated sha a b \<longleftrightarrow>
     \<not> collision sha (preimages sha a) (preimages sha b) \<and> list_all (\<lambda>x. sha x \<noteq> zero256) (preimages sha a @ preimages sha b)"

definition pair_ok :: "digest \<Rightarrow> SHAMapNodeType \<Rightarrow> nat list \<Rightarrow> tree \<Rightarrow> tree \<Rightarrow> bool" where
  "pair_ok sha ty P a b \<longleftrightarrow> tree_wf ty P a \<and> tree_wf ty P b \<and> items_ok sha ty a \<and> items_ok sha ty b \<and> separated sha a b"

lemma pair_ok_child:
  assumes "pair_ok sha ty P (SInner cs) (SInner cs')" "child cs i = Some a" "child cs' i = Some b"
  shows "pair_ok sha ty (P @ [i]) a b"
  using assms tree_wf_child [of ty P cs i a] tree_wf_child [of ty P cs' i b] items_ok_child [of sha ty]
    collision_mono [of sha "preimages sha a" "preimages sha b"] preimages_child [OF assms(2), of sha] preimages_child [OF assms(3), of sha]
  by (auto simp: pair_ok_def separated_def list_all_iff)

lemma child_hash_eq:
  assumes sha: "\<And>x. uint256_ok (sha x)" and p: "pair_ok sha ty P (SInner cs) (SInner cs')"
  shows "child_hash sha (child cs i) = child_hash sha (child cs' i) \<longleftrightarrow> child cs i = child cs' i"
proof -
  have w: "tree_wf ty P (SInner cs)" "tree_wf ty P (SInner cs')" using p by (simp_all add: pair_ok_def)
  have nz: "tree_hash sha a \<noteq> zero256"
    if "child cs'' i = Some a" "tree_wf ty P (SInner cs'')" "set (preimages sha (SInner cs'')) \<subseteq> set (preimages sha (SInner cs)) \<union> set (preimages sha (SInner cs'))" for cs'' a
  proof -
    have "tree_wf ty (P @ [i]) a" "tree_items a \<noteq> []" using tree_wf_child [OF that(2,1)] compact_items by auto
    from tree_hash_sha [OF this, of sha] that(3) preimages_child [OF that(1), of sha] p show ?thesis
      by (auto simp: pair_ok_def separated_def list_all_iff)
  qed
  show ?thesis
  proof (cases "child cs i"; cases "child cs' i")
    fix a b assume c: "child cs i = Some a" "child cs' i = Some b"
    have "pair_ok sha ty (P @ [i]) a b" by (rule pair_ok_child [OF p c])
    moreover have "tree_items a \<noteq> []" "tree_items b \<noteq> []" using tree_wf_child [OF w(1) c(1)] tree_wf_child [OF w(2) c(2)] compact_items by auto
    ultimately show ?thesis using tree_hash_binding [OF sha, of ty "P @ [i]" a b] c
      by (auto simp: child_hash_def pair_ok_def separated_def list_all_iff)
  qed (use nz [of cs] nz [of cs'] w in \<open>auto simp: child_hash_def\<close>)
qed

definition pair_diffs :: "tree \<times> tree \<Rightarrow> (uint256 \<times> delta_ref) set" where
  "pair_diffs p = diffs_of (set (tree_items (fst p))) (set (tree_items (snd p)))"

definition pair_keys :: "tree \<times> tree \<Rightarrow> uint256 set" where
  "pair_keys p = tree_keys (fst p) \<union> tree_keys (snd p)"

lemma pair_keys_item: "k \<in> pair_keys (a, b) \<Longrightarrow> \<exists>i. (i \<in> set (tree_items a) \<or> i \<in> set (tree_items b)) \<and> k = si_key i"
  by (auto simp: pair_keys_def tree_keys_def)

lemma pair_diffs_keys: "fst ` pair_diffs p \<subseteq> pair_keys p"
  using diffs_of_keys by (auto simp: pair_diffs_def pair_keys_def tree_keys_def image_Un)

lemma branch_class:
  assumes "tree_wf ty P (SInner cs)"
  shows "{i \<in> set (tree_items (SInner cs)). nibble (si_key i) (length P) = b} = set (branch_items cs b)"
proof (cases "child cs b")
  case None
  then show ?thesis using item_in_branch [OF assms] by (auto simp: branch_items_def)
next
  case (Some c)
  then show ?thesis using items_child [OF assms Some] by (simp add: branch_items_def)
qed

text \<open>Two inner nodes: the differences of each pair of branches are emitted or pushed.\<close>

lemma inner_diffs:
  assumes sha: "\<And>x. uint256_ok (sha x)" and p: "pair_ok sha ty P (SInner cs) (SInner cs')"
  shows "diffs_of (set (branch_items cs b)) (set (branch_items cs' b)) =
    set (side_entries sha cs cs' b) \<union> \<Union> (pair_diffs ` set (side_pushes sha cs cs' b))"
proof (cases "child cs b = child cs' b")
  case True
  have "inj_on si_key (set (branch_items cs b))"
    using tree_keys_inj [of ty P "SInner cs"] p branch_class [of ty P cs b] by (auto simp: pair_ok_def inj_on_def)
  moreover have "branch_items cs b = branch_items cs' b" using True by (simp add: branch_items_def)
  ultimately show ?thesis using True by (simp add: side_entries_def side_pushes_def diffs_of_same)
next
  case False
  then have h: "child_hash sha (child cs b) \<noteq> child_hash sha (child cs' b)" by (simp add: child_hash_eq [OF sha p])
  then show ?thesis
    by (cases "child cs b"; cases "child cs' b") (auto simp: side_entries_def side_pushes_def branch_items_def set_trav pair_diffs_def)
qed

lemma inner_pair_diffs:
  assumes sha: "\<And>x. uint256_ok (sha x)" and p: "pair_ok sha ty P (SInner cs) (SInner cs')"
  shows "pair_diffs (SInner cs, SInner cs') =
    set (concat (map (side_entries sha cs cs') [0..<16])) \<union> \<Union> (pair_diffs ` set (concat (map (side_pushes sha cs cs') [0..<16])))"
proof -
  have w: "tree_wf ty P (SInner cs)" "tree_wf ty P (SInner cs')" using p by (simp_all add: pair_ok_def)
  have "pair_diffs (SInner cs, SInner cs') = (\<Union>b. diffs_of (set (branch_items cs b)) (set (branch_items cs' b)))"
    using diffs_of_partition [of "set (tree_items (SInner cs))" "set (tree_items (SInner cs'))" "\<lambda>k. nibble k (length P)"]
    by (simp add: pair_diffs_def branch_class [OF w(1)] branch_class [OF w(2)])
  also have "\<dots> = (\<Union>b\<in>{0..<16}. diffs_of (set (branch_items cs b)) (set (branch_items cs' b)))"
  proof -
    have "branch_items cs b = []" "branch_items cs' b = []" if "\<not> b < 16" for b
      using w that by (auto simp: tree_wf_Inner branch_items_def child_def)
    then show ?thesis by (auto simp: not_less [symmetric]) fastforce
  qed
  finally show ?thesis using inner_diffs [OF sha p] by (auto simp del: upt_rec_numeral)
qed

definition disjoint_pairs :: "tree \<times> tree \<Rightarrow> tree \<times> tree \<Rightarrow> bool" where
  "disjoint_pairs p q \<longleftrightarrow> pair_keys p \<inter> pair_keys q = {}"

definition stack_ok :: "digest \<Rightarrow> SHAMapNodeType \<Rightarrow> (tree \<times> tree) list \<Rightarrow> bool" where
  "stack_ok sha ty st \<longleftrightarrow> (\<forall>(a, b)\<in>set st. \<exists>P. pair_ok sha ty P a b) \<and> sorted_wrt disjoint_pairs st"

lemma sorted_wrt_concat:
  "distinct bs \<Longrightarrow> (\<And>b. b \<in> set bs \<Longrightarrow> sorted_wrt R (f b)) \<Longrightarrow>
   (\<And>b b' x y. b \<noteq> b' \<Longrightarrow> x \<in> set (f b) \<Longrightarrow> y \<in> set (f b') \<Longrightarrow> R x y) \<Longrightarrow> sorted_wrt R (concat (map f bs))"
proof (induction bs)
  case (Cons b bs)
  have "R x y" if "x \<in> set (f b)" "y \<in> set (f b')" "b' \<in> set bs" for x y b'
    using Cons.prems(3) [of b b' x y] Cons.prems(1) that by auto
  then show ?case using Cons by (auto simp: sorted_wrt_append)
qed simp

lemma distinct_conv_sorted_wrt: "distinct xs \<longleftrightarrow> sorted_wrt (\<noteq>) xs"
  by (induction xs) auto

lemma distinct_keys_concat:
  assumes "distinct bs" "\<And>b. b \<in> set bs \<Longrightarrow> distinct (map fst (f b))"
    "\<And>b b' x y. b \<noteq> b' \<Longrightarrow> x \<in> set (f b) \<Longrightarrow> y \<in> set (f b') \<Longrightarrow> fst x \<noteq> fst y"
  shows "distinct (map fst (concat (map f bs)))"
  using sorted_wrt_concat [of bs "\<lambda>x y. fst x \<noteq> fst y" f] assms by (simp add: distinct_conv_sorted_wrt sorted_wrt_map)

text \<open>The keys of what a branch emits or pushes are below that branch.\<close>

lemma side_keys:
  assumes w: "tree_wf ty P (SInner cs)" "tree_wf ty P (SInner cs')"
  shows "e \<in> set (side_entries sha cs cs' b) \<Longrightarrow> fst e \<in> pair_keys (SInner cs, SInner cs') \<and> nibble (fst e) (length P) = b"
    "p \<in> set (side_pushes sha cs cs' b) \<Longrightarrow> k \<in> pair_keys p \<Longrightarrow> k \<in> pair_keys (SInner cs, SInner cs') \<and> nibble k (length P) = b"
proof -
  have c: "si_key i \<in> pair_keys (SInner cs, SInner cs') \<and> nibble (si_key i) (length P) = b"
    if "i \<in> set (branch_items cs b) \<union> set (branch_items cs' b)" for i
    using that branch_class [OF w(1), of b] branch_class [OF w(2), of b] by (auto simp: pair_keys_def tree_keys_def)
  show "e \<in> set (side_entries sha cs cs' b) \<Longrightarrow> fst e \<in> pair_keys (SInner cs, SInner cs') \<and> nibble (fst e) (length P) = b"
    using c by (cases "child cs b"; cases "child cs' b") (auto simp: side_entries_def branch_items_def set_trav split: if_splits)
  show "p \<in> set (side_pushes sha cs cs' b) \<Longrightarrow> k \<in> pair_keys p \<Longrightarrow> k \<in> pair_keys (SInner cs, SInner cs') \<and> nibble k (length P) = b"
    using c by (cases "child cs b"; cases "child cs' b")
      (auto simp: side_pushes_def branch_items_def split: if_splits dest!: pair_keys_item)
qed

lemma stack_ok_pushes:
  assumes "stack_ok sha ty ((SInner cs, SInner cs') # st)"
  shows "stack_ok sha ty (concat (map (side_pushes sha cs cs') (rev [0..<16])) @ st)"
proof -
  obtain P where P: "pair_ok sha ty P (SInner cs) (SInner cs')" using assms by (auto simp: stack_ok_def)
  then have w: "tree_wf ty P (SInner cs)" "tree_wf ty P (SInner cs')" by (simp_all add: pair_ok_def)
  note k = side_keys(2) [OF w]
  have "sorted_wrt disjoint_pairs (concat (map (side_pushes sha cs cs') (rev [0..<16])))"
  proof (rule sorted_wrt_concat)
    show "sorted_wrt disjoint_pairs (side_pushes sha cs cs' b)" for b by (auto simp: side_pushes_def split: option.splits)
    show "disjoint_pairs x y" if "b \<noteq> b'" "x \<in> set (side_pushes sha cs cs' b)" "y \<in> set (side_pushes sha cs cs' b')" for b b' x y
      using k [OF that(2)] k [OF that(3)] that(1) by (auto simp: disjoint_pairs_def)
  qed simp
  moreover have "\<exists>P. pair_ok sha ty P a b" if "(a, b) \<in> set (side_pushes sha cs cs' i)" for a b i
    using that pair_ok_child [OF P, of i] by (cases "child cs i"; cases "child cs' i") (auto simp: side_pushes_def split: if_splits)
  moreover have "disjoint_pairs x y" if "x \<in> set (side_pushes sha cs cs' i)" "y \<in> set st" for x y i
    using k [OF that(1)] assms that(2) by (force simp: stack_ok_def disjoint_pairs_def)
  ultimately show ?thesis using assms by (auto simp: stack_ok_def sorted_wrt_append simp del: upt_rec_numeral)
qed

lemma emit_more:
  assumes d: "distinct (map fst H)" "fst ` set H \<subseteq> K" and "distinct (map fst E)" "K \<inter> fst ` set E = {}"
  shows "distinct (map fst (H @ E))"
  using assms by auto

lemma stack_keys:
  assumes "stack_ok sha ty (p # st)" "set E = \<Union> (pair_diffs ` set st)"
  shows "pair_keys p \<inter> fst ` set E = {}"
  using assms pair_diffs_keys by (fastforce simp: stack_ok_def disjoint_pairs_def)

text \<open>What is emitted at two inner nodes has keys of its own.\<close>

lemma side_entry_fresh:
  assumes w: "tree_wf ty P (SInner cs)" "tree_wf ty P (SInner cs')" and st: "stack_ok sha ty ((SInner cs, SInner cs') # rest)"
    and x: "x \<in> set (side_entries sha cs cs' b)" and p: "p \<in> set rest \<or> (\<exists>b'. p \<in> set (side_pushes sha cs cs' b'))" "k \<in> pair_keys p"
  shows "fst x \<noteq> k"
proof (cases "p \<in> set rest")
  case True
  then have "pair_keys (SInner cs, SInner cs') \<inter> pair_keys p = {}" using st by (simp add: stack_ok_def disjoint_pairs_def)
  then show ?thesis using side_keys(1) [OF w x] p(2) by auto
next
  case False
  then obtain b' where b': "p \<in> set (side_pushes sha cs cs' b')" using p(1) by blast
  have "side_pushes sha cs cs' b = []" using x
    by (cases "child cs b"; cases "child cs' b") (auto simp: side_entries_def side_pushes_def split: if_splits)
  then have "b \<noteq> b'" using b' by auto
  then show ?thesis using side_keys(1) [OF w x] side_keys(2) [OF w b' p(2)] by auto
qed

lemma compare_inner_emit:
  assumes sha: "\<And>x. uint256_ok (sha x)"
    and hyps: "\<And>st'. sum_list (map (\<lambda>(a, b). Suc (size a)) st') < sum_list (map (\<lambda>(a, b). Suc (size a)) st) \<Longrightarrow> stack_ok sha ty st' \<Longrightarrow>
      \<exists>es. (\<forall>d m. 0 < m \<longrightarrow> compare_loop sha st' d m = emit_entries es d m) \<and> distinct (map fst es) \<and> set es = \<Union> (pair_diffs ` set st')"
    and st: "st = (SInner cs, SInner cs') # rest" "stack_ok sha ty st"
  shows "\<exists>es. (\<forall>d m. 0 < m \<longrightarrow> compare_loop sha st d m = emit_entries es d m) \<and> distinct (map fst es) \<and> set es = \<Union> (pair_diffs ` set st)"
proof -
  obtain P where P: "pair_ok sha ty P (SInner cs) (SInner cs')" using st by (auto simp: stack_ok_def)
  then have w: "tree_wf ty P (SInner cs)" "tree_wf ty P (SInner cs')" by (simp_all add: pair_ok_def)
  define st' H where "st' = concat (map (side_pushes sha cs cs') (rev [0..<16])) @ rest"
    and "H = concat (map (side_entries sha cs cs') [0..<16])"
  have ok: "stack_ok sha ty st'" using stack_ok_pushes [of sha ty cs cs' rest] st by (simp add: st'_def)
  have "sum_list (map (\<lambda>(a, b). Suc (size a)) (side_pushes sha cs cs' i)) \<le> tree_weight (child cs i)" for i
    by (cases "child cs i"; cases "child cs' i") (auto simp: side_pushes_def tree_weight_def)
  then have "sum_list (map (\<lambda>(a, b). Suc (size a)) (concat (map (side_pushes sha cs cs') bs))) \<le> sum_list (map (\<lambda>i. tree_weight (child cs i)) bs)" for bs
    by (induction bs) (auto intro: add_mono)
  from this [of "rev [0..<16]"] have "sum_list (map (\<lambda>(a, b). Suc (size a)) st') < sum_list (map (\<lambda>(a, b). Suc (size a)) st)"
    using children_weight [of cs 16] by (simp add: st(1) st'_def rev_map [symmetric] sum_list_rev del: upt_rec_numeral)
  from hyps [OF this ok] obtain E where E: "\<forall>d m. 0 < m \<longrightarrow> compare_loop sha st' d m = emit_entries E d m"
    "distinct (map fst E)" "set E = \<Union> (pair_diffs ` set st')" by blast
  have H: "distinct (map fst H)" unfolding H_def
  proof (rule distinct_keys_concat)
    show "distinct (map fst (side_entries sha cs cs' b))" for b
      using distinct_trav tree_wf_child [OF w(1), of b] tree_wf_child [OF w(2), of b]
      by (cases "child cs b"; cases "child cs' b") (auto simp: side_entries_def comp_def)
    show "fst x \<noteq> fst y" if "b \<noteq> b'" "x \<in> set (side_entries sha cs cs' b)" "y \<in> set (side_entries sha cs cs' b')" for b b' x y
      using side_keys(1) [OF w that(2)] side_keys(1) [OF w that(3)] that(1) by auto
  qed simp
  have "fst ` set H \<inter> fst ` set E = {}"
  proof -
    have "fst x \<noteq> fst y" if x: "x \<in> set (side_entries sha cs cs' b)" and y: "y \<in> set E" for x y b
    proof -
      from y E(3) obtain p where "p \<in> set st'" "fst y \<in> pair_keys p" using pair_diffs_keys by blast
      then show ?thesis using side_entry_fresh [OF w st(2) [unfolded st(1)] x, of p] by (auto simp: st'_def)
    qed
    then show ?thesis unfolding H_def by fastforce
  qed
  then have "distinct (map fst (H @ E))" using H E(2) by auto
  moreover have "compare_loop sha st d m = emit_entries (H @ E) d m" if "0 < m" for d m
  proof -
    obtain ok st'' d' m' where c: "compare_branches sha cs cs' [0..<16] rest d m = (ok, st'', d', m')"
      by (cases "compare_branches sha cs cs' [0..<16] rest d m")
    from compare_branches_emit [OF that c] have e: "emit_entries H d m = (ok, d', m')" "ok \<longrightarrow> st'' = st'"
      by (simp_all add: H_def st'_def rev_map del: upt_rec_numeral)
    then show ?thesis using c E(1) emit_pos [OF that, of H d d' m'] by (auto simp: st(1) emit_append [OF that] simp del: upt_rec_numeral)
  qed
  moreover have "set (H @ E) = \<Union> (pair_diffs ` set st)"
    using inner_pair_diffs [OF sha P] E(3) by (simp add: st(1) st'_def H_def del: upt_rec_numeral) blast
  ultimately show ?thesis by blast
qed

lemma compare_loop_emit:
  assumes sha: "\<And>x. uint256_ok (sha x)"
  shows "stack_ok sha ty st \<Longrightarrow> \<exists>es. (\<forall>d m. 0 < m \<longrightarrow> compare_loop sha st d m = emit_entries es d m) \<and>
    distinct (map fst es) \<and> set es = \<Union> (pair_diffs ` set st)"
proof (induction "sum_list (map (\<lambda>(a, b). Suc (size a)) st)" arbitrary: st rule: less_induct)
  case less
  show ?case
  proof (cases st)
    case Nil
    then show ?thesis by (intro exI [of _ "[]"]) simp
  next
    case (Cons p rest)
    obtain a b where p: "p = (a, b)" by (cases p)
    obtain P where P: "pair_ok sha ty P a b" using less.prems Cons p by (auto simp: stack_ok_def)
    have "stack_ok sha ty rest" using less.prems Cons by (simp add: stack_ok_def)
    with less.hyps [of rest] Cons p obtain E where E: "\<forall>d m. 0 < m \<longrightarrow> compare_loop sha rest d m = emit_entries E d m"
      "distinct (map fst E)" "set E = \<Union> (pair_diffs ` set rest)" by auto
    have one: ?thesis if H: "distinct (map fst H)" "set H = pair_diffs p"
      "\<And>d m. 0 < m \<Longrightarrow> compare_loop sha st d m = (case emit_entries H d m of (ok, d', m') \<Rightarrow> if ok then compare_loop sha rest d' m' else (False, d', m'))" for H
    proof (intro exI [of _ "H @ E"] conjI allI impI)
      show "compare_loop sha st d m = emit_entries (H @ E) d m" if "0 < m" for d m
        using H(3) [OF that] E(1) emit_pos [OF that, of H d] by (auto simp: emit_append [OF that] split: prod.splits)
      show "distinct (map fst (H @ E))"
        by (rule emit_more [OF H(1) _ E(2) stack_keys [of sha ty p rest]]) (use H(2) pair_diffs_keys E(3) less.prems Cons in auto)
    qed (use H(2) E(3) Cons in simp)
    show ?thesis
    proof (cases a; cases b)
      fix t i t' j assume ab: "a = SLeaf t i" "b = SLeaf t' j"
      let ?H = "if si_key i = si_key j then if i = j then [] else [changed True i j] else [unmatched True i, unmatched False j]"
      show ?thesis
        by (rule one [of ?H]) (use Cons p ab in \<open>auto simp: pair_diffs_def diffs_of_mem emit_Cons Let_def\<close>)
    next
      fix cs t' j assume ab: "a = SInner cs" "b = SLeaf t' j"
      show ?thesis
        by (rule one [of "walk_entries (Some j) True a"])
          (use Cons p ab walk_entries_spec [of ty P a j True] P walkBranch_emit in \<open>auto simp: pair_diffs_def pair_ok_def split: prod.splits\<close>)
    next
      fix t i cs' assume ab: "a = SLeaf t i" "b = SInner cs'"
      show ?thesis
        by (rule one [of "walk_entries (Some i) False b"])
          (use Cons p ab walk_entries_spec [of ty P b i False] P walkBranch_emit in \<open>auto simp: pair_diffs_def pair_ok_def split: prod.splits\<close>)
    next
      fix cs cs' assume ab: "a = SInner cs" "b = SInner cs'"
      show ?thesis by (rule compare_inner_emit [OF sha less.hyps]) (use less.prems Cons p ab in auto)
    qed
  qed
qed

section \<open>The result of a comparison\<close>

lemma delta_insert_spec:
  assumes "sorted_wrt (\<lambda>x y. uint256_less (fst x) (fst y)) d" "fst e \<notin> fst ` set d" "list_all (\<lambda>x. uint256_ok (fst x)) (e # d)"
  shows "sorted_wrt (\<lambda>x y. uint256_less (fst x) (fst y)) (delta_insert e d) \<and> set (delta_insert e d) = insert e (set d) \<and>
    length (delta_insert e d) = Suc (length d)"
  using assms
proof (induction d)
  case (Cons x d)
  have "\<not> uint256_less (fst e) (fst x) \<Longrightarrow> uint256_less (fst x) (fst e)"
    using uint256_less_linear [of "fst e" "fst x"] Cons.prems by auto
  then show ?case using Cons uint256_less_trans by (auto simp: image_iff)
qed simp

lemma delta_fold_spec:
  "sorted_wrt (\<lambda>x y. uint256_less (fst x) (fst y)) d \<Longrightarrow> distinct (map fst (es @ d)) \<Longrightarrow> list_all (\<lambda>x. uint256_ok (fst x)) (es @ d) \<Longrightarrow>
   sorted_wrt (\<lambda>x y. uint256_less (fst x) (fst y)) (fold delta_insert es d) \<and> set (fold delta_insert es d) = set es \<union> set d \<and>
   length (fold delta_insert es d) = length es + length d"
proof (induction es arbitrary: d)
  case (Cons e es)
  have s: "sorted_wrt (\<lambda>x y. uint256_less (fst x) (fst y)) (delta_insert e d) \<and> set (delta_insert e d) = insert e (set d) \<and>
    length (delta_insert e d) = Suc (length d)"
    by (rule delta_insert_spec) (use Cons.prems in auto)
  have "card (fst ` set (delta_insert e d)) = length (delta_insert e d)"
    using s Cons.prems by (simp add: distinct_card [of "map fst d", simplified] card_insert_if)
  then have "distinct (map fst (delta_insert e d))" by (simp add: card_distinct)
  then show ?case using Cons.IH [of "delta_insert e d"] s Cons.prems by (auto simp: list_all_iff)
qed simp

lemma sorted_distinct_keys: "sorted_wrt (\<lambda>x y. uint256_less (fst x) (fst y)) d \<Longrightarrow> distinct (map fst d)"
  by (induction d) auto

lemma finite_diffs: "finite A \<Longrightarrow> finite B \<Longrightarrow> finite (diffs_of A B)"
  unfolding diffs_of_entries by (rule finite_UnI)+ (auto intro!: finite_imageI intro: finite_subset [of _ "A \<times> B"])

lemma compare_spec:
  assumes sha: "\<And>x. uint256_ok (sha x)"
    and r: "shamap_inv ty r" "items_ok sha ty r" and r': "shamap_inv ty r'" "items_ok sha ty r'"
    and sep: "separated sha r r'" and m: "0 < m"
    and res: "compare sha r r' [] m = (complete, d)"
  defines "D \<equiv> diffs_of (set (tree_items r)) (set (tree_items r'))"
  shows "sorted_wrt (\<lambda>x y. uint256_less (fst x) (fst y)) d \<and> set d \<subseteq> D \<and> length d = min (card D) (nat m) \<and>
    distinct (map fst d) \<and> (complete \<longleftrightarrow> int (card D) < m) \<and> (complete \<longrightarrow> set d = D)"
proof -
  have p: "pair_ok sha ty [] r r'" using r r' sep by (simp add: pair_ok_def shamap_inv_def)
  then have "stack_ok sha ty [(r, r')]" by (auto simp: stack_ok_def)
  from compare_loop_emit [OF sha this] obtain es where es: "\<And>d m. 0 < m \<Longrightarrow> compare_loop sha [(r, r')] d m = emit_entries es d m"
    "distinct (map fst es)" "set es = D" by (auto simp: D_def pair_diffs_def)
  have card: "card D = length es" using es(2,3) distinct_card [of es] by (auto simp: distinct_map)
  have ok: "uint256_ok (fst e)" if "e \<in> D" for e
  proof -
    have "fst e \<in> si_key ` (set (tree_items r) \<union> set (tree_items r'))" using that diffs_of_keys unfolding D_def by blast
    then show ?thesis using tree_wf_item [of ty "[]" r] tree_wf_item [of ty "[]" r'] r r' by (auto simp: shamap_inv_def)
  qed
  have f: "sorted_wrt (\<lambda>x y. uint256_less (fst x) (fst y)) (fold delta_insert (take n es) []) \<and>
      set (fold delta_insert (take n es) []) = set (take n es) \<and> length (fold delta_insert (take n es) []) = min n (length es)" for n
  proof -
    have "list_all (\<lambda>x. uint256_ok (fst x)) (take n es)" using ok es(3) set_take_subset [of n es] unfolding list_all_iff by blast
    then show ?thesis using delta_fold_spec [of "[]" "take n es"] es(2) by (simp add: take_map [symmetric] min.commute)
  qed
  note sorted_distinct_keys [simp]
  show ?thesis
  proof (cases "getHash sha r = getHash sha r'")
    case True
    have "set (tree_items r) = set (tree_items r')"
      using root_hash_commits_lemma [OF sha r r'] sep True by (simp add: separated_def)
    moreover have "inj_on si_key (set (tree_items r'))" using tree_keys_inj [of ty "[]" r'] r' by (auto simp: shamap_inv_def inj_on_def)
    ultimately have "D = {}" by (simp add: D_def diffs_of_same)
    then show ?thesis using res m True by (simp add: compare_def)
  next
    case False
    then have e: "emit_entries es [] m = (complete, d, snd (snd (emit_entries es [] m)))" using res es(1) [OF m] by (auto simp: compare_def split: prod.splits)
    show ?thesis
    proof (cases "int (length es) < m")
      case True
      then show ?thesis using e f [of "length es"] card es(3) by (auto simp: emit_entries_def)
    next
      case False
      then show ?thesis using e f [of "nat m"] card es(3) m set_take_subset [of "nat m" es] by (auto simp: emit_entries_def)
    qed
  qed
qed

text \<open>
  C9: \<^verbatim>\<open>SHAMap::compare\<close> reports the differences of two maps. Where the digest separates the nodes of
  the two maps (no collision between them and no node hashed to zero), the table it fills lists, by
  increasing key, items that are in one map only or that differ between the maps, with the item of
  each map. It returns true exactly when there are fewer differences than the limit, and then the
  table is complete; otherwise the table holds as many of the differences as the limit allows.
\<close>

theorem compare_reports_differences:
  assumes sha: "\<And>x. uint256_ok (sha x)"
    and r: "shamap_inv ty r" "items_ok sha ty r" and r': "shamap_inv ty r'" "items_ok sha ty r'"
    and sep: "separated sha r r'" and m: "0 < m"
    and res: "compare sha r r' [] m = (complete, d)"
  defines "D \<equiv> diffs_of (set (tree_items r)) (set (tree_items r'))"
  shows "sorted_wrt (\<lambda>x y. uint256_less (fst x) (fst y)) d \<and> set d \<subseteq> D \<and> length d = min (card D) (nat m) \<and>
    (complete \<longleftrightarrow> int (card D) < m) \<and> (complete \<longrightarrow> set d = D)"
  unfolding D_def using compare_spec [OF sha r r' sep m res] by blast

theorem compare_reports_differences_witness:
  "\<exists>complete d. compare ex_sha (ex_map [1]) (ex_map [1, 0x11]) [] 2 = (complete, d) \<and>
     (complete \<longrightarrow> set d = diffs_of (set (tree_items (ex_map [1]))) (set (tree_items (ex_map [1, 0x11]))))"
proof -
  have sha: "\<And>x. uint256_ok (ex_sha x)" by (simp add: ex_sha_def)
  obtain complete d where c: "compare ex_sha (ex_map [1]) (ex_map [1, 0x11]) [] 2 = (complete, d)" by fastforce
  have "separated ex_sha (ex_map [1]) (ex_map [1, 0x11])" using ex_map_facts(5,6) by (simp add: separated_def)
  from compare_reports_differences [OF sha ex_map_facts(1,3,2,4) this _ c] c show ?thesis by simp
qed

end
