(* ===== verification/ConsensusProposal.thy ===== *)
theory ConsensusProposal
  imports Rippled_Prelude
begin

text \<open>
  Positions taken during a round, \<^verbatim>\<open>include/xrpl/consensus/ConsensusProposal.h\<close>. The proposal
  sequence is an unsigned 32-bit counter whose largest value means that the node left consensus.
  The digest used for signing is computed on demand and cached; the hash function (SHA-512 half,
  an OpenSSL call) is the parameter \<open>sha512Half\<close>, applied to the hashed fields.
\<close>

record ('n, 'lid, 'pos) proposal =
  pr_previousLedger :: 'lid
  pr_position :: 'pos
  pr_closeTime :: nettime
  pr_time :: nettime
  pr_proposeSeq :: "32 word"
  pr_nodeID :: 'n
  pr_signingHash :: "256 word option"

definition kSeqJoin :: "32 word" where
  "kSeqJoin = 0"

definition kSeqLeave :: "32 word" where
  "kSeqLeave = 0xffffffff"

definition ConsensusProposal_new ::
  "'lid \<Rightarrow> 32 word \<Rightarrow> 'pos \<Rightarrow> nettime \<Rightarrow> nettime \<Rightarrow> 'n \<Rightarrow> ('n, 'lid, 'pos) proposal" where
  "ConsensusProposal_new prevLedger seq position closeTime now nodeID =
     \<lparr>pr_previousLedger = prevLedger, pr_position = position, pr_closeTime = closeTime,
      pr_time = now, pr_proposeSeq = seq, pr_nodeID = nodeID, pr_signingHash = None\<rparr>"

definition isInitial :: "('n, 'lid, 'pos) proposal \<Rightarrow> bool" where
  "isInitial p \<longleftrightarrow> pr_proposeSeq p = kSeqJoin"

definition isBowOut :: "('n, 'lid, 'pos) proposal \<Rightarrow> bool" where
  "isBowOut p \<longleftrightarrow> pr_proposeSeq p = kSeqLeave"

definition isStale :: "('n, 'lid, 'pos) proposal \<Rightarrow> nettime \<Rightarrow> bool" where
  "isStale p cutoff \<longleftrightarrow> pr_time p \<le> cutoff"

definition changePosition ::
  "'pos \<Rightarrow> nettime \<Rightarrow> nettime \<Rightarrow> ('n, 'lid, 'pos) proposal \<Rightarrow> ('n, 'lid, 'pos) proposal" where
  "changePosition newPosition newCloseTime now p =
     p\<lparr>pr_signingHash := None, pr_position := newPosition, pr_closeTime := newCloseTime, pr_time := now,
       pr_proposeSeq := (if pr_proposeSeq p \<noteq> kSeqLeave then pr_proposeSeq p + 1 else pr_proposeSeq p)\<rparr>"

definition bowOut :: "nettime \<Rightarrow> ('n, 'lid, 'pos) proposal \<Rightarrow> ('n, 'lid, 'pos) proposal" where
  "bowOut now p = p\<lparr>pr_signingHash := None, pr_time := now, pr_proposeSeq := kSeqLeave\<rparr>"

type_synonym ('lid, 'pos) proposal_hash = "32 word \<Rightarrow> nettime \<Rightarrow> 'lid \<Rightarrow> 'pos \<Rightarrow> 256 word"

definition signingHash ::
  "('lid, 'pos) proposal_hash \<Rightarrow> ('n, 'lid, 'pos) proposal \<Rightarrow> ('n, 'lid, 'pos) proposal \<times> 256 word" where
  "signingHash sha512Half p =
     (case pr_signingHash p of
        Some h \<Rightarrow> (p, h)
      | None \<Rightarrow> (let h = sha512Half (pr_proposeSeq p) (pr_closeTime p) (pr_previousLedger p) (pr_position p)
                 in (p\<lparr>pr_signingHash := Some h\<rparr>, h)))"

definition proposal_eq :: "('n, 'lid, 'pos) proposal \<Rightarrow> ('n, 'lid, 'pos) proposal \<Rightarrow> bool" where
  "proposal_eq a b \<longleftrightarrow> pr_nodeID a = pr_nodeID b \<and> pr_proposeSeq a = pr_proposeSeq b \<and>
     pr_previousLedger a = pr_previousLedger b \<and> pr_position a = pr_position b \<and>
     pr_closeTime a = pr_closeTime b \<and> pr_time a = pr_time b"

section \<open>Lemmas\<close>

lemma changePosition_simps [simp]:
  "pr_position (changePosition x c n p) = x" "pr_closeTime (changePosition x c n p) = c"
  "pr_time (changePosition x c n p) = n" "pr_nodeID (changePosition x c n p) = pr_nodeID p"
  "pr_previousLedger (changePosition x c n p) = pr_previousLedger p"
  by (simp_all add: changePosition_def)

lemma bowOut_simps [simp]:
  "pr_position (bowOut n p) = pr_position p" "pr_closeTime (bowOut n p) = pr_closeTime p"
  "pr_nodeID (bowOut n p) = pr_nodeID p" "pr_previousLedger (bowOut n p) = pr_previousLedger p"
  "isBowOut (bowOut n p)"
  by (simp_all add: bowOut_def isBowOut_def)

lemma signingHash_simps [simp]:
  "pr_position (fst (signingHash H p)) = pr_position p"
  "pr_closeTime (fst (signingHash H p)) = pr_closeTime p"
  "pr_proposeSeq (fst (signingHash H p)) = pr_proposeSeq p"
  "pr_previousLedger (fst (signingHash H p)) = pr_previousLedger p"
  "pr_nodeID (fst (signingHash H p)) = pr_nodeID p"
  by (simp_all add: signingHash_def Let_def split: option.splits)

lemma kSeqLeave_max: "kSeqLeave = - 1"
  by (simp add: kSeqLeave_def)

lemma seq_step: "s \<noteq> kSeqLeave \<Longrightarrow> unat (s + 1) = Suc (unat s)"
proof -
  assume "s \<noteq> kSeqLeave"
  then have "1 + s \<noteq> 0"
    by (auto simp: kSeqLeave_max add_eq_0_iff)
  then show ?thesis using unatSuc [of s] by (simp add: add.commute)
qed

lemma seq_le_leave: "s \<le> kSeqLeave"
  by (simp add: kSeqLeave_max)

text \<open>The life of a node's own position: changes, requests for the digest and the bow-out.\<close>

inductive proposal_run ::
  "('lid, 'pos) proposal_hash \<Rightarrow> ('n, 'lid, 'pos) proposal \<Rightarrow> ('n, 'lid, 'pos) proposal \<Rightarrow> bool"
  for H p where
  start: "proposal_run H p p"
| change: "proposal_run H p q \<Longrightarrow> proposal_run H p (changePosition x c n q)"
| leave: "proposal_run H p q \<Longrightarrow> proposal_run H p (bowOut n q)"
| sign: "proposal_run H p q \<Longrightarrow> proposal_run H p (fst (signingHash H q))"

definition hash_fresh :: "('lid, 'pos) proposal_hash \<Rightarrow> ('n, 'lid, 'pos) proposal \<Rightarrow> bool" where
  "hash_fresh H p \<longleftrightarrow> (\<forall>h. pr_signingHash p = Some h \<longrightarrow>
     h = H (pr_proposeSeq p) (pr_closeTime p) (pr_previousLedger p) (pr_position p))"

lemma proposal_run_fresh: "proposal_run H p q \<Longrightarrow> hash_fresh H p \<Longrightarrow> hash_fresh H q"
  by (induction rule: proposal_run.induct)
    (auto simp: hash_fresh_def changePosition_def bowOut_def signingHash_def Let_def split: option.splits)

lemma changePosition_seq: "pr_proposeSeq p \<le> pr_proposeSeq (changePosition x c n p)"
proof (cases "pr_proposeSeq p = kSeqLeave")
  case False
  then show ?thesis
    using seq_step [OF False] by (simp add: changePosition_def word_le_nat_alt)
qed (simp add: changePosition_def)

lemma proposal_run_seq: "proposal_run H p q \<Longrightarrow> pr_proposeSeq p \<le> pr_proposeSeq q"
proof (induction rule: proposal_run.induct)
  case (change q x c n)
  show ?case by (rule order_trans [OF change.IH changePosition_seq])
qed (auto simp: bowOut_def seq_le_leave)

text \<open>
  Whatever happened to a node's position since its creation, the digest it signs is the digest
  of its present contents (the cache is never stale), its sequence number never went down, and once
  it has left consensus it stays out.
\<close>

theorem proposal_digest_current:
  assumes "proposal_run H (ConsensusProposal_new lid s pos ct now n) q"
  shows "snd (signingHash H q) = H (pr_proposeSeq q) (pr_closeTime q) (pr_previousLedger q) (pr_position q) \<and>
    s \<le> pr_proposeSeq q \<and> pr_previousLedger q = lid \<and> pr_nodeID q = n \<and>
    (isBowOut q \<longrightarrow> isBowOut (changePosition x c m q))"
proof -
  have "hash_fresh H q"
    using proposal_run_fresh [OF assms] by (simp add: hash_fresh_def ConsensusProposal_new_def)
  moreover have "s \<le> pr_proposeSeq q"
    using proposal_run_seq [OF assms] by (simp add: ConsensusProposal_new_def)
  moreover have "pr_previousLedger q = lid \<and> pr_nodeID q = n"
    using assms by (induction rule: proposal_run.induct) (simp_all add: ConsensusProposal_new_def)
  ultimately show ?thesis
    by (auto simp: hash_fresh_def signingHash_def Let_def isBowOut_def changePosition_def split: option.splits)
qed

theorem proposal_digest_current_witness:
  "let H = (\<lambda>s c l x. of_nat (unat s + unat c + l + x));
       q = changePosition 5 30 8 (fst (signingHash H (ConsensusProposal_new (1::nat) 0 (4::nat) 20 7 (9::nat))))
   in proposal_run H (ConsensusProposal_new 1 0 4 20 7 9) q \<and> snd (signingHash H q) = 37"
proof -
  define H :: "32 word \<Rightarrow> nettime \<Rightarrow> nat \<Rightarrow> nat \<Rightarrow> 256 word"
    where "H = (\<lambda>s c l x. of_nat (unat s + unat c + l + x))"
  let ?p = "ConsensusProposal_new (1::nat) 0 (4::nat) 20 7 (9::nat)"
  let ?q = "changePosition 5 30 8 (fst (signingHash H ?p))"
  have r: "proposal_run H ?p ?q" by (intro proposal_run.intros)
  have "snd (signingHash H ?q) = 37"
    using proposal_digest_current [OF r]
    by (simp add: H_def ConsensusProposal_new_def changePosition_def kSeqLeave_def signingHash_def)
  then show ?thesis using r by (simp add: H_def)
qed

end
