(* ===== verification/ConsensusParms.thy ===== *)
theory ConsensusParms
  imports Rippled_Prelude
begin

text \<open>
  The consensus parameters and the avalanche schedule, \<^verbatim>\<open>include/xrpl/consensus/ConsensusParms.h\<close>.
  The record \<open>consensus_parms\<close> carries the scalar parameters, \<open>ConsensusParms\<close> their values; the
  cutoff table is a total function on the four avalanche states, so that \<^verbatim>\<open>at()\<close> finds every
  state. Percentages and counters are compared with signed values in the code and are \<open>int\<close> or
  \<open>nat\<close> here; seconds and milliseconds are \<open>int\<close>.
\<close>

datatype AvalancheState = AvInit | AvMid | AvLate | AvStuck

record avalanche_cutoff =
  consensusTime :: int
  consensusPct :: int
  av_next :: AvalancheState

record consensus_parms =
  validationValidWall :: int
  validationValidLocal :: int
  validationValidEarly :: int
  proposeFRESHNESS :: int
  proposeINTERVAL :: int
  minConsensusPct :: nat
  ledgerIdleInterval :: msecs
  ledgerMinConsensus :: msecs
  ledgerMaxConsensus :: msecs
  ledgerMinClose :: msecs
  ledgerGRANULARITY :: msecs
  ledgerAbandonConsensusFactor :: nat
  ledgerAbandonConsensus :: msecs
  avMinConsensusTime :: msecs
  avCtConsensusPct :: int
  avMinRounds :: nat
  avStalledRounds :: nat

definition ConsensusParms :: consensus_parms where
  "ConsensusParms =
     \<lparr>validationValidWall = 300, validationValidLocal = 180, validationValidEarly = 180,
      proposeFRESHNESS = 20, proposeINTERVAL = 12, minConsensusPct = 80,
      ledgerIdleInterval = 15000, ledgerMinConsensus = 1950, ledgerMaxConsensus = 15000,
      ledgerMinClose = 2000, ledgerGRANULARITY = 1000, ledgerAbandonConsensusFactor = 10,
      ledgerAbandonConsensus = 120000, avMinConsensusTime = 5000, avCtConsensusPct = 75,
      avMinRounds = 2, avStalledRounds = 4\<rparr>"

fun avalancheCutoffs :: "AvalancheState \<Rightarrow> avalanche_cutoff" where
  "avalancheCutoffs AvInit = \<lparr>consensusTime = 0, consensusPct = 50, av_next = AvMid\<rparr>"
| "avalancheCutoffs AvMid = \<lparr>consensusTime = 50, consensusPct = 65, av_next = AvLate\<rparr>"
| "avalancheCutoffs AvLate = \<lparr>consensusTime = 85, consensusPct = 70, av_next = AvStuck\<rparr>"
| "avalancheCutoffs AvStuck = \<lparr>consensusTime = 200, consensusPct = 95, av_next = AvStuck\<rparr>"

definition avalancheCutoffs_size :: nat where
  "avalancheCutoffs_size = length [AvInit, AvMid, AvLate, AvStuck]"

definition getNeededWeight ::
  "AvalancheState \<Rightarrow> int \<Rightarrow> nat \<Rightarrow> nat \<Rightarrow> int \<times> AvalancheState option" where
  "getNeededWeight currentState percentTime currentRounds minimumRounds =
     (let currentCutoff = avalancheCutoffs currentState;
          nextCutoff = avalancheCutoffs (av_next currentCutoff)
      in if av_next currentCutoff \<noteq> currentState \<and> minimumRounds \<le> currentRounds \<and>
            consensusTime nextCutoff \<le> percentTime
         then (consensusPct nextCutoff, Some (av_next currentCutoff))
         else (consensusPct currentCutoff, None))"

text \<open>The rank of a state along the schedule.\<close>

fun av_rank :: "AvalancheState \<Rightarrow> nat" where
  "av_rank AvInit = 0"
| "av_rank AvMid = 1"
| "av_rank AvLate = 2"
| "av_rank AvStuck = 3"

definition av_after :: "AvalancheState \<Rightarrow> AvalancheState option \<Rightarrow> AvalancheState" where
  "av_after s ns = (case ns of None \<Rightarrow> s | Some s' \<Rightarrow> s')"

lemma getNeededWeight_pct:
  "fst (getNeededWeight s t n m) = consensusPct (avalancheCutoffs (av_after s (snd (getNeededWeight s t n m))))"
  by (simp add: getNeededWeight_def av_after_def Let_def)

lemma getNeededWeight_rank:
  "av_rank s \<le> av_rank (av_after s (snd (getNeededWeight s t n m)))"
  "av_rank (av_after s (snd (getNeededWeight s t n m))) \<le> Suc (av_rank s)"
  by (cases s; simp add: getNeededWeight_def av_after_def Let_def)+

lemma consensusPct_mono: "av_rank s \<le> av_rank s' \<Longrightarrow>
    consensusPct (avalancheCutoffs s) \<le> consensusPct (avalancheCutoffs s')"
  by (cases s; cases s') auto

lemma consensusPct_range: "50 \<le> consensusPct (avalancheCutoffs s)" "consensusPct (avalancheCutoffs s) \<le> 95"
  by (cases s; simp)+

lemma getNeededWeight_range:
  "50 \<le> fst (getNeededWeight s t n m)" "fst (getNeededWeight s t n m) \<le> 95"
  by (simp_all add: getNeededWeight_pct consensusPct_range)

lemma getNeededWeight_mono: "consensusPct (avalancheCutoffs s) \<le> fst (getNeededWeight s t n m)"
  by (simp add: getNeededWeight_pct consensusPct_mono getNeededWeight_rank)

text \<open>The assertion of the code, \<^verbatim>\<open>nextCutoff.consensusTime >= currentCutoff.consensusTime\<close>.\<close>

lemma next_state_valid:
  "consensusTime (avalancheCutoffs s) \<le> consensusTime (avalancheCutoffs (av_next (avalancheCutoffs s)))"
  by (cases s) auto

end
