(* ===== verification/DisputedTx.thy ===== *)
theory DisputedTx
  imports ConsensusParms
begin

text \<open>
  A disputed transaction, \<^verbatim>\<open>include/xrpl/consensus/DisputedTx.h\<close>: the vote table of the peers, the
  running counts of yes and no votes, our own vote and its avalanche state. The constructor, the
  vote operations, the avalanche update of our vote and the stall test are modelled; the journal
  and \<^verbatim>\<open>getJson\<close> only produce text. The counts are \<open>int\<close>: they stay below the number of peers.
\<close>

record ('tx, 'n) disputed_tx =
  dt_yays :: int
  dt_nays :: int
  dt_ourVote :: bool
  dt_tx :: 'tx
  dt_votes :: "('n, bool) hm"
  dt_currentVoteCounter :: nat
  dt_avalancheState :: AvalancheState
  dt_avalancheCounter :: nat

definition DisputedTx_new :: "'tx \<Rightarrow> bool \<Rightarrow> ('tx, 'n) disputed_tx" where
  "DisputedTx_new tx ourVote =
     \<lparr>dt_yays = 0, dt_nays = 0, dt_ourVote = ourVote, dt_tx = tx, dt_votes = [],
      dt_currentVoteCounter = 0, dt_avalancheState = AvInit, dt_avalancheCounter = 0\<rparr>"

definition setVote :: "'n \<Rightarrow> bool \<Rightarrow> ('tx, 'n) disputed_tx \<Rightarrow> ('tx, 'n) disputed_tx \<times> bool" where
  "setVote peer votesYes d =
     (case hm_emplace (dt_votes d) peer votesYes of
        (vs, True) \<Rightarrow>
          (if votesYes then d\<lparr>dt_votes := vs, dt_yays := dt_yays d + 1\<rparr>
           else d\<lparr>dt_votes := vs, dt_nays := dt_nays d + 1\<rparr>, True)
      | (vs, False) \<Rightarrow>
          (let old = hm_find (dt_votes d) peer
           in if votesYes \<and> old = Some False
              then (d\<lparr>dt_nays := dt_nays d - 1, dt_yays := dt_yays d + 1,
                      dt_votes := hm_assign (dt_votes d) peer True\<rparr>, True)
              else if \<not> votesYes \<and> old = Some True
              then (d\<lparr>dt_nays := dt_nays d + 1, dt_yays := dt_yays d - 1,
                      dt_votes := hm_assign (dt_votes d) peer False\<rparr>, True)
              else (d, False)))"

definition unVote :: "'n \<Rightarrow> ('tx, 'n) disputed_tx \<Rightarrow> ('tx, 'n) disputed_tx" where
  "unVote peer d =
     (case hm_find (dt_votes d) peer of
        None \<Rightarrow> d
      | Some v \<Rightarrow>
          (if v then d\<lparr>dt_yays := dt_yays d - 1, dt_votes := hm_erase (dt_votes d) peer\<rparr>
           else d\<lparr>dt_nays := dt_nays d - 1, dt_votes := hm_erase (dt_votes d) peer\<rparr>))"

definition updateVote ::
  "int \<Rightarrow> bool \<Rightarrow> consensus_parms \<Rightarrow> ('tx, 'n) disputed_tx \<Rightarrow> ('tx, 'n) disputed_tx \<times> bool" where
  "updateVote percentTime proposing p d =
     (if dt_ourVote d \<and> dt_nays d = 0 then (d, False)
      else if \<not> dt_ourVote d \<and> dt_yays d = 0 then (d, False)
      else
        let counter = Suc (dt_avalancheCounter d);
            (requiredPct, newState) =
              getNeededWeight (dt_avalancheState d) percentTime counter (avMinRounds p);
            d1 = (case newState of
                    None \<Rightarrow> d\<lparr>dt_avalancheCounter := counter\<rparr>
                  | Some s \<Rightarrow> d\<lparr>dt_avalancheState := s, dt_avalancheCounter := 0\<rparr>);
            newPosition =
              (if proposing
               then (dt_yays d * 100 + (if dt_ourVote d then 100 else 0)) sdiv
                      (dt_nays d + dt_yays d + 1) > requiredPct
               else dt_yays d > dt_nays d)
        in if newPosition = dt_ourVote d
           then (d1\<lparr>dt_currentVoteCounter := Suc (dt_currentVoteCounter d)\<rparr>, False)
           else (d1\<lparr>dt_currentVoteCounter := 0, dt_ourVote := newPosition\<rparr>, True))"

definition stalled :: "consensus_parms \<Rightarrow> bool \<Rightarrow> nat \<Rightarrow> ('tx, 'n) disputed_tx \<Rightarrow> bool" where
  "stalled p proposing peersUnchanged d =
     (let currentCutoff = avalancheCutoffs (dt_avalancheState d);
          nextCutoff = avalancheCutoffs (av_next currentCutoff)
      in if consensusTime nextCutoff > consensusTime currentCutoff \<or>
            dt_avalancheCounter d < avMinRounds p
         then False
         else if proposing \<and> dt_currentVoteCounter d < avMinRounds p then False
         else if peersUnchanged < avStalledRounds p \<and>
                 (proposing \<and> dt_currentVoteCounter d < avStalledRounds p)
         then False
         else
           let support = (dt_yays d + (if proposing \<and> dt_ourVote d then 1 else 0)) * 100;
               total = dt_nays d + dt_yays d + (if proposing then 1 else 0)
           in if total = 0 then False
              else let weight = support sdiv total
                   in weight > int (minConsensusPct p) \<or> weight < 100 - int (minConsensusPct p))"

section \<open>The counts are the counts of the vote table\<close>

definition count_votes :: "bool \<Rightarrow> ('n, bool) hm \<Rightarrow> int" where
  "count_votes b vs = int (length (filter (\<lambda>(_, v). v = b) vs))"

definition dt_wf :: "('tx, 'n) disputed_tx \<Rightarrow> bool" where
  "dt_wf d \<longleftrightarrow> hm_wf (dt_votes d) \<and> dt_yays d = count_votes True (dt_votes d) \<and>
     dt_nays d = count_votes False (dt_votes d)"

lemma count_votes_nonneg [simp]: "0 \<le> count_votes b vs"
  by (simp add: count_votes_def)

lemma count_votes_Nil [simp]: "count_votes b [] = 0"
  by (simp add: count_votes_def)

lemma count_votes_Cons [simp]:
  "count_votes b ((k, v) # vs) = (if v = b then 1 else 0) + count_votes b vs"
  by (simp add: count_votes_def)

lemma count_votes_append [simp]: "count_votes b (vs @ ws) = count_votes b vs + count_votes b ws"
  by (simp add: count_votes_def)

lemma count_votes_total: "count_votes True vs + count_votes False vs = int (length vs)"
  by (induction vs) auto

lemma count_votes_assign:
  "hm_wf vs \<Longrightarrow> hm_find vs k = Some w \<Longrightarrow>
   count_votes b (hm_assign vs k v) =
     count_votes b vs - (if w = b then 1 else 0) + (if v = b then 1 else 0)"
  by (induction vs)
    (auto simp: hm_assign_def hm_find_def hm_wf_def split: if_splits)

lemma count_votes_delete_absent: "k \<notin> fst ` set vs \<Longrightarrow> count_votes b (AList.delete k vs) = count_votes b vs"
  by (induction vs) auto

lemma count_votes_erase:
  "hm_wf vs \<Longrightarrow> hm_find vs k = Some w \<Longrightarrow>
   count_votes b (hm_erase vs k) = count_votes b vs - (if w = b then 1 else 0)"
  by (induction vs)
    (auto simp: hm_erase_def hm_find_def hm_wf_def count_votes_delete_absent split: if_splits)

lemma dt_wf_new [simp]: "dt_wf (DisputedTx_new tx v)"
  by (simp add: dt_wf_def DisputedTx_new_def hm_simps)

lemma setVote_cases:
  obtains (new) "hm_find (dt_votes d) peer = None"
      "setVote peer v d = (if v then d\<lparr>dt_votes := dt_votes d @ [(peer, v)], dt_yays := dt_yays d + 1\<rparr>
         else d\<lparr>dt_votes := dt_votes d @ [(peer, v)], dt_nays := dt_nays d + 1\<rparr>, True)"
    | (same) "hm_find (dt_votes d) peer = Some v" "setVote peer v d = (d, False)"
    | (flip) "hm_find (dt_votes d) peer = Some (\<not> v)"
      "setVote peer v d =
         (d\<lparr>dt_nays := dt_nays d + (if v then - 1 else 1), dt_yays := dt_yays d + (if v then 1 else - 1),
            dt_votes := hm_assign (dt_votes d) peer v\<rparr>, True)"
  by (cases "hm_find (dt_votes d) peer"; cases v)
    (auto simp: setVote_def hm_emplace_def hm_find_def Let_def split: option.splits)

lemma setVote_wf: "dt_wf d \<Longrightarrow> dt_wf (fst (setVote peer v d))"
proof (cases rule: setVote_cases [of d peer v])
  case new
  then show "dt_wf d \<Longrightarrow> ?thesis"
    by (auto simp: dt_wf_def hm_wf_def hm_find_def map_of_eq_None_iff)
next
  case flip
  then show "dt_wf d \<Longrightarrow> ?thesis"
    by (auto simp: dt_wf_def count_votes_assign hm_simps)
qed simp

lemma unVote_wf: "dt_wf d \<Longrightarrow> dt_wf (unVote peer d)"
  by (auto simp: unVote_def dt_wf_def count_votes_erase hm_simps split: option.splits)

lemma updateVote_frame [simp]:
  "dt_votes (fst (updateVote t pr p d)) = dt_votes d"
  "dt_yays (fst (updateVote t pr p d)) = dt_yays d"
  "dt_nays (fst (updateVote t pr p d)) = dt_nays d"
  "dt_tx (fst (updateVote t pr p d)) = dt_tx d"
  by (auto simp: updateVote_def Let_def split: prod.splits option.splits)

lemma updateVote_wf: "dt_wf d \<Longrightarrow> dt_wf (fst (updateVote t pr p d))"
  by (simp add: dt_wf_def)

lemma setVote_find:
  "hm_find (dt_votes (fst (setVote peer v d))) q = (if q = peer then Some v else hm_find (dt_votes d) q)"
  by (cases rule: setVote_cases [of d peer v])
    (auto simp: hm_simps split: option.splits)

lemma setVote_changed: "snd (setVote peer v d) \<longleftrightarrow> hm_find (dt_votes d) peer \<noteq> Some v"
  by (cases rule: setVote_cases [of d peer v]) auto

lemma setVote_frame [simp]:
  "dt_tx (fst (setVote peer v d)) = dt_tx d"
  "dt_ourVote (fst (setVote peer v d)) = dt_ourVote d"
  "dt_avalancheState (fst (setVote peer v d)) = dt_avalancheState d"
  "dt_avalancheCounter (fst (setVote peer v d)) = dt_avalancheCounter d"
  "dt_currentVoteCounter (fst (setVote peer v d)) = dt_currentVoteCounter d"
  by (cases rule: setVote_cases [of d peer v]; auto)+

lemma unVote_find:
  "hm_find (dt_votes (unVote peer d)) q = (if q = peer then None else hm_find (dt_votes d) q)"
  by (auto simp: unVote_def hm_simps split: option.splits)

lemma unVote_frame [simp]:
  "dt_tx (unVote peer d) = dt_tx d" "dt_ourVote (unVote peer d) = dt_ourVote d"
  by (auto simp: unVote_def split: option.splits)

lemma updateVote_changed: "snd (updateVote t pr p d) \<longleftrightarrow> dt_ourVote (fst (updateVote t pr p d)) \<noteq> dt_ourVote d"
  by (auto simp: updateVote_def Let_def split: prod.splits option.splits)

section \<open>Runs of a dispute\<close>

text \<open>The states a dispute goes through between its creation and the end of the round.\<close>

inductive dispute_run :: "('tx, 'n) disputed_tx \<Rightarrow> ('tx, 'n) disputed_tx \<Rightarrow> bool" for d where
  run_refl: "dispute_run d d"
| run_set: "dispute_run d d' \<Longrightarrow> dispute_run d (fst (setVote peer v d'))"
| run_un: "dispute_run d d' \<Longrightarrow> dispute_run d (unVote peer d')"
| run_update: "dispute_run d d' \<Longrightarrow> dispute_run d (fst (updateVote t pr p d'))"

lemma unVote_avalanche [simp]: "dt_avalancheState (unVote peer d) = dt_avalancheState d"
  by (auto simp: unVote_def split: option.splits)

lemma updateVote_rank: "av_rank (dt_avalancheState d) \<le> av_rank (dt_avalancheState (fst (updateVote t pr p d)))"
  using getNeededWeight_rank(1) [of "dt_avalancheState d" t "Suc (dt_avalancheCounter d)" "avMinRounds p"]
  by (auto simp: updateVote_def Let_def av_after_def split: prod.splits option.splits)

lemma dispute_run_rank:
  "dispute_run d d' \<Longrightarrow> av_rank (dt_avalancheState d) \<le> av_rank (dt_avalancheState d')"
  by (induction rule: dispute_run.induct) (auto intro: order_trans [OF _ updateVote_rank])

lemma dispute_run_wf: "dispute_run d d' \<Longrightarrow> dt_wf d \<Longrightarrow> dt_wf d'"
  by (induction rule: dispute_run.induct) (auto intro: setVote_wf unVote_wf updateVote_wf)

text \<open>
  C35: through every sequence of vote changes, withdrawals and avalanche updates after its creation
  a dispute keeps its counts exact: \<open>yays\<close> and \<open>nays\<close> are the numbers of yes and no entries of
  the vote table, together the number of voting peers.
\<close>

theorem dispute_counts_exact:
  assumes "dispute_run (DisputedTx_new tx v) d"
  shows "dt_yays d = count_votes True (dt_votes d) \<and> dt_nays d = count_votes False (dt_votes d) \<and>
    dt_yays d + dt_nays d = int (length (dt_votes d)) \<and> hm_wf (dt_votes d)"
proof -
  have "dt_wf d"
    using dispute_run_wf [OF assms] by simp
  then show ?thesis
    by (simp add: dt_wf_def count_votes_total)
qed

theorem dispute_counts_exact_witness:
  "dispute_run (DisputedTx_new (7::nat) True)
     (unVote (1::nat) (fst (setVote 2 False (fst (setVote 1 True (DisputedTx_new 7 True)))))) \<and>
   dt_nays (unVote (1::nat) (fst (setVote 2 False (fst (setVote 1 True (DisputedTx_new (7::nat) True)))))) =
     count_votes False (dt_votes (unVote (1::nat) (fst (setVote 2 False (fst (setVote 1 True (DisputedTx_new (7::nat) True)))))))"
proof -
  have r: "dispute_run (DisputedTx_new (7::nat) True)
     (unVote (1::nat) (fst (setVote 2 False (fst (setVote 1 True (DisputedTx_new 7 True))))))"
    by (intro dispute_run.intros)
  show ?thesis using r dispute_counts_exact [OF r] by blast
qed

section \<open>What an avalanche update decides\<close>

lemma sdiv_nonneg: "0 \<le> a \<Longrightarrow> 0 \<le> b \<Longrightarrow> a sdiv b = a div (b::int)"
  by (cases "a = 0"; cases "b = 0") (auto simp: signed_divide_int_def)

lemma le_div_iff: "0 < (b::int) \<Longrightarrow> c \<le> a div b \<longleftrightarrow> c * b \<le> a"
proof
  assume b: "0 < b" and "c \<le> a div b"
  then have "c * b \<le> a div b * b" by simp
  also have "\<dots> \<le> a" using b by (simp add: minus_mod_eq_div_mult [symmetric])
  finally show "c * b \<le> a" .
next
  assume b: "0 < b" and "c * b \<le> a"
  then have "c * b div b \<le> a div b" by (intro zdiv_mono1) auto
  then show "c \<le> a div b" using b by simp
qed

lemma div_gt_iff: "0 < (b::int) \<Longrightarrow> c < a div b \<longleftrightarrow> (c + 1) * b \<le> a"
  using le_div_iff [of b "c + 1" a] by auto

lemma div_less_iff: "0 < (b::int) \<Longrightarrow> a div b < c \<longleftrightarrow> a < c * b"
  using le_div_iff [of b c a] by auto

text \<open>
  A proposing node that is not already unopposed adopts \<open>yes\<close> exactly when the yes votes, its
  own included, exceed the required percentage of all votes by the code's integer rounding, and that
  percentage never falls along the dispute's avalanche schedule.
\<close>

theorem updateVote_proposing:
  assumes "dt_wf d" and "dt_ourVote d \<Longrightarrow> 0 < dt_nays d" and "\<not> dt_ourVote d \<Longrightarrow> 0 < dt_yays d"
    and "updateVote t True p d = (d', changed)"
  shows "(dt_ourVote d' \<longleftrightarrow>
      (consensusPct (avalancheCutoffs (dt_avalancheState d')) + 1) * (int (length (dt_votes d)) + 1)
        \<le> 100 * (dt_yays d + (if dt_ourVote d then 1 else 0))) \<and>
    consensusPct (avalancheCutoffs (dt_avalancheState d)) \<le> consensusPct (avalancheCutoffs (dt_avalancheState d')) \<and>
    (changed \<longleftrightarrow> dt_ourVote d' \<noteq> dt_ourVote d)"
proof -
  have d': "d' = fst (updateVote t True p d)" and ch: "changed = snd (updateVote t True p d)"
    using assms(4) by auto
  obtain pct ns where w: "getNeededWeight (dt_avalancheState d) t (Suc (dt_avalancheCounter d)) (avMinRounds p) = (pct, ns)"
    by fastforce
  have st: "dt_avalancheState d' = av_after (dt_avalancheState d) ns"
    using assms(2,3) w unfolding d'
    by (auto simp: updateVote_def Let_def av_after_def split: option.splits)
  have pct: "pct = consensusPct (avalancheCutoffs (dt_avalancheState d'))"
    using getNeededWeight_pct [of "dt_avalancheState d" t "Suc (dt_avalancheCounter d)" "avMinRounds p"] w st
    by simp
  have nn: "0 \<le> dt_yays d" "0 \<le> dt_nays d" "dt_nays d + dt_yays d + 1 = int (length (dt_votes d)) + 1"
    using assms(1) by (auto simp: dt_wf_def simp flip: count_votes_total)
  have "dt_ourVote d' \<longleftrightarrow>
      pct < (dt_yays d * 100 + (if dt_ourVote d then 100 else 0)) sdiv (dt_nays d + dt_yays d + 1)"
    using assms(2,3) w unfolding d'
    by (auto simp: updateVote_def Let_def split: option.splits)
  also have "\<dots> \<longleftrightarrow> (pct + 1) * (int (length (dt_votes d)) + 1) \<le> 100 * (dt_yays d + (if dt_ourVote d then 1 else 0))"
    using nn by (subst sdiv_nonneg) (auto simp: div_gt_iff algebra_simps)
  finally show ?thesis
    using pct consensusPct_mono [OF updateVote_rank, of d t True p] updateVote_changed [of t True p d]
    unfolding d' ch by simp
qed

theorem updateVote_proposing_witness:
  "let d = fst (setVote (2::nat) True (fst (setVote 1 True (DisputedTx_new (7::nat) False)))) in
     dt_wf d \<and> 0 < dt_yays d \<and> dt_ourVote (fst (updateVote 10 True ConsensusParms d))"
proof -
  let ?d = "fst (setVote (2::nat) True (fst (setVote 1 True (DisputedTx_new (7::nat) False))))"
  have d: "?d = \<lparr>dt_yays = 2, dt_nays = 0, dt_ourVote = False, dt_tx = 7, dt_votes = [(1, True), (2, True)],
      dt_currentVoteCounter = 0, dt_avalancheState = AvInit, dt_avalancheCounter = 0\<rparr>"
    by (simp add: setVote_def DisputedTx_new_def hm_emplace_def)
  have wf: "dt_wf ?d" by (intro setVote_wf dt_wf_new)
  obtain d' c where u: "updateVote 10 True ConsensusParms ?d = (d', c)" by fastforce
  have s: "dt_avalancheState d' = AvInit"
    using u unfolding d
    by (auto simp: updateVote_def getNeededWeight_def ConsensusParms_def Let_def split: if_splits)
  have "dt_ourVote d'"
    using updateVote_proposing [OF wf _ _ u] s unfolding d by simp
  then show ?thesis
    using wf u unfolding d Let_def by simp
qed

text \<open>
  Convergence on unanimous peers: a proposing node whose peers all vote no drops the
  transaction whatever its avalanche state; one with at least 24 peers that all vote yes adopts it.
\<close>

theorem updateVote_unanimous:
  assumes "dt_wf d" and "dt_votes d \<noteq> []"
  shows "(dt_yays d = 0 \<longrightarrow> \<not> dt_ourVote (fst (updateVote t True p d))) \<and>
    (dt_nays d = 0 \<longrightarrow> 24 \<le> length (dt_votes d) \<longrightarrow> dt_ourVote (fst (updateVote t True p d)))"
proof -
  obtain pct ns where w: "getNeededWeight (dt_avalancheState d) t (Suc (dt_avalancheCounter d)) (avMinRounds p) = (pct, ns)"
    by fastforce
  have pct: "50 \<le> pct" "pct \<le> 95"
    using getNeededWeight_range [of "dt_avalancheState d" t "Suc (dt_avalancheCounter d)" "avMinRounds p"] w
    by simp_all
  have nn: "0 \<le> dt_yays d" "0 \<le> dt_nays d" "dt_yays d + dt_nays d = int (length (dt_votes d))"
    using assms(1) by (auto simp: dt_wf_def simp flip: count_votes_total)
  have pos: "1 \<le> int (length (dt_votes d))"
    using assms(2) by (cases "dt_votes d") auto
  have no: "\<not> pct < (if dt_ourVote d then 100 else 0) sdiv (dt_nays d + 1)" if "dt_yays d = 0"
  proof -
    have "51 * 2 \<le> (pct + 1) * (dt_nays d + 1)"
      using pct pos nn that by (intro mult_mono) auto
    then show ?thesis using nn(2) by (subst sdiv_nonneg) (auto simp: div_gt_iff)
  qed
  have yes: "pct < (dt_yays d * 100 + (if dt_ourVote d then 100 else 0)) sdiv (dt_yays d + 1)"
    if "dt_nays d = 0" "24 \<le> length (dt_votes d)"
  proof -
    have "(pct + 1) * (dt_yays d + 1) \<le> 96 * (dt_yays d + 1)"
      using pct nn(1) by (intro mult_right_mono) auto
    also have "\<dots> \<le> dt_yays d * 100" using that nn by simp
    finally show ?thesis
      using nn(1) by (subst sdiv_nonneg) (auto simp: div_gt_iff)
  qed
  show ?thesis
    using w no yes nn pos by (auto simp: updateVote_def Let_def split: option.splits)
qed

theorem updateVote_unanimous_witness:
  "let d = fst (setVote (1::nat) False (DisputedTx_new (7::nat) True)) in
     dt_wf d \<and> dt_votes d \<noteq> [] \<and> dt_yays d = 0 \<and> \<not> dt_ourVote (fst (updateVote 10 True ConsensusParms d))"
proof -
  let ?d = "fst (setVote (1::nat) False (DisputedTx_new (7::nat) True))"
  have wf: "dt_wf ?d" by (intro setVote_wf dt_wf_new)
  have ne: "dt_votes ?d \<noteq> []" and y: "dt_yays ?d = 0"
    by (simp_all add: setVote_def DisputedTx_new_def hm_emplace_def)
  show ?thesis using wf ne y updateVote_unanimous [OF wf ne] by simp
qed

text \<open>
  C36: a dispute counts as stalled only on a lopsided vote: more than 80 percent of the counted votes
  (ours included when we propose) are on one side, so a minority of peers cannot end the round by
  stalling a transaction.
\<close>

theorem stalled_lopsided:
  assumes "dt_wf d" and "stalled ConsensusParms proposing n d"
  shows "\<exists>yes no. yes = dt_yays d + (if proposing \<and> dt_ourVote d then 1 else 0) \<and>
     no = dt_nays d + (if proposing \<and> \<not> dt_ourVote d then 1 else 0) \<and>
     (80 * (yes + no) < 100 * yes \<or> 80 * (yes + no) < 100 * no) \<and>
     dt_avalancheState d = AvStuck"
proof -
  let ?yes = "dt_yays d + (if proposing \<and> dt_ourVote d then 1 else 0)"
  let ?no = "dt_nays d + (if proposing \<and> \<not> dt_ourVote d then 1 else 0)"
  have nn: "0 \<le> ?yes" "0 \<le> ?no"
    using assms(1) by (auto simp: dt_wf_def)
  have tot: "dt_nays d + dt_yays d + (if proposing then 1 else 0) = ?yes + ?no"
    by auto
  have w: "?yes + ?no \<noteq> 0 \<and> (80 < (?yes * 100) sdiv (?yes + ?no) \<or> (?yes * 100) sdiv (?yes + ?no) < 20)"
    using assms(2) unfolding stalled_def Let_def tot
    by (auto simp: ConsensusParms_def split: if_splits)
  have st: "dt_avalancheState d = AvStuck"
    using assms(2) by (cases "dt_avalancheState d") (auto simp: stalled_def)
  have pos: "0 < ?yes + ?no" using nn w by linarith
  have "80 * (?yes + ?no) < 100 * ?yes \<or> 80 * (?yes + ?no) < 100 * ?no"
    using w nn pos
    by (subst (asm) (1 2) sdiv_nonneg) (auto simp: div_gt_iff div_less_iff algebra_simps)
  then show ?thesis using st by blast
qed

theorem stalled_lopsided_witness:
  "let d = (DisputedTx_new (7::nat) True :: (nat, nat) disputed_tx)\<lparr>dt_votes := [(1, True), (2, True)],
      dt_yays := 2, dt_currentVoteCounter := 4, dt_avalancheState := AvStuck, dt_avalancheCounter := 2\<rparr>
   in dt_wf d \<and> stalled ConsensusParms True 0 d \<and> dt_avalancheState d = AvStuck"
proof -
  let ?d = "(DisputedTx_new (7::nat) True :: (nat, nat) disputed_tx)\<lparr>dt_votes := [(1, True), (2, True)],
      dt_yays := 2, dt_currentVoteCounter := 4, dt_avalancheState := AvStuck, dt_avalancheCounter := 2\<rparr>"
  have wf: "dt_wf ?d" by (simp add: dt_wf_def DisputedTx_new_def hm_wf_def)
  have st: "stalled ConsensusParms True 0 ?d"
    by (simp add: stalled_def DisputedTx_new_def ConsensusParms_def)
  show ?thesis using wf st stalled_lopsided [OF wf st] by simp
qed

end
