(* ===== verification/ConsensusTypes.thy ===== *)
theory ConsensusTypes
  imports ConsensusProposal DisputedTx "HOL-Library.Multiset"
begin

text \<open>
  The data of a consensus round, \<^verbatim>\<open>include/xrpl/consensus/ConsensusTypes.h\<close>: modes, phases and
  outcomes, the phase timer, the close times reported by the peers with their weighted median, and
  the result record. The ordered map of close times is an association list with increasing keys.
\<close>

datatype ConsensusMode = Proposing | Observing | WrongLedger | SwitchedLedger

datatype ConsensusPhase = PhOpen | PhEstablish | PhAccepted

datatype ConsensusState = CsNo | CsMovedOn | CsExpired | CsYes

record consensus_timer =
  tm_start :: steadytime
  tm_dur :: msecs

definition timer_read :: "consensus_timer \<Rightarrow> msecs" where
  "timer_read t = tm_dur t"

definition timer_tick_fixed :: "msecs \<Rightarrow> consensus_timer \<Rightarrow> consensus_timer" where
  "timer_tick_fixed fixed t = t\<lparr>tm_dur := tm_dur t + fixed\<rparr>"

definition timer_reset :: "steadytime \<Rightarrow> consensus_timer \<Rightarrow> consensus_timer" where
  "timer_reset tp t = t\<lparr>tm_start := tp, tm_dur := 0\<rparr>"

definition timer_tick :: "steadytime \<Rightarrow> consensus_timer \<Rightarrow> consensus_timer" where
  "timer_tick tp t = t\<lparr>tm_dur := (tp - tm_start t) sdiv 1000000\<rparr>"

record close_times =
  ct_peers :: "(nettime \<times> nat) list"
  ct_self :: nettime

text \<open>\<^verbatim>\<open>++m[t]\<close> on a \<^verbatim>\<open>std::map\<close>: the entry is created at its place in the order when missing.\<close>

fun map_incr :: "nettime \<Rightarrow> (nettime \<times> nat) list \<Rightarrow> (nettime \<times> nat) list" where
  "map_incr t [] = [(t, 1)]"
| "map_incr t ((u, w) # m) =
     (if t = u then (u, Suc w) # m
      else if t < u then (t, 1) # (u, w) # m
      else (u, w) # map_incr t m)"

text \<open>
  The loop of \<^verbatim>\<open>medianCloseOffset\<close>. The state is the tally and whether our own time was placed;
  \<open>Inl m\<close> is a \<^verbatim>\<open>break\<close> with the median found, \<open>Inr (tally, selfPlaced)\<close> the end of the loop.
  \<open>median_finish\<close> is what follows the loop; \<open>None\<close> is the branch marked \<^verbatim>\<open>UNREACHABLE\<close>.
\<close>

fun median_loop :: "nettime \<Rightarrow> int \<Rightarrow> int \<Rightarrow> bool \<Rightarrow> (nettime \<times> nat) list \<Rightarrow> nettime + int \<times> bool" where
  "median_loop self half tally placed [] = Inr (tally, placed)"
| "median_loop self half tally placed ((t, w) # ps) =
     (let place = \<not> placed \<and> self \<le> t;
          tally1 = (if place then tally + 1 else tally)
      in if place \<and> half \<le> tally1 then Inl self
         else let tally2 = tally1 + int w
              in if half \<le> tally2 then Inl t
                 else median_loop self half tally2 (placed \<or> place) ps)"

definition median_finish :: "nettime \<Rightarrow> int \<Rightarrow> nettime + int \<times> bool \<Rightarrow> nettime option" where
  "median_finish self half r =
     (case r of
        Inl m \<Rightarrow> Some m
      | Inr (tally, placed) \<Rightarrow> if \<not> placed \<and> half \<le> tally + 1 then Some self else None)"

definition median_close_time :: "close_times \<Rightarrow> nettime option" where
  "median_close_time ctimes =
     (let total = 1 + sum_list (map (\<lambda>(_, w). int w) (ct_peers ctimes));
          half = (total + 1) sdiv 2
      in median_finish (ct_self ctimes) half (median_loop (ct_self ctimes) half 0 False (ct_peers ctimes)))"

definition medianCloseOffset :: "close_times \<Rightarrow> int" where
  "medianCloseOffset ctimes =
     (case median_close_time ctimes of
        Some m \<Rightarrow> uint m - uint (ct_self ctimes)
      | None \<Rightarrow> uint (ct_self ctimes) - uint (ct_self ctimes))"

record ('tx, 'txid, 'n, 'lid, 'sid, 'ts) consensus_result =
  cr_txns :: 'ts
  cr_position :: "('n, 'lid, 'sid) proposal"
  cr_disputes :: "('txid, ('tx, 'n) disputed_tx) hm"
  cr_compares :: "'sid list"
  cr_roundTime :: consensus_timer
  cr_state :: ConsensusState
  cr_proposers :: nat

definition ConsensusResult_new ::
  "'ts \<Rightarrow> ('n, 'lid, 'sid) proposal \<Rightarrow> ('tx, 'txid, 'n, 'lid, 'sid, 'ts) consensus_result" where
  "ConsensusResult_new s p =
     \<lparr>cr_txns = s, cr_position = p, cr_disputes = [], cr_compares = [],
      cr_roundTime = \<lparr>tm_start = 0, tm_dur = 0\<rparr>, cr_state = CsNo, cr_proposers = 0\<rparr>"

section \<open>The ordered map of close times\<close>

definition close_map_wf :: "(nettime \<times> nat) list \<Rightarrow> bool" where
  "close_map_wf m \<longleftrightarrow> sorted_wrt (<) (map fst m) \<and> (\<forall>(t, w) \<in> set m. 0 < w)"

definition weight_of :: "(nettime \<times> nat) list \<Rightarrow> nettime \<Rightarrow> nat" where
  "weight_of m t = (case map_of m t of None \<Rightarrow> 0 | Some w \<Rightarrow> w)"

lemma map_incr_keys: "fst ` set (map_incr t m) = insert t (fst ` set m)"
  by (induction t m rule: map_incr.induct) auto

lemma map_incr_wf: "close_map_wf m \<Longrightarrow> close_map_wf (map_incr t m)"
proof (induction t m rule: map_incr.induct)
  case (2 t u w m)
  have "\<And>x. x \<in> fst ` set (map_incr t m) \<Longrightarrow> x = t \<or> x \<in> fst ` set m"
    by (simp add: map_incr_keys)
  with 2 show ?case
    by (auto simp: close_map_wf_def) fastforce+
qed (simp add: close_map_wf_def)

lemma map_incr_weight:
  "sorted_wrt (<) (map fst m) \<Longrightarrow>
   weight_of (map_incr t m) u = (if u = t then Suc (weight_of m u) else weight_of m u)"
proof (induction t m rule: map_incr.induct)
  case (2 t v w m)
  have "map_of m t = None" if "t < v"
    using that 2 by (auto simp: map_of_eq_None_iff)
  with 2 show ?case by (auto simp: weight_of_def)
qed (auto simp: weight_of_def)

section \<open>The weighted median\<close>

text \<open>The sample set in time order, with our own time merged in as the loop does it.\<close>

fun merged :: "nettime \<Rightarrow> bool \<Rightarrow> (nettime \<times> nat) list \<Rightarrow> nettime list" where
  "merged self placed [] = (if placed then [] else [self])"
| "merged self placed ((t, w) # ps) =
     (if \<not> placed \<and> self \<le> t then self # replicate w t @ merged self True ps
      else replicate w t @ merged self placed ps)"

definition samples :: "close_times \<Rightarrow> nettime list" where
  "samples ctimes = ct_self ctimes # concat (map (\<lambda>(t, w). replicate w t) (ct_peers ctimes))"

lemma mset_merged:
  "mset (merged self placed ps) =
     (if placed then {#} else {#self#}) + mset (concat (map (\<lambda>(t, w). replicate w t) ps))"
  by (induction self placed ps rule: merged.induct) auto

lemma set_merged: "set (merged self placed ps) \<subseteq> (if placed then {} else {self}) \<union> fst ` set ps"
  by (induction self placed ps rule: merged.induct) (auto split: if_splits)

lemma sorted_merged:
  "sorted_wrt (<) (map fst ps) \<Longrightarrow> sorted (merged self placed ps)"
proof (induction self placed ps rule: merged.induct)
  case (2 self placed t w ps)
  have ps: "\<forall>x \<in> fst ` set ps. t \<le> x" "sorted_wrt (<) (map fst ps)"
    using 2 by auto
  have 1: "\<forall>x \<in> set (merged self True ps). t \<le> x"
    using set_merged [of self True ps] ps by auto
  have 2: "\<forall>x \<in> set (merged self placed ps). t \<le> x" if "placed \<or> t < self"
    using set_merged [of self placed ps] ps that by (auto split: if_splits)
  show ?case
    using "2.IH" ps 1 2 by (auto simp: sorted_append not_le)
qed auto

lemma nth_replicate_append: "(replicate w t @ xs) ! i = (if i < w then t else xs ! (i - w))"
  by (simp add: nth_append)

text \<open>The loop stops at the sample that brings the running weight to \<open>half\<close>.\<close>

lemma median_loop_nth:
  assumes "0 < k" and "half = tally + int k" and "k \<le> length (merged self placed ps)"
  shows "median_finish self half (median_loop self half tally placed ps) = Some (merged self placed ps ! (k - 1))"
  using assms
proof (induction self half tally placed ps arbitrary: k rule: median_loop.induct)
  case (1 self half tally placed)
  then show ?case by (auto simp: median_finish_def split: if_splits)
next
  case (2 self half tally placed t w ps)
  show ?case
  proof (cases "\<not> placed \<and> self \<le> t")
    case True
    consider "k = 1" | "1 < k" "k - 1 \<le> w" | "w < k - 1" using "2.prems"(1) by linarith
    then show ?thesis
    proof cases
      case 3
      have "median_finish self half (median_loop self half (tally + 1 + int w) True ps) =
          Some (merged self True ps ! (k - 1 - w - 1))"
        using "2.IH" [of True "tally + 1", where k = "k - 1 - w"] "2.prems" 3 True by simp
      moreover have "k - 1 - w - 1 = k - Suc (Suc w)" by simp
      ultimately show ?thesis
        using "2.prems" 3 True by (auto simp: Let_def nth_Cons' nth_replicate_append)
    qed (use "2.prems" True in \<open>auto simp: Let_def median_finish_def nth_Cons' nth_replicate_append\<close>)
  next
    case False
    consider "k \<le> w" | "w < k" by linarith
    then show ?thesis
    proof cases
      case 2
      then show ?thesis
        using "2.IH" [of False tally, where k = "k - w"] "2.prems" False
        by (auto simp: Let_def nth_replicate_append)
    qed (use "2.prems" False in \<open>auto simp: Let_def median_finish_def nth_replicate_append\<close>)
  qed
qed

lemma length_samples:
  "int (length (samples c)) = 1 + sum_list (map (\<lambda>(_, w). int w) (ct_peers c))"
proof -
  have "int (length (concat (map (\<lambda>(t, w). replicate w t) ps))) = sum_list (map (\<lambda>(_, w). int w) ps)" for ps :: "(nettime \<times> nat) list"
    by (induction ps) auto
  then show ?thesis by (simp add: samples_def)
qed

lemma sort_samples:
  "sorted_wrt (<) (map fst (ct_peers c)) \<Longrightarrow> sort (samples c) = merged (ct_self c) False (ct_peers c)"
  by (rule properties_for_sort) (simp_all add: sorted_merged mset_merged samples_def)

text \<open>
  C37: the close-time offset is the lower weighted median. The sample set holds our own close time
  once and every peer's time as often as peers reported it; the loop always finds a median (the
  branch marked unreachable is unreachable) and it is the middle element of the sorted samples, the
  earlier one when their number is even.
\<close>

theorem medianCloseOffset_median:
  assumes "sorted_wrt (<) (map fst (ct_peers c))"
  shows "median_close_time c = Some (sort (samples c) ! ((length (samples c) - 1) div 2)) \<and>
    medianCloseOffset c = uint (sort (samples c) ! ((length (samples c) - 1) div 2)) - uint (ct_self c)"
proof -
  let ?n = "length (samples c)"
  let ?k = "(?n + 1) div 2"
  have n: "0 < ?n" by (simp add: samples_def)
  have half: "(1 + sum_list (map (\<lambda>(_, w). int w) (ct_peers c)) + 1) sdiv 2 = 0 + int ?k"
    using n by (simp add: sdiv_nonneg flip: length_samples)
  have len: "length (merged (ct_self c) False (ct_peers c)) = ?n"
    using sort_samples [OF assms] length_sort by metis
  have "median_close_time c = Some (merged (ct_self c) False (ct_peers c) ! (?k - 1))"
    unfolding median_close_time_def Let_def half
    by (rule median_loop_nth) (use n len in auto)
  moreover have "?k - 1 = (?n - 1) div 2" using n by linarith
  ultimately show ?thesis
    by (simp add: medianCloseOffset_def sort_samples [OF assms])
qed

theorem medianCloseOffset_median_witness:
  "let c = \<lparr>ct_peers = [(100, 1), (110, 1), (130, 1), (140, 1)], ct_self = 135\<rparr>
   in sorted_wrt (<) (map fst (ct_peers c)) \<and> medianCloseOffset c = - 5"
proof -
  let ?c = "\<lparr>ct_peers = [(100, 1), (110, 1), (130, 1), (140, 1)], ct_self = 135\<rparr>"
  have s: "sorted_wrt (<) (map fst (ct_peers ?c))" by simp
  show ?thesis
    using s medianCloseOffset_median [OF s] by (simp add: samples_def)
qed

end
