(* ===== verification/ConsensusDecision.thy ===== *)
theory ConsensusDecision
  imports ConsensusTypes
begin

text \<open>
  The decision functions of \<^verbatim>\<open>src/libxrpl/consensus/Consensus.cpp\<close>: when an open ledger closes,
  whether a count of agreeing proposers reaches the threshold, and the state of the consensus round.
  Counts are \<open>nat\<close> (\<^verbatim>\<open>std::size_t\<close> numbers of validators), durations are milliseconds.
\<close>

definition shouldCloseLedger ::
  "bool \<Rightarrow> nat \<Rightarrow> nat \<Rightarrow> nat \<Rightarrow> msecs \<Rightarrow> msecs \<Rightarrow> msecs \<Rightarrow> msecs \<Rightarrow> consensus_parms \<Rightarrow> bool" where
  "shouldCloseLedger anyTransactions prevProposers proposersClosed proposersValidated
     prevRoundTime timeSincePrevClose openTime idleInterval parms =
     (if prevRoundTime < - 1000 \<or> prevRoundTime > 600000 \<or> timeSincePrevClose > 600000 then True
      else if proposersClosed + proposersValidated > prevProposers div 2 then True
      else if \<not> anyTransactions then timeSincePrevClose \<ge> idleInterval
      else if openTime < ledgerMinClose parms then False
      else if openTime < prevRoundTime sdiv 2 then False
      else True)"

definition checkConsensusReached :: "nat \<Rightarrow> nat \<Rightarrow> bool \<Rightarrow> nat \<Rightarrow> bool \<Rightarrow> bool \<Rightarrow> bool" where
  "checkConsensusReached agreeing total_n countSelf minPct reachedMax stalledVotes =
     (if total_n = 0 then reachedMax
      else if stalledVotes then True
      else let agreeing' = (if countSelf then agreeing + 1 else agreeing);
               total_n' = (if countSelf then total_n + 1 else total_n)
           in minPct \<le> agreeing' * 100 div total_n')"

definition checkConsensus ::
  "nat \<Rightarrow> nat \<Rightarrow> nat \<Rightarrow> nat \<Rightarrow> msecs \<Rightarrow> msecs \<Rightarrow> bool \<Rightarrow> consensus_parms \<Rightarrow> bool \<Rightarrow> ConsensusState" where
  "checkConsensus prevProposers currentProposers currentAgree currentFinished
     previousAgreeTime currentAgreeTime stalledVotes parms proposing =
     (if currentAgreeTime \<le> ledgerMinConsensus parms then CsNo
      else if currentProposers < prevProposers * 3 div 4 \<and>
              currentAgreeTime < previousAgreeTime + ledgerMinConsensus parms then CsNo
      else if checkConsensusReached currentAgree currentProposers proposing (minConsensusPct parms)
                (currentAgreeTime > ledgerMaxConsensus parms) stalledVotes then CsYes
      else if checkConsensusReached currentFinished currentProposers False (minConsensusPct parms)
                (currentAgreeTime > ledgerMaxConsensus parms) False then CsMovedOn
      else let maxAgreeTime = previousAgreeTime * int (ledgerAbandonConsensusFactor parms)
           in if currentAgreeTime >
                 min (max maxAgreeTime (ledgerMaxConsensus parms)) (ledgerAbandonConsensus parms)
              then CsExpired
              else CsNo)"

section \<open>Thresholds\<close>

lemma reached_iff:
  "checkConsensusReached a n self pct rm False \<longleftrightarrow>
     (if n = 0 then rm
      else pct * (n + (if self then 1 else 0)) \<le> 100 * (a + (if self then 1 else 0)))"
  by (auto simp: checkConsensusReached_def Let_def less_eq_div_iff_mult_less_eq mult.commute)

lemma reached_mono:
  "a \<le> b \<Longrightarrow> checkConsensusReached a n self pct rm st \<Longrightarrow> checkConsensusReached b n self pct rm st"
  by (auto simp: checkConsensusReached_def Let_def split: if_splits elim!: order_trans intro!: div_le_mono)

text \<open>
  C34: safety of the threshold. Two different positions cannot both be declared to have consensus on
  the same proposals: if the peers agreeing with the one and with the other are disjoint groups
  among the proposers, at most one of the two reaches the 80 percent threshold (with or without
  our own vote, which goes to one of them only).
\<close>

theorem consensus_unique:
  assumes "a + b \<le> n" and "0 < n"
    and "checkConsensusReached a n self (minConsensusPct ConsensusParms) rm False"
  shows "\<not> checkConsensusReached b n False (minConsensusPct ConsensusParms) rm' False \<and>
    100 * (a + (if self then 1 else 0)) \<ge> 80 * (n + (if self then 1 else 0))"
proof -
  have a: "80 * (n + (if self then 1 else 0)) \<le> 100 * (a + (if self then 1 else 0))"
    using assms(2,3) by (simp add: reached_iff ConsensusParms_def split: if_splits)
  have "\<not> 80 * n \<le> 100 * b"
  proof
    assume "80 * n \<le> 100 * b"
    then have "160 * n \<le> 100 * (a + b) + 20" using a by (auto split: if_splits)
    moreover have "100 * (a + b) \<le> 100 * n" using assms(1) by (rule mult_le_mono2)
    ultimately show False using assms(2) by linarith
  qed
  then show ?thesis using a assms(2) by (simp add: reached_iff ConsensusParms_def)
qed

theorem consensus_unique_witness:
  "checkConsensusReached 8 10 True (minConsensusPct ConsensusParms) False False \<and>
   \<not> checkConsensusReached 2 10 False (minConsensusPct ConsensusParms) True False"
proof -
  have h: "checkConsensusReached 8 10 True (minConsensusPct ConsensusParms) False False"
    by (simp add: checkConsensusReached_def ConsensusParms_def)
  show ?thesis using h consensus_unique [of 8 2 10 True False True] h by simp
qed



text \<open>
  A round does not last forever. Once the establish phase has taken longer than the abandon
  limit, and longer than the previous round plus the minimum consensus time, the verdict is no
  longer \<open>No\<close>, whatever the peers do.
\<close>

theorem checkConsensus_progress:
  assumes "ledgerAbandonConsensus parms < ct" and "pt + ledgerMinConsensus parms \<le> ct"
    and "ledgerMinConsensus parms < ct"
  shows "checkConsensus pp cp ca cf pt ct st parms proposing \<noteq> CsNo"
  using assms by (auto simp: checkConsensus_def Let_def)

theorem checkConsensus_progress_witness:
  "checkConsensus 10 7 0 0 5000 120001 False ConsensusParms True = CsExpired"
proof -
  have "checkConsensus 10 7 0 0 5000 120001 False ConsensusParms True \<noteq> CsNo"
    by (rule checkConsensus_progress) (simp_all add: ConsensusParms_def)
  then show ?thesis
    by (simp add: checkConsensus_def checkConsensusReached_def ConsensusParms_def)
qed

text \<open>
  An open ledger with transactions is not closed early. Unless half of the previous proposers
  have closed or validated already, or the clocks are out of the expected range, the ledger stays
  open for the minimum close time and for half of the previous round; an idle ledger stays open for
  the idle interval.
\<close>

theorem shouldCloseLedger_not_early:
  assumes "shouldCloseLedger txs pp pc pv prevRound sinceClose openTime idle parms"
    and "2 * (pc + pv) \<le> pp" and "- 1000 \<le> prevRound" and "prevRound \<le> 600000" and "sinceClose \<le> 600000"
  shows "(txs \<longrightarrow> ledgerMinClose parms \<le> openTime \<and> prevRound \<le> 2 * openTime + 1) \<and>
    (\<not> txs \<longrightarrow> idle \<le> sinceClose)"
proof -
  have "pc + pv \<le> pp div 2" using assms(2) by (simp add: less_eq_div_iff_mult_less_eq)
  moreover have "prevRound \<le> 2 * (prevRound sdiv 2) + 1"
  proof (cases "0 \<le> prevRound")
    case True then show ?thesis by (simp add: sdiv_nonneg)
  next
    case False
    then have "prevRound sdiv 2 = - ((- prevRound) div 2)"
      by (simp add: signed_divide_int_def)
    then show ?thesis using False by linarith
  qed
  ultimately show ?thesis
    using assms by (auto simp: shouldCloseLedger_def split: if_splits)
qed

theorem shouldCloseLedger_not_early_witness:
  "shouldCloseLedger True 10 3 2 4000 5000 2500 15000 ConsensusParms \<and> ledgerMinClose ConsensusParms \<le> 2500"
proof -
  have h: "shouldCloseLedger True 10 3 2 4000 5000 2500 15000 ConsensusParms"
    by (simp add: shouldCloseLedger_def ConsensusParms_def)
  show ?thesis using h shouldCloseLedger_not_early [OF h] by simp
qed

end
