(* ===== verification/LedgerTiming.thy ===== *)
theory LedgerTiming
  imports Rippled_Prelude
begin

text \<open>
  Close-time binning, \<^verbatim>\<open>include/xrpl/ledger/LedgerTiming.h\<close>: the table of resolutions, the
  adaptive choice of the next resolution, rounding of a close time to its bin, and the effective
  close time of a ledger. Times are \<open>NetClock\<close> values, unsigned 32-bit seconds; the sums wrap as
  they do in the code, and the lemmas that need it say that they do not.
\<close>

definition kLedgerPossibleTimeResolutions :: "netdur list" where
  "kLedgerPossibleTimeResolutions = [10, 20, 30, 60, 90, 120]"

definition kLedgerDefaultTimeResolution :: netdur where
  "kLedgerDefaultTimeResolution = kLedgerPossibleTimeResolutions ! 2"

definition kLedgerGenesisTimeResolution :: netdur where
  "kLedgerGenesisTimeResolution = kLedgerPossibleTimeResolutions ! 0"

definition kIncreaseLedgerTimeResolutionEvery :: nat where
  "kIncreaseLedgerTimeResolutionEvery = 8"

definition kDecreaseLedgerTimeResolutionEvery :: nat where
  "kDecreaseLedgerTimeResolutionEvery = 1"

text \<open>\<^verbatim>\<open>std::find\<close>: the index of the first equal element, the length when there is none.\<close>

fun find_index :: "'a \<Rightarrow> 'a list \<Rightarrow> nat" where
  "find_index x [] = 0"
| "find_index x (y # ys) = (if x = y then 0 else Suc (find_index x ys))"

definition getNextLedgerTimeResolution :: "netdur \<Rightarrow> bool \<Rightarrow> nat \<Rightarrow> netdur" where
  "getNextLedgerTimeResolution previousResolution previousAgree ledgerSeq =
     (let rs = kLedgerPossibleTimeResolutions;
          iter = find_index previousResolution rs
      in if iter = length rs then previousResolution
         else if \<not> previousAgree \<and> ledgerSeq mod kDecreaseLedgerTimeResolutionEvery = 0 \<and>
                 Suc iter \<noteq> length rs
         then rs ! Suc iter
         else if previousAgree \<and> ledgerSeq mod kIncreaseLedgerTimeResolutionEvery = 0 \<and> iter \<noteq> 0
         then rs ! (iter - 1)
         else previousResolution)"

definition roundCloseTime :: "nettime \<Rightarrow> netdur \<Rightarrow> nettime" where
  "roundCloseTime closeTime closeResolution =
     (if closeTime = 0 then closeTime
      else let t = closeTime + closeResolution div 2 in t - t mod closeResolution)"

definition effCloseTime :: "nettime \<Rightarrow> netdur \<Rightarrow> nettime \<Rightarrow> nettime" where
  "effCloseTime closeTime resolution priorCloseTime =
     (if closeTime = 0 then closeTime
      else max (roundCloseTime closeTime resolution) (priorCloseTime + 1))"

section \<open>The table\<close>

lemma find_index_le: "find_index x xs \<le> length xs"
  by (induction xs) auto

lemma find_index_length_iff: "find_index x xs = length xs \<longleftrightarrow> x \<notin> set xs"
  by (induction xs) auto

lemma find_index_nth: "x \<in> set xs \<Longrightarrow> find_index x xs < length xs \<and> xs ! find_index x xs = x"
  by (induction xs) auto

lemma possible_resolutions_sorted: "sorted_wrt (<) kLedgerPossibleTimeResolutions"
  by (simp add: kLedgerPossibleTimeResolutions_def)

lemma nth_mem_resolutions:
  "i < length kLedgerPossibleTimeResolutions \<Longrightarrow>
   kLedgerPossibleTimeResolutions ! i \<in> set kLedgerPossibleTimeResolutions"
  by (rule nth_mem)

lemma getNext_in_table:
  assumes "r \<in> set kLedgerPossibleTimeResolutions"
  shows "getNextLedgerTimeResolution r agree s \<in> set kLedgerPossibleTimeResolutions"
proof -
  have "find_index r kLedgerPossibleTimeResolutions < length kLedgerPossibleTimeResolutions"
    using find_index_nth [OF assms] by simp
  then show ?thesis
    using assms by (auto simp: getNextLedgerTimeResolution_def Let_def intro!: nth_mem)
qed

text \<open>
  From a bin of the table the next resolution is again a bin, so the precaution for an unknown
  bin is never needed along a chain of ledgers; with agreement on the last close time the bin
  never gets coarser, without agreement never finer, and it moves by one place at most.
\<close>

theorem getNextLedgerTimeResolution_bin:
  assumes "r \<in> set kLedgerPossibleTimeResolutions"
  shows "getNextLedgerTimeResolution r agree s \<in> set kLedgerPossibleTimeResolutions \<and>
    (if agree then getNextLedgerTimeResolution r agree s \<le> r else r \<le> getNextLedgerTimeResolution r agree s) \<and>
    (agree \<longrightarrow> s mod 8 \<noteq> 0 \<longrightarrow> getNextLedgerTimeResolution r agree s = r)"
proof -
  let ?rs = kLedgerPossibleTimeResolutions
  have lt: "find_index r ?rs < length ?rs" and nth: "?rs ! find_index r ?rs = r"
    using find_index_nth [OF assms] by auto
  have mono: "\<And>i j. i < j \<Longrightarrow> j < length ?rs \<Longrightarrow> ?rs ! i < ?rs ! j"
    using possible_resolutions_sorted sorted_wrt_iff_nth_less by blast
  have "agree \<Longrightarrow> getNextLedgerTimeResolution r agree s \<le> r"
    using lt nth mono [of "find_index r ?rs - 1" "find_index r ?rs"]
    by (auto simp: getNextLedgerTimeResolution_def Let_def intro: less_imp_le)
  moreover have "\<not> agree \<Longrightarrow> r \<le> getNextLedgerTimeResolution r agree s"
    using lt nth mono [of "find_index r ?rs" "Suc (find_index r ?rs)"]
    by (auto simp: getNextLedgerTimeResolution_def Let_def intro: less_imp_le)
  ultimately show ?thesis
    using getNext_in_table [OF assms]
    by (auto simp: getNextLedgerTimeResolution_def Let_def kIncreaseLedgerTimeResolutionEvery_def)
qed

theorem getNextLedgerTimeResolution_bin_witness:
  "getNextLedgerTimeResolution 30 False 5 = 60 \<and> 60 \<in> set kLedgerPossibleTimeResolutions"
proof -
  have m: "(30::netdur) \<in> set kLedgerPossibleTimeResolutions"
    by (simp add: kLedgerPossibleTimeResolutions_def)
  have e: "getNextLedgerTimeResolution 30 False 5 = 60"
    by (simp add: getNextLedgerTimeResolution_def kLedgerPossibleTimeResolutions_def
        kDecreaseLedgerTimeResolutionEvery_def)
  show ?thesis using e getNextLedgerTimeResolution_bin [OF m, of False 5] by simp
qed

section \<open>Rounding\<close>

lemma unat_round:
  assumes "t \<noteq> 0" and "unat t + unat r div 2 < 2 ^ 32"
  shows "unat (roundCloseTime t r) = (unat t + unat r div 2) div unat r * unat r"
proof -
  let ?s = "t + r div 2"
  have s: "unat ?s = unat t + unat r div 2"
    using assms(2) by (simp add: unat_word_ariths unat_div)
  have le: "?s mod r \<le> ?s"
    by (simp add: word_le_nat_alt unat_mod)
  have "unat (roundCloseTime t r) = unat ?s - unat ?s mod unat r"
    using assms(1) le by (simp add: roundCloseTime_def Let_def unat_sub unat_mod)
  also have "\<dots> = unat ?s div unat r * unat r"
    by (rule minus_mod_eq_div_mult)
  finally show ?thesis by (simp add: s)
qed

lemma round_nat_dvd: "(r::nat) dvd (t + r div 2) div r * r"
  by simp

lemma round_nat_near:
  assumes "0 < (r::nat)"
  shows "(t + r div 2) div r * r \<le> t + r div 2" and "t < (t + r div 2) div r * r + (r + 1) div 2"
proof -
  have e: "(t + r div 2) div r * r + (t + r div 2) mod r = t + r div 2"
    by simp
  have "(t + r div 2) mod r < r" using assms by simp
  moreover have "r = r div 2 + (r + 1) div 2" by simp
  ultimately show "t < (t + r div 2) div r * r + (r + 1) div 2"
    using e by linarith
  show "(t + r div 2) div r * r \<le> t + r div 2"
    using e by linarith
qed

lemma round_nat_mult: "0 < (r::nat) \<Longrightarrow> (k * r + r div 2) div r * r = k * r"
  by simp

lemma round_nat_mono: "(s::nat) \<le> t \<Longrightarrow> (s + r div 2) div r * r \<le> (t + r div 2) div r * r"
  by (simp add: div_le_mono)

text \<open>
  Rounding a close time yields a multiple of the resolution that differs from the time by at
  most half a resolution, a time midway between two multiples going up; rounding again changes
  nothing. The sum with the resolution must fit into the 32-bit clock.
\<close>

theorem roundCloseTime_nearest:
  assumes "t \<noteq> 0" and "0 < unat r" and "unat t + unat r < 2 ^ 32"
  shows "unat r dvd unat (roundCloseTime t r) \<and>
    unat (roundCloseTime t r) \<le> unat t + unat r div 2 \<and>
    unat t < unat (roundCloseTime t r) + (unat r + 1) div 2 \<and>
    roundCloseTime (roundCloseTime t r) r = roundCloseTime t r"
proof -
  let ?q = "roundCloseTime t r"
  have q: "unat ?q = (unat t + unat r div 2) div unat r * unat r"
    using assms by (intro unat_round) auto
  have near: "unat ?q \<le> unat t + unat r div 2" "unat t < unat ?q + (unat r + 1) div 2"
    unfolding q using round_nat_near [OF assms(2)] by auto
  have "roundCloseTime ?q r = ?q"
  proof (cases "?q = 0")
    case True then show ?thesis by (simp add: roundCloseTime_def)
  next
    case False
    have "unat ?q + unat r div 2 < 2 ^ 32" using near(1) assms(3) by linarith
    from unat_round [OF False this] have "unat (roundCloseTime ?q r) = unat ?q"
      unfolding q using round_nat_mult [OF assms(2)] by simp
    then show ?thesis by (rule word_unat_eq_iff [THEN iffD2])
  qed
  then show ?thesis using near q by simp
qed

theorem roundCloseTime_nearest_witness:
  "(75::nettime) \<noteq> 0 \<and> roundCloseTime 75 30 = 90 \<and> unat (30::netdur) dvd unat (roundCloseTime 75 30)"
proof -
  have "unat (30::netdur) dvd unat (roundCloseTime 75 30)"
    using roundCloseTime_nearest [of 75 30] by simp
  then show ?thesis by (simp add: roundCloseTime_def)
qed

text \<open>
  A closed ledger's effective close time is strictly after its parent's and never before the
  rounded close time, so close times increase along a chain as long as the 32-bit clock does not wrap.
\<close>

theorem effCloseTime_after_parent:
  assumes "t \<noteq> 0" and "prior \<noteq> - 1"
  shows "prior < effCloseTime t r prior \<and> roundCloseTime t r \<le> effCloseTime t r prior \<and>
    effCloseTime t r prior \<in> {roundCloseTime t r, prior + 1}"
proof -
  have "1 + prior \<noteq> 0" using assms(2) by (auto simp: add_eq_0_iff)
  then have "prior < prior + 1"
    using unatSuc [of prior] by (simp add: word_less_nat_alt add.commute)
  then show ?thesis
    using assms(1) by (auto simp: effCloseTime_def max_def)
qed

theorem effCloseTime_after_parent_witness:
  "effCloseTime 100 30 200 = 201 \<and> (200::nettime) < effCloseTime 100 30 200"
proof -
  have "(200::nettime) < effCloseTime 100 30 200"
    using effCloseTime_after_parent [of 100 200 30] by simp
  then show ?thesis by (simp add: effCloseTime_def roundCloseTime_def)
qed

end
