(* ===== verification/Float32.thy ===== *)
theory Float32
  imports Complex_Main "HOL-Library.Log_Nat"
begin

text \<open>
  The C++ type \<^verbatim>\<open>float\<close> as the engine uses it: IEEE 754 binary32 with round to nearest, ties to
  even, applied to the exact rational result of every operation. Values are rationals; the numbers
  the engine computes are zero or of a magnitude between \<open>2 ^ -64\<close> and \<open>2 ^ 64\<close>, so that neither
  overflow nor subnormal numbers occur.
\<close>

definition round_half_even :: "rat \<Rightarrow> int" where
  "round_half_even x =
     (let f = \<lfloor>x\<rfloor>; r = x - of_int f
      in if r < 1 / 2 then f
         else if r > 1 / 2 then f + 1
         else if even f then f else f + 1)"

definition pow2 :: "int \<Rightarrow> rat" where
  "pow2 e = (if 0 \<le> e then 2 ^ nat e else 1 / 2 ^ nat (- e))"

text \<open>The exponent \<open>e\<close> with \<open>2 ^ e \<le> x < 2 ^ (e + 1)\<close>, from the bit lengths of the fraction.\<close>

definition log2_floor :: "rat \<Rightarrow> int" where
  "log2_floor x =
     (let (p, q) = quotient_of x;
          e = int (floorlog 2 (nat p)) - int (floorlog 2 (nat q))
      in if x < pow2 e then e - 1 else e)"

definition f32_round :: "rat \<Rightarrow> rat" where
  "f32_round x =
     (if x = 0 then 0
      else let e = log2_floor \<bar>x\<bar> - 23
           in sgn x * of_int (round_half_even (\<bar>x\<bar> / pow2 e)) * pow2 e)"

definition f32_of_nat :: "nat \<Rightarrow> rat" where
  "f32_of_nat n = f32_round (of_nat n)"

definition f32_div :: "rat \<Rightarrow> rat \<Rightarrow> rat" where
  "f32_div x y = f32_round (x / y)"

definition f32_mult :: "rat \<Rightarrow> rat \<Rightarrow> rat" where
  "f32_mult x y = f32_round (x * y)"

definition f32_add :: "rat \<Rightarrow> rat \<Rightarrow> rat" where
  "f32_add x y = f32_round (x + y)"

definition f32_sub :: "rat \<Rightarrow> rat \<Rightarrow> rat" where
  "f32_sub x y = f32_round (x - y)"

section \<open>Exact results\<close>

lemma pow2_powi: "pow2 e = 2 powi e"
  by (simp add: pow2_def power_int_def field_simps)

lemma log2_floor_le:
  assumes "0 < x"
  shows "pow2 (log2_floor x) \<le> x"
proof -
  obtain p q where pq: "quotient_of x = (p, q)" by fastforce
  then have q: "0 < q" and x: "x = of_int p / of_int q" by (auto dest: quotient_of_denom_pos quotient_of_div)
  then have p: "0 < p" using assms by (simp add: zero_less_divide_iff)
  let ?a = "floorlog 2 (nat p)" and ?b = "floorlog 2 (nat q)"
  have "2 ^ (?a - 1) \<le> nat p" "nat q < 2 ^ ?b" and a: "0 < ?a"
    using floorlog_bounds [of "nat p" 2] floorlog_bounds [of "nat q" 2] floorlog_eq_zero_iff [of 2 "nat p"] p q by auto
  then have "2 ^ (?a - 1) \<le> p" "q < 2 ^ ?b" using p q by (simp_all add: le_nat_iff nat_less_iff)
  then have "of_int (2 ^ (?a - 1)) \<le> (of_int p :: rat)" "of_int q < (of_int (2 ^ ?b) :: rat)"
    by (simp_all only: of_int_le_iff of_int_less_iff)
  then have "(2::rat) ^ (?a - 1) \<le> of_int p" "of_int q < (2::rat) ^ ?b" by simp_all
  then have "2 ^ (?a - 1) / 2 ^ ?b \<le> x"
    unfolding x using p q by (intro frac_le) auto
  moreover have "pow2 (int ?a - int ?b - 1) = 2 ^ (?a - 1) / 2 ^ ?b"
    using a by (simp add: pow2_powi power_int_diff power_diff)
  ultimately show ?thesis by (simp add: log2_floor_def pq Let_def)
qed

lemma round_half_even_int: "round_half_even (of_int k) = k"
  by (simp add: round_half_even_def)

lemma f32_round_dyadic:
  assumes "n < 2 ^ 22"
  shows "f32_round (of_nat n / 2 ^ j) = of_nat n / 2 ^ j"
proof (cases "n = 0")
  case False
  define x :: rat where "x = of_nat n / 2 ^ j"
  define e where "e = log2_floor x"
  have "(of_nat n :: rat) < of_nat (2 ^ 22)" using assms by (simp only: of_nat_less_iff)
  then have "x < 2 ^ 22 / 2 ^ j" unfolding x_def by (intro divide_strict_right_mono) simp_all
  then have x: "0 < x" "x < 2 powi (22 - int j)" using False by (simp_all add: x_def power_int_diff)
  then have "(2::rat) powi e < 2 powi (22 - int j)" using log2_floor_le [of x] by (simp add: e_def pow2_powi)
  then have e: "e < 22 - int j" using power_int_increasing [of "22 - int j" e "2::rat"] by force
  have "x / pow2 (e - 23) = of_int (int n * 2 ^ nat (23 - e - int j))"
  proof -
    have "(2::rat) ^ nat (23 - e - int j) = 2 powi (23 - e - int j)" using e by (simp add: power_int_def)
    then show ?thesis by (simp add: x_def pow2_powi power_int_diff power_int_add field_simps)
  qed
  then have "f32_round x = of_int (int n * 2 ^ nat (23 - e - int j)) * pow2 (e - 23)"
    using x(1) by (simp only: f32_round_def Let_def e_def [symmetric] abs_of_pos round_half_even_int) simp
  also have "\<dots> = x" using \<open>x / pow2 (e - 23) = _\<close> [symmetric] by (simp add: pow2_powi)
  finally show ?thesis by (simp add: x_def)
qed (simp add: f32_round_def)

end
