(* ===== verification/ConsensusEngine.thy ===== *)
theory ConsensusEngine
  imports ConsensusDecision LedgerTiming Float32 "HOL-Library.Monad_Syntax"
begin

text \<open>
  The consensus engine, \<^verbatim>\<open>include/xrpl/consensus/Consensus.h\<close>: the state of a round and one
  definition per member function, in the order of the code.

  \<^item> The template parameter \<^verbatim>\<open>Adaptor\<close> is split in two. The calls that return something to the
    engine are the fields of the record \<open>adaptor\<close>, given anew to every handler; the calls that only
    have an effect outside are events appended to \<open>cs_log\<close>, in the order of the calls.
  \<^item> The transaction set type is the record \<open>txset_ops\<close> and the ledger type the record \<open>cx_ledger_ops\<close>
    of the operations the engine uses.
  \<^item> A peer position is its proposal: the engine reads nothing else of it.
  \<^item> \<^verbatim>\<open>timerEntry\<close>, \<^verbatim>\<open>checkLedger\<close>, \<^verbatim>\<open>handleWrongLedger\<close> and \<^verbatim>\<open>startRoundInternal\<close> call each other;
    \<open>timerEntry\<close> takes fuel and the other three take the call of \<open>timerEntry\<close> as an argument. \<open>None\<close>
    is the lack of fuel.
  \<^item> A member that needs \<open>result_\<close> leaves the state alone when it is not set; the theory of the
    invariants shows that this does not happen.
  \<^item> \<^verbatim>\<open>getJson\<close> and the logging only produce text and are not modelled.
\<close>

section \<open>Interfaces of the template parameters\<close>

record ('tx, 'txid, 'sid, 'ts) txset_ops =
  ts_id :: "'ts \<Rightarrow> 'sid"
  ts_exists :: "'ts \<Rightarrow> 'txid \<Rightarrow> bool"
  ts_find :: "'ts \<Rightarrow> 'txid \<Rightarrow> 'tx option"
  ts_compare :: "'ts \<Rightarrow> 'ts \<Rightarrow> ('txid \<times> bool) list"
  ts_insert :: "'tx \<Rightarrow> 'ts \<Rightarrow> 'ts"
  ts_erase :: "'txid \<Rightarrow> 'ts \<Rightarrow> 'ts"
  tx_id :: "'tx \<Rightarrow> 'txid"

record ('l, 'lid) cx_ledger_ops =
  le_id :: "'l \<Rightarrow> 'lid"
  le_seq :: "'l \<Rightarrow> nat"
  le_closeTime :: "'l \<Rightarrow> nettime"
  le_parentCloseTime :: "'l \<Rightarrow> nettime"
  le_closeTimeResolution :: "'l \<Rightarrow> netdur"
  le_closeAgree :: "'l \<Rightarrow> bool"

record ('tx, 'txid, 'n, 'lid, 'sid, 'ts, 'l) adaptor =
  ad_parms :: consensus_parms
  ad_clock :: steadytime
  ad_acquireLedger :: "'lid \<Rightarrow> 'l option"
  ad_acquireTxSet :: "'sid \<Rightarrow> 'ts option"
  ad_hasOpenTransactions :: bool
  ad_proposersValidated :: "'lid \<Rightarrow> nat"
  ad_proposersFinished :: "'l \<Rightarrow> 'lid \<Rightarrow> nat"
  ad_getPrevLedger :: "'lid \<Rightarrow> 'l \<Rightarrow> ConsensusMode \<Rightarrow> 'lid"
  ad_onClose :: "'l \<Rightarrow> nettime \<Rightarrow> ConsensusMode \<Rightarrow> ('tx, 'txid, 'n, 'lid, 'sid, 'ts) consensus_result"
  ad_getValidLedgerIndex :: nat
  ad_getQuorumKeys :: "nat \<times> 'n list"
  ad_laggards :: "nat \<Rightarrow> 'n list \<Rightarrow> nat \<times> 'n list"
  ad_validator :: bool
  ad_haveValidated :: bool
  ad_validating :: bool

datatype ('tx, 'txid, 'n, 'lid, 'sid, 'ts, 'l) cx_event =
    EvModeChange ConsensusMode ConsensusMode
  | EvShareTxSet 'ts
  | EvShareTx 'tx
  | EvSharePosition "('n, 'lid, 'sid) proposal"
  | EvPropose "('n, 'lid, 'sid) proposal"
  | EvOperatingMode nat
  | EvAccept "('tx, 'txid, 'n, 'lid, 'sid, 'ts) consensus_result" 'l netdur close_times ConsensusMode bool
  | EvForceAccept "('tx, 'txid, 'n, 'lid, 'sid, 'ts) consensus_result" 'l netdur close_times ConsensusMode

section \<open>The state\<close>

record ('tx, 'txid, 'n, 'lid, 'sid, 'ts, 'l) consensus =
  cs_phase :: ConsensusPhase
  cs_mode :: ConsensusMode
  cs_firstRound :: bool
  cs_haveCloseTimeConsensus :: bool
  cs_convergePercent :: int
  cs_openTime :: consensus_timer
  cs_closeResolution :: netdur
  cs_closeTimeAvalancheState :: AvalancheState
  cs_prevRoundTime :: msecs
  cs_now :: nettime
  cs_prevCloseTime :: nettime
  cs_prevLedgerID :: 'lid
  cs_previousLedger :: 'l
  cs_acquired :: "('sid, 'ts) hm"
  cs_result :: "('tx, 'txid, 'n, 'lid, 'sid, 'ts) consensus_result option"
  cs_rawCloseTimes :: close_times
  cs_peerUnchangedCounter :: nat
  cs_establishCounter :: nat
  cs_currPeerPositions :: "('n, ('n, 'lid, 'sid) proposal) hm"
  cs_recentPeerPositions :: "('n, ('n, 'lid, 'sid) proposal list) hm"
  cs_prevProposers :: nat
  cs_deadNodes :: "'n list"
  cs_log :: "('tx, 'txid, 'n, 'lid, 'sid, 'ts, 'l) cx_event list"

text \<open>The default values of the ledger id and the ledger are those of their types.\<close>

definition Consensus_new :: "'lid \<Rightarrow> 'l \<Rightarrow> ('tx, 'txid, 'n, 'lid, 'sid, 'ts, 'l) consensus" where
  "Consensus_new lid0 l0 =
     \<lparr>cs_phase = PhAccepted, cs_mode = Observing, cs_firstRound = True,
      cs_haveCloseTimeConsensus = False, cs_convergePercent = 0,
      cs_openTime = \<lparr>tm_start = 0, tm_dur = 0\<rparr>, cs_closeResolution = kLedgerDefaultTimeResolution,
      cs_closeTimeAvalancheState = AvInit, cs_prevRoundTime = 0, cs_now = 0, cs_prevCloseTime = 0,
      cs_prevLedgerID = lid0, cs_previousLedger = l0, cs_acquired = [], cs_result = None,
      cs_rawCloseTimes = \<lparr>ct_peers = [], ct_self = 0\<rparr>, cs_peerUnchangedCounter = 0,
      cs_establishCounter = 0, cs_currPeerPositions = [], cs_recentPeerPositions = [],
      cs_prevProposers = 0, cs_deadNodes = [], cs_log = []\<rparr>"

type_synonym ('tx, 'txid, 'n, 'lid, 'sid, 'ts, 'l) cx_step =
  "('tx, 'txid, 'n, 'lid, 'sid, 'ts, 'l) consensus \<Rightarrow> ('tx, 'txid, 'n, 'lid, 'sid, 'ts, 'l) consensus"

definition emit :: "('tx, 'txid, 'n, 'lid, 'sid, 'ts, 'l) cx_event \<Rightarrow> ('tx, 'txid, 'n, 'lid, 'sid, 'ts, 'l) cx_step" where
  "emit e st = st\<lparr>cs_log := cs_log st @ [e]\<rparr>"

text \<open>\<^verbatim>\<open>MonitoredMode::set\<close>\<close>

definition set_mode :: "ConsensusMode \<Rightarrow> ('tx, 'txid, 'n, 'lid, 'sid, 'ts, 'l) cx_step" where
  "set_mode m st = emit (EvModeChange (cs_mode st) m) (st\<lparr>cs_mode := m\<rparr>)"

section \<open>Disputes\<close>

text \<open>The votes of the peers whose transaction sets are known, on a new dispute.\<close>

fun dispute_peer_votes ::
  "('tx, 'txid, 'sid, 'ts) txset_ops \<Rightarrow> ('sid, 'ts) hm \<Rightarrow> 'txid \<Rightarrow> ('n, ('n, 'lid, 'sid) proposal) hm \<Rightarrow>
   ('tx, 'n) disputed_tx \<times> bool \<Rightarrow> ('tx, 'n) disputed_tx \<times> bool" where
  "dispute_peer_votes S acquired txID [] (dtx, changed) = (dtx, changed)"
| "dispute_peer_votes S acquired txID ((nodeId, peerPos) # ps) (dtx, changed) =
     dispute_peer_votes S acquired txID ps
       (case hm_find acquired (pr_position peerPos) of
          None \<Rightarrow> (dtx, changed)
        | Some cit \<Rightarrow> (case setVote nodeId (ts_exists S cit txID) dtx of (dtx', c) \<Rightarrow> (dtx', changed \<or> c)))"

definition create_dispute ::
  "('tx, 'txid, 'sid, 'ts) txset_ops \<Rightarrow> 'ts \<Rightarrow> 'txid \<times> bool \<Rightarrow> ('tx, 'txid, 'n, 'lid, 'sid, 'ts, 'l) cx_step" where
  "create_dispute S oset diff st =
     (case cs_result st of
        None \<Rightarrow> st
      | Some r \<Rightarrow>
          (case diff of (txId, inThisSet) \<Rightarrow>
           case (if inThisSet then ts_find S (cr_txns r) txId else ts_find S oset txId) of
             None \<Rightarrow> st
           | Some tx \<Rightarrow>
               let txID = tx_id S tx
               in if hm_find (cr_disputes r) txID \<noteq> None then st
                  else (case dispute_peer_votes S (cs_acquired st) txID (cs_currPeerPositions st)
                               (DisputedTx_new tx (ts_exists S (cr_txns r) txID), False) of
                          (dtx, changed) \<Rightarrow>
                            emit (EvShareTx (dt_tx dtx))
                              (st\<lparr>cs_peerUnchangedCounter := (if changed then 0 else cs_peerUnchangedCounter st),
                                  cs_result := Some (r\<lparr>cr_disputes := fst (hm_emplace (cr_disputes r) txID dtx)\<rparr>)\<rparr>))))"

definition createDisputes ::
  "('tx, 'txid, 'sid, 'ts) txset_ops \<Rightarrow> 'ts \<Rightarrow> ('tx, 'txid, 'n, 'lid, 'sid, 'ts, 'l) cx_step" where
  "createDisputes S oset st =
     (case cs_result st of
        None \<Rightarrow> st
      | Some r \<Rightarrow>
          if ts_id S oset \<in> set (cr_compares r) then st
          else let st1 = st\<lparr>cs_result := Some (r\<lparr>cr_compares := ts_id S oset # cr_compares r\<rparr>)\<rparr>
               in if ts_id S (cr_txns r) = ts_id S oset then st1
                  else fold (create_dispute S oset) (ts_compare S (cr_txns r) oset) st1)"

fun vote_disputes ::
  "('tx, 'txid, 'sid, 'ts) txset_ops \<Rightarrow> 'n \<Rightarrow> 'ts \<Rightarrow> ('txid, ('tx, 'n) disputed_tx) hm \<Rightarrow>
   ('txid, ('tx, 'n) disputed_tx) hm \<times> bool" where
  "vote_disputes S node other [] = ([], False)"
| "vote_disputes S node other ((k, d) # ds) =
     (case setVote node (ts_exists S other (tx_id S (dt_tx d))) d of (d', c) \<Rightarrow>
      case vote_disputes S node other ds of (ds', c') \<Rightarrow> ((k, d') # ds', c \<or> c'))"

definition updateDisputes ::
  "('tx, 'txid, 'sid, 'ts) txset_ops \<Rightarrow> 'n \<Rightarrow> 'ts \<Rightarrow> ('tx, 'txid, 'n, 'lid, 'sid, 'ts, 'l) cx_step" where
  "updateDisputes S node other st =
     (case cs_result st of
        None \<Rightarrow> st
      | Some r0 \<Rightarrow>
          let st1 = (if ts_id S other \<notin> set (cr_compares r0) then createDisputes S other st else st)
          in case cs_result st1 of
               None \<Rightarrow> st1
             | Some r \<Rightarrow>
                 (case vote_disputes S node other (cr_disputes r) of (ds, changed) \<Rightarrow>
                    st1\<lparr>cs_peerUnchangedCounter := (if changed then 0 else cs_peerUnchangedCounter st1),
                        cs_result := Some (r\<lparr>cr_disputes := ds\<rparr>)\<rparr>))"

section \<open>Transaction sets and peer proposals\<close>

definition gotTxSet ::
  "('tx, 'txid, 'sid, 'ts) txset_ops \<Rightarrow> nettime \<Rightarrow> 'ts \<Rightarrow> ('tx, 'txid, 'n, 'lid, 'sid, 'ts, 'l) cx_step" where
  "gotTxSet S now txSet st =
     (if cs_phase st = PhAccepted then st
      else
        let st1 = st\<lparr>cs_now := now\<rparr>;
            sid = ts_id S txSet
        in case hm_emplace (cs_acquired st1) sid txSet of
             (_, False) \<Rightarrow> st1
           | (acq, True) \<Rightarrow>
               let st2 = st1\<lparr>cs_acquired := acq\<rparr>
               in if cs_result st2 = None then st2
                  else fold (\<lambda>(nodeId, peerPos) s.
                              if pr_position peerPos = sid then updateDisputes S nodeId txSet s else s)
                         (cs_currPeerPositions st2) st2)"

definition peerProposalInternal ::
  "('tx, 'txid, 'n, 'lid, 'sid, 'ts, 'l) adaptor \<Rightarrow> ('tx, 'txid, 'sid, 'ts) txset_ops \<Rightarrow> nettime \<Rightarrow>
   ('n, 'lid, 'sid) proposal \<Rightarrow> ('tx, 'txid, 'n, 'lid, 'sid, 'ts, 'l) consensus \<Rightarrow>
   ('tx, 'txid, 'n, 'lid, 'sid, 'ts, 'l) consensus \<times> bool" where
  "peerProposalInternal A S now newPeerProp st =
     (if cs_phase st = PhAccepted then (st, False)
      else
        let st1 = st\<lparr>cs_now := now\<rparr>;
            peerID = pr_nodeID newPeerProp;
            peerPosIt = hm_find (cs_currPeerPositions st1) peerID
        in if pr_previousLedger newPeerProp \<noteq> cs_prevLedgerID st1 then (st1, False)
           else if peerID \<in> set (cs_deadNodes st1) then (st1, False)
           else if (case peerPosIt of None \<Rightarrow> False | Some old \<Rightarrow> pr_proposeSeq newPeerProp \<le> pr_proposeSeq old)
           then (st1, False)
           else if isBowOut newPeerProp
           then (st1\<lparr>cs_result := map_option (\<lambda>r. r\<lparr>cr_disputes := hm_map (\<lambda>_. unVote peerID) (cr_disputes r)\<rparr>)
                                   (cs_result st1),
                     cs_currPeerPositions := (case peerPosIt of
                                                None \<Rightarrow> cs_currPeerPositions st1
                                              | Some _ \<Rightarrow> hm_erase (cs_currPeerPositions st1) peerID),
                     cs_deadNodes := List.insert peerID (cs_deadNodes st1)\<rparr>, True)
           else
             let st2 = st1\<lparr>cs_currPeerPositions := (case peerPosIt of
                               Some _ \<Rightarrow> hm_assign (cs_currPeerPositions st1) peerID newPeerProp
                             | None \<Rightarrow> fst (hm_emplace (cs_currPeerPositions st1) peerID newPeerProp))\<rparr>;
                 st3 = (if isInitial newPeerProp
                        then st2\<lparr>cs_rawCloseTimes := (cs_rawCloseTimes st2)
                                   \<lparr>ct_peers := map_incr (pr_closeTime newPeerProp) (ct_peers (cs_rawCloseTimes st2))\<rparr>\<rparr>
                        else st2)
             in (case hm_find (cs_acquired st3) (pr_position newPeerProp) of
                   None \<Rightarrow> (case ad_acquireTxSet A (pr_position newPeerProp) of
                             Some s \<Rightarrow> gotTxSet S (cs_now st3) s st3
                           | None \<Rightarrow> st3)
                 | Some ait \<Rightarrow> (if cs_result st3 \<noteq> None then updateDisputes S (pr_nodeID newPeerProp) ait st3 else st3),
                 True))"

definition peerProposal ::
  "('tx, 'txid, 'n, 'lid, 'sid, 'ts, 'l) adaptor \<Rightarrow> ('tx, 'txid, 'sid, 'ts) txset_ops \<Rightarrow> nettime \<Rightarrow>
   ('n, 'lid, 'sid) proposal \<Rightarrow> ('tx, 'txid, 'n, 'lid, 'sid, 'ts, 'l) consensus \<Rightarrow>
   ('tx, 'txid, 'n, 'lid, 'sid, 'ts, 'l) consensus \<times> bool" where
  "peerProposal A S now newPeerPos st =
     (let peerID = pr_nodeID newPeerPos;
          props = (case hm_find (cs_recentPeerPositions st) peerID of None \<Rightarrow> [] | Some ps \<Rightarrow> ps);
          props1 = (if 10 \<le> length props then tl props else props)
      in peerProposalInternal A S now newPeerPos
           (st\<lparr>cs_recentPeerPositions := hm_assign (cs_recentPeerPositions st) peerID (props1 @ [newPeerPos])\<rparr>))"

definition playback_one ::
  "('tx, 'txid, 'n, 'lid, 'sid, 'ts, 'l) adaptor \<Rightarrow> ('tx, 'txid, 'sid, 'ts) txset_ops \<Rightarrow>
   ('n, 'lid, 'sid) proposal \<Rightarrow> ('tx, 'txid, 'n, 'lid, 'sid, 'ts, 'l) cx_step" where
  "playback_one A S pos st =
     (if pr_previousLedger pos = cs_prevLedgerID st
      then (case peerProposalInternal A S (cs_now st) pos st of
              (st', True) \<Rightarrow> emit (EvSharePosition pos) st'
            | (st', False) \<Rightarrow> st')
      else st)"

definition playbackProposals ::
  "('tx, 'txid, 'n, 'lid, 'sid, 'ts, 'l) adaptor \<Rightarrow> ('tx, 'txid, 'sid, 'ts) txset_ops \<Rightarrow>
   ('tx, 'txid, 'n, 'lid, 'sid, 'ts, 'l) cx_step" where
  "playbackProposals A S st =
     fold (playback_one A S) (concat (map snd (cs_recentPeerPositions st))) st"

section \<open>Rounds\<close>

definition startRoundInternal ::
  "('tx, 'txid, 'n, 'lid, 'sid, 'ts, 'l) adaptor \<Rightarrow> ('tx, 'txid, 'sid, 'ts) txset_ops \<Rightarrow> ('l, 'lid) cx_ledger_ops \<Rightarrow>
   (nettime \<Rightarrow> ('tx, 'txid, 'n, 'lid, 'sid, 'ts, 'l) consensus \<Rightarrow> ('tx, 'txid, 'n, 'lid, 'sid, 'ts, 'l) consensus option) \<Rightarrow>
   nettime \<Rightarrow> 'lid \<Rightarrow> 'l \<Rightarrow> ConsensusMode \<Rightarrow> ('tx, 'txid, 'n, 'lid, 'sid, 'ts, 'l) consensus \<Rightarrow>
   ('tx, 'txid, 'n, 'lid, 'sid, 'ts, 'l) consensus option" where
  "startRoundInternal A S K timer now prevLedgerID prevLedger mode st =
     (let st1 = set_mode mode (st\<lparr>cs_phase := PhOpen\<rparr>);
          st2 = st1\<lparr>cs_now := now, cs_prevLedgerID := prevLedgerID, cs_previousLedger := prevLedger,
                    cs_result := None, cs_convergePercent := 0, cs_closeTimeAvalancheState := AvInit,
                    cs_haveCloseTimeConsensus := False,
                    cs_openTime := timer_reset (ad_clock A) (cs_openTime st1),
                    cs_currPeerPositions := [], cs_acquired := [],
                    cs_rawCloseTimes := \<lparr>ct_peers = [], ct_self = 0\<rparr>, cs_deadNodes := [],
                    cs_closeResolution :=
                      getNextLedgerTimeResolution (le_closeTimeResolution K prevLedger)
                        (le_closeAgree K prevLedger) (le_seq K prevLedger + 1)\<rparr>;
          st3 = playbackProposals A S st2
      in if length (cs_currPeerPositions st3) > cs_prevProposers st3 div 2
         then timer (cs_now st3) st3 else Some st3)"

definition leaveConsensus :: "('tx, 'txid, 'n, 'lid, 'sid, 'ts, 'l) cx_step" where
  "leaveConsensus st =
     (if cs_mode st = Proposing
      then let st1 = (case cs_result st of
                        None \<Rightarrow> st
                      | Some r \<Rightarrow>
                          if isBowOut (cr_position r) then st
                          else let pos = bowOut (cs_now st) (cr_position r)
                               in emit (EvPropose pos) (st\<lparr>cs_result := Some (r\<lparr>cr_position := pos\<rparr>)\<rparr>))
           in set_mode Observing st1
      else st)"

definition handleWrongLedger ::
  "('tx, 'txid, 'n, 'lid, 'sid, 'ts, 'l) adaptor \<Rightarrow> ('tx, 'txid, 'sid, 'ts) txset_ops \<Rightarrow> ('l, 'lid) cx_ledger_ops \<Rightarrow>
   (nettime \<Rightarrow> ('tx, 'txid, 'n, 'lid, 'sid, 'ts, 'l) consensus \<Rightarrow> ('tx, 'txid, 'n, 'lid, 'sid, 'ts, 'l) consensus option) \<Rightarrow>
   'lid \<Rightarrow> ('tx, 'txid, 'n, 'lid, 'sid, 'ts, 'l) consensus \<Rightarrow>
   ('tx, 'txid, 'n, 'lid, 'sid, 'ts, 'l) consensus option" where
  "handleWrongLedger A S K timer lgrId st =
     (let st1 = leaveConsensus st;
          st2 = (if cs_prevLedgerID st1 \<noteq> lgrId
                 then let st' = st1\<lparr>cs_prevLedgerID := lgrId,
                                    cs_result := map_option (\<lambda>r. r\<lparr>cr_disputes := [], cr_compares := []\<rparr>) (cs_result st1),
                                    cs_currPeerPositions := [],
                                    cs_rawCloseTimes := (cs_rawCloseTimes st1)\<lparr>ct_peers := []\<rparr>,
                                    cs_deadNodes := []\<rparr>
                      in playbackProposals A S st'
                 else st1)
      in if le_id K (cs_previousLedger st2) = cs_prevLedgerID st2 then Some st2
         else (case ad_acquireLedger A (cs_prevLedgerID st2) of
                 Some newLedger \<Rightarrow> startRoundInternal A S K timer (cs_now st2) lgrId newLedger SwitchedLedger st2
               | None \<Rightarrow> Some (set_mode WrongLedger st2)))"

definition checkLedger ::
  "('tx, 'txid, 'n, 'lid, 'sid, 'ts, 'l) adaptor \<Rightarrow> ('tx, 'txid, 'sid, 'ts) txset_ops \<Rightarrow> ('l, 'lid) cx_ledger_ops \<Rightarrow>
   (nettime \<Rightarrow> ('tx, 'txid, 'n, 'lid, 'sid, 'ts, 'l) consensus \<Rightarrow> ('tx, 'txid, 'n, 'lid, 'sid, 'ts, 'l) consensus option) \<Rightarrow>
   ('tx, 'txid, 'n, 'lid, 'sid, 'ts, 'l) consensus \<Rightarrow>
   ('tx, 'txid, 'n, 'lid, 'sid, 'ts, 'l) consensus option" where
  "checkLedger A S K timer st =
     (let netLgr = ad_getPrevLedger A (cs_prevLedgerID st) (cs_previousLedger st) (cs_mode st)
      in if netLgr \<noteq> cs_prevLedgerID st then handleWrongLedger A S K timer netLgr st
         else if le_id K (cs_previousLedger st) \<noteq> cs_prevLedgerID st then handleWrongLedger A S K timer netLgr st
         else Some st)"

section \<open>Closing the ledger\<close>

definition closeLedger ::
  "('tx, 'txid, 'n, 'lid, 'sid, 'ts, 'l) adaptor \<Rightarrow> ('tx, 'txid, 'sid, 'ts) txset_ops \<Rightarrow>
   ('tx, 'txid, 'n, 'lid, 'sid, 'ts, 'l) cx_step" where
  "closeLedger A S st =
     (let st1 = st\<lparr>cs_phase := PhEstablish,
                   cs_rawCloseTimes := (cs_rawCloseTimes st)\<lparr>ct_self := cs_now st\<rparr>,
                   cs_peerUnchangedCounter := 0, cs_establishCounter := 0\<rparr>;
          r0 = ad_onClose A (cs_previousLedger st1) (cs_now st1) (cs_mode st1);
          r = r0\<lparr>cr_roundTime := timer_reset (ad_clock A) (cr_roundTime r0)\<rparr>;
          (acq, new) = hm_emplace (cs_acquired st1) (ts_id S (cr_txns r)) (cr_txns r);
          st2 = st1\<lparr>cs_result := Some r, cs_acquired := acq\<rparr>;
          st3 = (if new then emit (EvShareTxSet (cr_txns r)) st2 else st2);
          st4 = (if cs_mode st3 = Proposing then emit (EvPropose (cr_position r)) st3 else st3)
      in fold (\<lambda>(nodeId, peerPos) s.
                 case hm_find (cs_acquired s) (pr_position peerPos) of
                   Some other \<Rightarrow> createDisputes S other s
                 | None \<Rightarrow> s)
           (cs_currPeerPositions st4) st4)"

definition phaseOpen ::
  "('tx, 'txid, 'n, 'lid, 'sid, 'ts, 'l) adaptor \<Rightarrow> ('tx, 'txid, 'sid, 'ts) txset_ops \<Rightarrow> ('l, 'lid) cx_ledger_ops \<Rightarrow>
   ('tx, 'txid, 'n, 'lid, 'sid, 'ts, 'l) cx_step" where
  "phaseOpen A S K st =
     (let anyTransactions = ad_hasOpenTransactions A;
          proposersClosed = length (cs_currPeerPositions st);
          proposersValidated = ad_proposersValidated A (cs_prevLedgerID st);
          st1 = st\<lparr>cs_openTime := timer_tick (ad_clock A) (cs_openTime st)\<rparr>;
          lgr = cs_previousLedger st1;
          prevCloseTime = le_closeTime K lgr;
          previousCloseCorrect = (cs_mode st1 \<noteq> WrongLedger \<and> le_closeAgree K lgr \<and>
                                  uint prevCloseTime \<noteq> uint (le_parentCloseTime K lgr) + 1);
          lastCloseTime = (if previousCloseCorrect then prevCloseTime else cs_prevCloseTime st1);
          sinceClose = (if lastCloseTime \<le> cs_now st1 then uint (cs_now st1 - lastCloseTime) * 1000
                        else - (uint (lastCloseTime - cs_now st1) * 1000));
          idleInterval = max (ledgerIdleInterval (ad_parms A)) (uint (2 * le_closeTimeResolution K lgr) * 1000)
      in if shouldCloseLedger anyTransactions (cs_prevProposers st1) proposersClosed proposersValidated
              (cs_prevRoundTime st1) sinceClose (timer_read (cs_openTime st1)) idleInterval (ad_parms A)
         then closeLedger A S st1 else st1)"

section \<open>Pausing for lagging validators\<close>

definition kMaxPausePhase :: nat where
  "kMaxPausePhase = 4"

text \<open>Subtraction of \<^verbatim>\<open>std::size_t\<close> values wraps at 64 bits.\<close>

definition size_diff :: "nat \<Rightarrow> nat \<Rightarrow> nat" where
  "size_diff a b = nat ((int a - int b) mod 2 ^ 64)"

definition pause_threshold :: "nat \<Rightarrow> nat \<Rightarrow> nat \<Rightarrow> nat \<Rightarrow> nat \<Rightarrow> bool" where
  "pause_threshold phase totalValidators quorum laggards offline =
     (if phase = 0 then laggards + offline > size_diff totalValidators quorum
      else if phase = kMaxPausePhase then True
      else
        let nonLaggards = f32_of_nat (size_diff totalValidators (laggards + offline));
            quorumRatio = f32_div (f32_of_nat quorum) (f32_of_nat totalValidators);
            allowedDissent = f32_sub 1 quorumRatio;
            phaseFactor = f32_div (f32_of_nat phase) (f32_of_nat kMaxPausePhase)
        in f32_div nonLaggards (f32_of_nat totalValidators) <
             f32_add quorumRatio (f32_mult allowedDissent phaseFactor))"

definition shouldPause ::
  "('tx, 'txid, 'n, 'lid, 'sid, 'ts, 'l) adaptor \<Rightarrow> ('l, 'lid) cx_ledger_ops \<Rightarrow>
   ('tx, 'txid, 'n, 'lid, 'sid, 'ts, 'l) consensus \<Rightarrow> bool" where
  "shouldPause A K st =
     (let sq = le_seq K (cs_previousLedger st);
          ahead = sq - min (ad_getValidLedgerIndex A) sq;
          (quorum, trustedKeys) = ad_getQuorumKeys A;
          totalValidators = length trustedKeys;
          (laggards, remaining) = ad_laggards A sq trustedKeys;
          offline = length remaining;
          roundTime = (case cs_result st of None \<Rightarrow> 0 | Some r \<Rightarrow> timer_read (cr_roundTime r))
      in if ahead = 0 \<or> laggards = 0 \<or> totalValidators = 0 \<or> \<not> ad_validator A \<or> \<not> ad_haveValidated A \<or>
            roundTime > ledgerMaxConsensus (ad_parms A)
         then False
         else pause_threshold ((ahead - 1) mod (kMaxPausePhase + 1)) totalValidators quorum laggards offline)"

section \<open>Updating our position\<close>

definition participantsNeeded :: "int \<Rightarrow> int \<Rightarrow> int" where
  "participantsNeeded participants percent =
     (let result = (participants * percent + percent sdiv 2) sdiv 100
      in if result = 0 then 1 else result)"

definition asCloseTime :: "('tx, 'txid, 'n, 'lid, 'sid, 'ts, 'l) consensus \<Rightarrow> nettime \<Rightarrow> nettime" where
  "asCloseTime st raw = roundCloseTime raw (cs_closeResolution st)"

text \<open>The first loop: stale positions are removed with their votes, the others vote for a close time.\<close>

fun stale_loop ::
  "(nettime \<Rightarrow> nettime) \<Rightarrow> nettime \<Rightarrow> ('n, ('n, 'lid, 'sid) proposal) hm \<Rightarrow> ('txid, ('tx, 'n) disputed_tx) hm \<Rightarrow>
   (nettime \<times> nat) list \<Rightarrow>
   ('n, ('n, 'lid, 'sid) proposal) hm \<times> ('txid, ('tx, 'n) disputed_tx) hm \<times> (nettime \<times> nat) list" where
  "stale_loop ct peerCutoff [] ds votes = ([], ds, votes)"
| "stale_loop ct peerCutoff ((nodeId, peerProp) # ps) ds votes =
     (if isStale peerProp peerCutoff
      then stale_loop ct peerCutoff ps (hm_map (\<lambda>_. unVote (pr_nodeID peerProp)) ds) votes
      else (case stale_loop ct peerCutoff ps ds (map_incr (ct (pr_closeTime peerProp)) votes) of
              (ps', ds', votes') \<Rightarrow> ((nodeId, peerProp) # ps', ds', votes')))"

text \<open>The second loop: our vote on every dispute, and the set with the changed votes if there are any.\<close>

fun update_votes ::
  "('tx, 'txid, 'sid, 'ts) txset_ops \<Rightarrow> int \<Rightarrow> bool \<Rightarrow> consensus_parms \<Rightarrow> 'ts \<Rightarrow>
   ('txid, ('tx, 'n) disputed_tx) hm \<Rightarrow> 'ts option \<Rightarrow> ('txid, ('tx, 'n) disputed_tx) hm \<times> 'ts option" where
  "update_votes S percent proposing parms txns [] mutableSet = ([], mutableSet)"
| "update_votes S percent proposing parms txns ((txId, dispute) # ds) mutableSet =
     (case updateVote percent proposing parms dispute of (d, changed) \<Rightarrow>
      let mutableSet1 =
            (if changed
             then let s = (case mutableSet of None \<Rightarrow> txns | Some m \<Rightarrow> m)
                  in Some (if dt_ourVote d then ts_insert S (dt_tx d) s else ts_erase S txId s)
             else mutableSet)
      in case update_votes S percent proposing parms txns ds mutableSet1 of
           (ds', m') \<Rightarrow> ((txId, d) # ds', m'))"

text \<open>The loop over the close-time votes, latest time first: time, threshold and consensus flag.\<close>

fun close_time_loop ::
  "int \<Rightarrow> (nettime \<times> nat) list \<Rightarrow> nettime \<times> int \<times> bool \<Rightarrow> nettime \<times> int \<times> bool" where
  "close_time_loop threshConsensus [] acc = acc"
| "close_time_loop threshConsensus ((t, v) # vs) (ct, threshVote, have) =
     close_time_loop threshConsensus vs
       (if threshVote \<le> int v
        then (t, int v, have \<or> threshConsensus \<le> int v)
        else (ct, threshVote, have))"

definition close_time_consensus ::
  "('tx, 'txid, 'n, 'lid, 'sid, 'ts, 'l) adaptor \<Rightarrow> (nettime \<times> nat) list \<Rightarrow> ('n, 'lid, 'sid) proposal \<Rightarrow>
   ('tx, 'txid, 'n, 'lid, 'sid, 'ts, 'l) consensus \<Rightarrow>
   ('tx, 'txid, 'n, 'lid, 'sid, 'ts, 'l) consensus \<times> nettime" where
  "close_time_consensus A closeTimeVotes position st =
     (if cs_currPeerPositions st = []
      then (st\<lparr>cs_haveCloseTimeConsensus := True\<rparr>, asCloseTime st (pr_closeTime position))
      else
        let (neededWeight, newState) =
              getNeededWeight (cs_closeTimeAvalancheState st) (cs_convergePercent st) 0 0;
            proposing = (cs_mode st = Proposing);
            votes = (if proposing then map_incr (asCloseTime st (pr_closeTime position)) closeTimeVotes
                     else closeTimeVotes);
            participants = int (length (cs_currPeerPositions st)) + (if proposing then 1 else 0);
            threshVote = participantsNeeded participants neededWeight;
            threshConsensus = participantsNeeded participants (avCtConsensusPct (ad_parms A));
            (ct, _, have) = close_time_loop threshConsensus (rev votes) (0, threshVote, False)
        in (st\<lparr>cs_closeTimeAvalancheState := (case newState of Some s \<Rightarrow> s | None \<Rightarrow> cs_closeTimeAvalancheState st),
               cs_haveCloseTimeConsensus := have\<rparr>, ct))"

text \<open>Our new position: the set, its proposal, and the votes of the peers that already hold it.\<close>

definition change_position ::
  "('tx, 'txid, 'sid, 'ts) txset_ops \<Rightarrow> 'ts \<Rightarrow> nettime \<Rightarrow> ('tx, 'txid, 'n, 'lid, 'sid, 'ts) consensus_result \<Rightarrow>
   ('tx, 'txid, 'n, 'lid, 'sid, 'ts, 'l) cx_step" where
  "change_position S ourNewSet consensusCloseTime r st =
     (let newID = ts_id S ourNewSet;
          r1 = r\<lparr>cr_txns := ourNewSet, cr_position := changePosition newID consensusCloseTime (cs_now st) (cr_position r)\<rparr>;
          (acq, new) = hm_emplace (cs_acquired st) newID ourNewSet;
          st1 = st\<lparr>cs_result := Some r1, cs_acquired := acq\<rparr>;
          st2 = (if new
                 then let s = (if isBowOut (cr_position r1) then st1 else emit (EvShareTxSet ourNewSet) st1)
                      in fold (\<lambda>(nodeId, peerPos) s.
                                 if pr_position peerPos = newID then updateDisputes S nodeId ourNewSet s else s)
                           (cs_currPeerPositions s) s
                 else st1)
      in if \<not> isBowOut (cr_position r1) \<and> cs_mode st2 = Proposing
         then emit (EvPropose (cr_position r1)) st2 else st2)"

definition updateOurPositions ::
  "('tx, 'txid, 'n, 'lid, 'sid, 'ts, 'l) adaptor \<Rightarrow> ('tx, 'txid, 'sid, 'ts) txset_ops \<Rightarrow>
   ('tx, 'txid, 'n, 'lid, 'sid, 'ts, 'l) cx_step" where
  "updateOurPositions A S st =
     (case cs_result st of
        None \<Rightarrow> st
      | Some r \<Rightarrow>
          let parms = ad_parms A;
              peerCutoff = cs_now st - of_int (proposeFRESHNESS parms);
              ourCutoff = cs_now st - of_int (proposeINTERVAL parms);
              (peers, ds1, closeTimeVotes) =
                stale_loop (asCloseTime st) peerCutoff (cs_currPeerPositions st) (cr_disputes r) [];
              (ds2, mutableSet) =
                update_votes S (cs_convergePercent st) (cs_mode st = Proposing) parms (cr_txns r) ds1 None;
              r1 = r\<lparr>cr_disputes := ds2\<rparr>;
              st1 = st\<lparr>cs_currPeerPositions := peers, cs_result := Some r1, cs_haveCloseTimeConsensus := False\<rparr>;
              (st2, consensusCloseTime) = close_time_consensus A closeTimeVotes (cr_position r1) st1;
              ourNewSet =
                (if mutableSet = None \<and>
                    (consensusCloseTime \<noteq> asCloseTime st2 (pr_closeTime (cr_position r1)) \<or>
                     isStale (cr_position r1) ourCutoff)
                 then Some (cr_txns r1) else mutableSet)
          in case ourNewSet of
               None \<Rightarrow> st2
             | Some s \<Rightarrow> change_position S s consensusCloseTime r1 st2)"

section \<open>Establishing consensus\<close>

definition haveConsensus ::
  "('tx, 'txid, 'n, 'lid, 'sid, 'ts, 'l) adaptor \<Rightarrow> ('tx, 'txid, 'n, 'lid, 'sid, 'ts, 'l) consensus \<Rightarrow>
   ('tx, 'txid, 'n, 'lid, 'sid, 'ts, 'l) consensus \<times> bool" where
  "haveConsensus A st =
     (case cs_result st of
        None \<Rightarrow> (st, False)
      | Some r \<Rightarrow>
          let parms = ad_parms A;
              ourPosition = pr_position (cr_position r);
              agree = length (filter (\<lambda>(_, p). pr_position p = ourPosition) (cs_currPeerPositions st));
              disagree = length (filter (\<lambda>(_, p). pr_position p \<noteq> ourPosition) (cs_currPeerPositions st));
              currentFinished = ad_proposersFinished A (cs_previousLedger st) (cs_prevLedgerID st);
              proposing = (cs_mode st = Proposing);
              isStalled = (cs_haveCloseTimeConsensus st \<and> cr_disputes r \<noteq> [] \<and>
                 list_all (\<lambda>(_, d). stalled parms proposing (cs_peerUnchangedCounter st) d) (cr_disputes r));
              state = checkConsensus (cs_prevProposers st) (agree + disagree) agree currentFinished
                        (cs_prevRoundTime st) (timer_read (cr_roundTime r)) isStalled parms proposing;
              st1 = st\<lparr>cs_result := Some (r\<lparr>cr_state := state\<rparr>)\<rparr>
          in if state = CsNo then (st1, False)
             else if state = CsExpired
             then (if cs_establishCounter st1 < avalancheCutoffs_size * avMinRounds parms then (st1, False)
                   else (leaveConsensus st1, True))
             else (st1, True))"

definition phaseEstablish ::
  "('tx, 'txid, 'n, 'lid, 'sid, 'ts, 'l) adaptor \<Rightarrow> ('tx, 'txid, 'sid, 'ts) txset_ops \<Rightarrow> ('l, 'lid) cx_ledger_ops \<Rightarrow>
   ('tx, 'txid, 'n, 'lid, 'sid, 'ts, 'l) cx_step" where
  "phaseEstablish A S K st =
     (case cs_result st of
        None \<Rightarrow> st
      | Some r0 \<Rightarrow>
          let parms = ad_parms A;
              r = r0\<lparr>cr_roundTime := timer_tick (ad_clock A) (cr_roundTime r0),
                     cr_proposers := length (cs_currPeerPositions st)\<rparr>;
              roundTime = timer_read (cr_roundTime r);
              st1 = st\<lparr>cs_peerUnchangedCounter := Suc (cs_peerUnchangedCounter st),
                       cs_establishCounter := Suc (cs_establishCounter st),
                       cs_result := Some r,
                       cs_convergePercent :=
                         (roundTime * 100) sdiv max (cs_prevRoundTime st) (avMinConsensusTime parms)\<rparr>
          in if roundTime < ledgerMinConsensus parms then st1
             else
               let st2 = updateOurPositions A S st1
               in if shouldPause A K st2 then st2
                  else (case haveConsensus A st2 of
                          (st3, False) \<Rightarrow> st3
                        | (st3, True) \<Rightarrow>
                            if \<not> cs_haveCloseTimeConsensus st3 then st3
                            else (case cs_result st3 of
                                    None \<Rightarrow> st3
                                  | Some r' \<Rightarrow>
                                      let n = length (cs_currPeerPositions st3);
                                          st4 = (emit (EvOperatingMode n) st3)
                                            \<lparr>cs_prevProposers := n, cs_prevRoundTime := timer_read (cr_roundTime r'),
                                             cs_phase := PhAccepted\<rparr>
                                      in emit (EvAccept r' (cs_previousLedger st4) (cs_closeResolution st4)
                                                (cs_rawCloseTimes st4) (cs_mode st4) (ad_validating A)) st4)))"

section \<open>Entry points\<close>

fun timerEntry ::
  "('tx, 'txid, 'n, 'lid, 'sid, 'ts, 'l) adaptor \<Rightarrow> ('tx, 'txid, 'sid, 'ts) txset_ops \<Rightarrow> ('l, 'lid) cx_ledger_ops \<Rightarrow>
   nat \<Rightarrow> nettime \<Rightarrow> ('tx, 'txid, 'n, 'lid, 'sid, 'ts, 'l) consensus \<Rightarrow>
   ('tx, 'txid, 'n, 'lid, 'sid, 'ts, 'l) consensus option" where
  "timerEntry A S K 0 now st = None"
| "timerEntry A S K (Suc fuel) now st =
     (if cs_phase st = PhAccepted then Some st
      else do {
        st1 \<leftarrow> checkLedger A S K (timerEntry A S K fuel) (st\<lparr>cs_now := now\<rparr>);
        Some (case cs_phase st1 of
                PhOpen \<Rightarrow> phaseOpen A S K st1
              | PhEstablish \<Rightarrow> phaseEstablish A S K st1
              | PhAccepted \<Rightarrow> st1)
      })"

definition startRound ::
  "('tx, 'txid, 'n, 'lid, 'sid, 'ts, 'l) adaptor \<Rightarrow> ('tx, 'txid, 'sid, 'ts) txset_ops \<Rightarrow> ('l, 'lid) cx_ledger_ops \<Rightarrow>
   nat \<Rightarrow> nettime \<Rightarrow> 'lid \<Rightarrow> 'l \<Rightarrow> 'n list \<Rightarrow> bool \<Rightarrow>
   ('tx, 'txid, 'n, 'lid, 'sid, 'ts, 'l) consensus \<Rightarrow> ('tx, 'txid, 'n, 'lid, 'sid, 'ts, 'l) consensus option" where
  "startRound A S K fuel now prevLedgerID prevLedger nowUntrusted proposing st =
     (let st1 = (if cs_firstRound st
                 then st\<lparr>cs_prevRoundTime := ledgerIdleInterval (ad_parms A),
                         cs_prevCloseTime := le_closeTime K prevLedger, cs_firstRound := False\<rparr>
                 else st\<lparr>cs_prevCloseTime := ct_self (cs_rawCloseTimes st)\<rparr>);
          st2 = st1\<lparr>cs_recentPeerPositions := fold (\<lambda>n m. hm_erase m n) nowUntrusted (cs_recentPeerPositions st1)\<rparr>;
          startMode = (if proposing then Proposing else Observing);
          (ledger, mode) =
            (if le_id K prevLedger \<noteq> prevLedgerID
             then (case ad_acquireLedger A prevLedgerID of
                     Some newLedger \<Rightarrow> (newLedger, startMode)
                   | None \<Rightarrow> (prevLedger, WrongLedger))
             else (prevLedger, startMode))
      in startRoundInternal A S K (timerEntry A S K fuel) now prevLedgerID ledger mode st2)"

definition simulate ::
  "('tx, 'txid, 'n, 'lid, 'sid, 'ts, 'l) adaptor \<Rightarrow> ('tx, 'txid, 'sid, 'ts) txset_ops \<Rightarrow> nettime \<Rightarrow> msecs option \<Rightarrow>
   ('tx, 'txid, 'n, 'lid, 'sid, 'ts, 'l) cx_step" where
  "simulate A S now consensusDelay st =
     (let st1 = closeLedger A S (st\<lparr>cs_now := now\<rparr>)
      in case cs_result st1 of
           None \<Rightarrow> st1
         | Some r0 \<Rightarrow>
             let n = length (cs_currPeerPositions st1);
                 delay = (case consensusDelay of Some d \<Rightarrow> d | None \<Rightarrow> 100);
                 r = r0\<lparr>cr_roundTime := timer_tick_fixed delay (cr_roundTime r0), cr_proposers := n\<rparr>;
                 st2 = st1\<lparr>cs_result := Some r, cs_prevProposers := n,
                           cs_prevRoundTime := timer_read (cr_roundTime r), cs_phase := PhAccepted\<rparr>
             in emit (EvForceAccept r (cs_previousLedger st2) (cs_closeResolution st2)
                       (cs_rawCloseTimes st2) (cs_mode st2)) st2)"

end
