(* ===== verification/ConsensusInvariants.thy ===== *)
theory ConsensusInvariants
  imports ConsensusEngine
begin

text \<open>
  The invariant of the consensus engine and its preservation by every member function. The interface
  \<open>tx_set\<close> states what the engine asks of its transaction sets; inside it the disputes are shown to
  be exactly what the known transaction sets of the current peers make them.
\<close>

section \<open>The invariant\<close>

text \<open>
  The votes recorded for a dispute: a node without a current position has none, and a node whose
  position is known votes for the transaction exactly when its set holds it. The nodes in \<open>pend\<close> are
  still to be processed.
\<close>

definition votes_ok ::
  "('tx, 'txid, 'sid, 'ts) txset_ops \<Rightarrow> ('sid, 'ts) hm \<Rightarrow> ('n, ('n, 'lid, 'sid) proposal) hm \<Rightarrow> 'n set \<Rightarrow>
   'txid \<Rightarrow> ('tx, 'n) disputed_tx \<Rightarrow> bool" where
  "votes_ok S acq peers pend k d \<longleftrightarrow>
     (\<forall>n. n \<notin> pend \<longrightarrow> hm_find peers n = None \<longrightarrow> hm_find (dt_votes d) n = None) \<and>
     (\<forall>n p s. n \<notin> pend \<longrightarrow> hm_find peers n = Some p \<longrightarrow> hm_find acq (pr_position p) = Some s \<longrightarrow>
        hm_find (dt_votes d) n = Some (ts_exists S s k))"

definition dispute_ok ::
  "('tx, 'txid, 'sid, 'ts) txset_ops \<Rightarrow> ('tx \<Rightarrow> bool) \<Rightarrow> 'ts \<Rightarrow> 'txid \<Rightarrow> ('tx, 'n) disputed_tx \<Rightarrow> bool" where
  "dispute_ok S wft txns k d \<longleftrightarrow>
     tx_id S (dt_tx d) = k \<and> wft (dt_tx d) \<and> dt_wf d \<and> dt_ourVote d = ts_exists S txns k"

definition disputes_inv ::
  "('tx, 'txid, 'sid, 'ts) txset_ops \<Rightarrow> ('tx \<Rightarrow> bool) \<Rightarrow> ('sid, 'ts) hm \<Rightarrow>
   ('n, ('n, 'lid, 'sid) proposal) hm \<Rightarrow> 'n set \<Rightarrow> 'ts \<Rightarrow> ('txid, ('tx, 'n) disputed_tx) hm \<Rightarrow> bool" where
  "disputes_inv S wft acq peers pend txns ds \<longleftrightarrow> hm_wf ds \<and>
     (\<forall>k d. hm_find ds k = Some d \<longrightarrow> dispute_ok S wft txns k d \<and> votes_ok S acq peers pend k d)"

text \<open>Every difference between our set and a set we compared with is in dispute.\<close>

definition compared_ok ::
  "('tx, 'txid, 'sid, 'ts) txset_ops \<Rightarrow> ('ts \<Rightarrow> bool) \<Rightarrow> ('tx, 'txid, 'n, 'lid, 'sid, 'ts) consensus_result \<Rightarrow> bool" where
  "compared_ok S wfs r \<longleftrightarrow>
     (\<forall>s x. wfs s \<longrightarrow> ts_id S s \<in> set (cr_compares r) \<longrightarrow>
        ts_exists S (cr_txns r) x \<noteq> ts_exists S s x \<longrightarrow> hm_find (cr_disputes r) x \<noteq> None)"

definition peers_compared ::
  "('tx, 'txid, 'sid, 'ts) txset_ops \<Rightarrow> ('sid, 'ts) hm \<Rightarrow> ('n, ('n, 'lid, 'sid) proposal) hm \<Rightarrow> 'n set \<Rightarrow>
   ('tx, 'txid, 'n, 'lid, 'sid, 'ts) consensus_result \<Rightarrow> bool" where
  "peers_compared S acq peers pend r \<longleftrightarrow>
     (\<forall>n p. n \<notin> pend \<longrightarrow> hm_find peers n = Some p \<longrightarrow> hm_find acq (pr_position p) \<noteq> None \<longrightarrow>
        pr_position p \<in> set (cr_compares r))"

definition result_inv ::
  "('tx, 'txid, 'sid, 'ts) txset_ops \<Rightarrow> ('ts \<Rightarrow> bool) \<Rightarrow> ('tx \<Rightarrow> bool) \<Rightarrow> ('sid, 'ts) hm \<Rightarrow>
   ('n, ('n, 'lid, 'sid) proposal) hm \<Rightarrow> 'n set \<Rightarrow> 'n set \<Rightarrow>
   ('tx, 'txid, 'n, 'lid, 'sid, 'ts) consensus_result \<Rightarrow> bool" where
  "result_inv S wfs wft acq peers pv pc r \<longleftrightarrow>
     wfs (cr_txns r) \<and> pr_position (cr_position r) = ts_id S (cr_txns r) \<and>
     hm_find acq (ts_id S (cr_txns r)) \<noteq> None \<and>
     disputes_inv S wft acq peers pv (cr_txns r) (cr_disputes r) \<and>
     compared_ok S wfs r \<and> peers_compared S acq peers pc r"

definition acquired_inv :: "('tx, 'txid, 'sid, 'ts) txset_ops \<Rightarrow> ('ts \<Rightarrow> bool) \<Rightarrow> ('sid, 'ts) hm \<Rightarrow> bool" where
  "acquired_inv S wfs acq \<longleftrightarrow> hm_wf acq \<and> (\<forall>i s. hm_find acq i = Some s \<longrightarrow> ts_id S s = i \<and> wfs s)"

definition peers_inv :: "'lid \<Rightarrow> 'n list \<Rightarrow> ('n, ('n, 'lid, 'sid) proposal) hm \<Rightarrow> bool" where
  "peers_inv lid dead peers \<longleftrightarrow> hm_wf peers \<and>
     (\<forall>n p. hm_find peers n = Some p \<longrightarrow>
        pr_nodeID p = n \<and> pr_previousLedger p = lid \<and> \<not> isBowOut p \<and> n \<notin> set dead)"

definition recent_inv :: "('n, ('n, 'lid, 'sid) proposal list) hm \<Rightarrow> bool" where
  "recent_inv recent \<longleftrightarrow> hm_wf recent \<and>
     (\<forall>n ps. hm_find recent n = Some ps \<longrightarrow> length ps \<le> 10 \<and> (\<forall>p \<in> set ps. pr_nodeID p = n))"

definition phase_inv :: "ConsensusPhase \<Rightarrow> 'r option \<Rightarrow> bool" where
  "phase_inv ph r \<longleftrightarrow> (ph = PhOpen \<longrightarrow> r = None) \<and> (ph = PhEstablish \<longrightarrow> r \<noteq> None)"

definition cx_inv_pend ::
  "('tx, 'txid, 'sid, 'ts) txset_ops \<Rightarrow> ('ts \<Rightarrow> bool) \<Rightarrow> ('tx \<Rightarrow> bool) \<Rightarrow> 'n set \<Rightarrow> 'n set \<Rightarrow>
   ('tx, 'txid, 'n, 'lid, 'sid, 'ts, 'l) consensus \<Rightarrow> bool" where
  "cx_inv_pend S wfs wft pv pc st \<longleftrightarrow>
     acquired_inv S wfs (cs_acquired st) \<and>
     peers_inv (cs_prevLedgerID st) (cs_deadNodes st) (cs_currPeerPositions st) \<and>
     recent_inv (cs_recentPeerPositions st) \<and> close_map_wf (ct_peers (cs_rawCloseTimes st)) \<and>
     (\<forall>r. cs_result st = Some r \<longrightarrow>
        result_inv S wfs wft (cs_acquired st) (cs_currPeerPositions st) pv pc r)"

definition cx_inv ::
  "('tx, 'txid, 'sid, 'ts) txset_ops \<Rightarrow> ('ts \<Rightarrow> bool) \<Rightarrow> ('tx \<Rightarrow> bool) \<Rightarrow>
   ('tx, 'txid, 'n, 'lid, 'sid, 'ts, 'l) consensus \<Rightarrow> bool" where
  "cx_inv S wfs wft st \<longleftrightarrow> phase_inv (cs_phase st) (cs_result st) \<and> cx_inv_pend S wfs wft {} {} st"

section \<open>Frames\<close>

text \<open>What a step on the disputes leaves alone: everything but the result, the log and the counter.\<close>

definition cx_core :: "('tx, 'txid, 'n, 'lid, 'sid, 'ts, 'l) cx_step" where
  "cx_core st = st\<lparr>cs_result := None, cs_log := [], cs_peerUnchangedCounter := 0\<rparr>"

lemma cx_coreD:
  assumes "cx_core s = cx_core t"
  shows "cs_phase s = cs_phase t" "cs_mode s = cs_mode t" "cs_now s = cs_now t"
    "cs_prevLedgerID s = cs_prevLedgerID t" "cs_previousLedger s = cs_previousLedger t"
    "cs_acquired s = cs_acquired t" "cs_rawCloseTimes s = cs_rawCloseTimes t"
    "cs_currPeerPositions s = cs_currPeerPositions t" "cs_recentPeerPositions s = cs_recentPeerPositions t"
    "cs_deadNodes s = cs_deadNodes t" "cs_haveCloseTimeConsensus s = cs_haveCloseTimeConsensus t"
    "cs_prevProposers s = cs_prevProposers t" "cs_prevRoundTime s = cs_prevRoundTime t"
    "cs_closeResolution s = cs_closeResolution t" "cs_establishCounter s = cs_establishCounter t"
    "cs_convergePercent s = cs_convergePercent t"
  using assms by (cases s; cases t; simp add: cx_core_def)+

lemma cx_core_update [simp]:
  "cx_core (st\<lparr>cs_result := r\<rparr>) = cx_core st" "cx_core (st\<lparr>cs_peerUnchangedCounter := c\<rparr>) = cx_core st"
  "cx_core (emit e st) = cx_core st"
  by (simp_all add: cx_core_def emit_def)

lemma cs_result_emit [simp]: "cs_result (emit e st) = cs_result st"
  by (simp add: emit_def)

text \<open>The frame of the steps that may also set the time and acquire transaction sets.\<close>

definition cx_core2 :: "('tx, 'txid, 'n, 'lid, 'sid, 'ts, 'l) cx_step" where
  "cx_core2 st = (cx_core st)\<lparr>cs_now := 0, cs_acquired := []\<rparr>"

lemma cx_core2D:
  assumes "cx_core2 s = cx_core2 t"
  shows "cs_phase s = cs_phase t" "cs_mode s = cs_mode t"
    "cs_prevLedgerID s = cs_prevLedgerID t" "cs_previousLedger s = cs_previousLedger t"
    "cs_rawCloseTimes s = cs_rawCloseTimes t"
    "cs_currPeerPositions s = cs_currPeerPositions t" "cs_recentPeerPositions s = cs_recentPeerPositions t"
    "cs_deadNodes s = cs_deadNodes t" "cs_haveCloseTimeConsensus s = cs_haveCloseTimeConsensus t"
    "cs_prevProposers s = cs_prevProposers t" "cs_prevRoundTime s = cs_prevRoundTime t"
    "cs_closeResolution s = cs_closeResolution t" "cs_establishCounter s = cs_establishCounter t"
  using assms by (cases s; cases t; simp add: cx_core_def cx_core2_def)+

lemma cx_core2_core: "cx_core s = cx_core t \<Longrightarrow> cx_core2 s = cx_core2 t"
  by (simp add: cx_core2_def)

lemma cx_core2_update [simp]:
  "cx_core2 (st\<lparr>cs_now := n\<rparr>) = cx_core2 st" "cx_core2 (st\<lparr>cs_acquired := a\<rparr>) = cx_core2 st"
  "cx_core2 (st\<lparr>cs_result := r\<rparr>) = cx_core2 st" "cx_core2 (emit e st) = cx_core2 st"
  by (simp_all add: cx_core2_def cx_core_def emit_def)

text \<open>The frame of the steps that may also change the positions of the peers.\<close>

definition cx_core3 :: "('tx, 'txid, 'n, 'lid, 'sid, 'ts, 'l) cx_step" where
  "cx_core3 st = (cx_core2 st)\<lparr>cs_currPeerPositions := [], cs_deadNodes := [],
     cs_rawCloseTimes := (cs_rawCloseTimes st)\<lparr>ct_peers := []\<rparr>\<rparr>"

lemma cx_core3D:
  assumes "cx_core3 s = cx_core3 t"
  shows "cs_phase s = cs_phase t" "cs_mode s = cs_mode t"
    "cs_prevLedgerID s = cs_prevLedgerID t" "cs_previousLedger s = cs_previousLedger t"
    "cs_recentPeerPositions s = cs_recentPeerPositions t" "cs_haveCloseTimeConsensus s = cs_haveCloseTimeConsensus t"
    "cs_prevProposers s = cs_prevProposers t" "cs_prevRoundTime s = cs_prevRoundTime t"
    "cs_closeResolution s = cs_closeResolution t" "cs_establishCounter s = cs_establishCounter t"
  using assms by (cases s; cases t; simp add: cx_core_def cx_core2_def cx_core3_def)+

lemma cx_core3_core2: "cx_core2 s = cx_core2 t \<Longrightarrow> cx_core3 s = cx_core3 t"
  using cx_core2D(5) [of s t] by (simp add: cx_core3_def)

lemma cx_core3_update [simp]:
  "cx_core3 (st\<lparr>cs_now := n\<rparr>) = cx_core3 st" "cx_core3 (st\<lparr>cs_acquired := a\<rparr>) = cx_core3 st"
  "cx_core3 (st\<lparr>cs_result := r\<rparr>) = cx_core3 st" "cx_core3 (emit e st) = cx_core3 st"
  "cx_core3 (st\<lparr>cs_currPeerPositions := ps\<rparr>) = cx_core3 st" "cx_core3 (st\<lparr>cs_deadNodes := dn\<rparr>) = cx_core3 st"
  "cx_core3 (st\<lparr>cs_rawCloseTimes := (cs_rawCloseTimes st)\<lparr>ct_peers := m\<rparr>\<rparr>) = cx_core3 st"
  by (simp_all add: cx_core3_def cx_core2_def cx_core_def emit_def)

lemma cx_inv_pend_core:
  assumes "cx_core s = cx_core t"
  shows "cx_inv_pend S wfs wft pv pc s \<longleftrightarrow>
    acquired_inv S wfs (cs_acquired t) \<and>
    peers_inv (cs_prevLedgerID t) (cs_deadNodes t) (cs_currPeerPositions t) \<and>
    recent_inv (cs_recentPeerPositions t) \<and> close_map_wf (ct_peers (cs_rawCloseTimes t)) \<and>
    (\<forall>r. cs_result s = Some r \<longrightarrow>
       result_inv S wfs wft (cs_acquired t) (cs_currPeerPositions t) pv pc r)"
  unfolding cx_inv_pend_def cx_coreD [OF assms] ..

text \<open>A step on the disputes changes of a result only the disputes and the compared sets.\<close>

definition result_frame ::
  "('tx, 'txid, 'n, 'lid, 'sid, 'ts) consensus_result option \<Rightarrow>
   ('tx, 'txid, 'n, 'lid, 'sid, 'ts) consensus_result option \<Rightarrow> bool" where
  "result_frame a b \<longleftrightarrow>
     map_option (\<lambda>r. r\<lparr>cr_disputes := [], cr_compares := []\<rparr>) a = map_option (\<lambda>r. r\<lparr>cr_disputes := [], cr_compares := []\<rparr>) b"

lemma result_frame_refl [simp]: "result_frame a a"
  by (simp add: result_frame_def)

lemma result_frame_trans: "result_frame a b \<Longrightarrow> result_frame b c \<Longrightarrow> result_frame a c"
  by (simp add: result_frame_def)

lemma result_frameI: "a = Some r \<Longrightarrow> b = Some (r\<lparr>cr_disputes := ds, cr_compares := cmp\<rparr>) \<Longrightarrow> result_frame a b"
  by (simp add: result_frame_def)

lemma result_frame_None: "result_frame a b \<Longrightarrow> b = None \<longleftrightarrow> a = None"
  by (auto simp: result_frame_def)

lemma result_frame_Some:
  assumes "result_frame (Some r) b"
  obtains r' where "b = Some r'" "cr_txns r' = cr_txns r" "cr_position r' = cr_position r"
    "cr_roundTime r' = cr_roundTime r" "cr_state r' = cr_state r" "cr_proposers r' = cr_proposers r"
proof (cases b)
  case (Some r')
  then have "r\<lparr>cr_disputes := [], cr_compares := []\<rparr> = r'\<lparr>cr_disputes := [], cr_compares := []\<rparr>"
    using assms by (simp add: result_frame_def)
  then have "cr_txns r' = cr_txns r" "cr_position r' = cr_position r"
    "cr_roundTime r' = cr_roundTime r" "cr_state r' = cr_state r" "cr_proposers r' = cr_proposers r"
    by (cases r; cases r'; simp)+
  with Some that show thesis by blast
qed (use assms in \<open>simp add: result_frame_def\<close>)

section \<open>New disputes\<close>

lemma DisputedTx_new_simps [simp]:
  "dt_tx (DisputedTx_new tx v) = tx" "dt_ourVote (DisputedTx_new tx v) = v" "dt_votes (DisputedTx_new tx v) = []"
  "dt_wf (DisputedTx_new tx v)"
  by (simp_all add: DisputedTx_new_def dt_wf_def hm_simps)

lemma dispute_peer_votes_spec:
  assumes "hm_wf peers" "dispute_peer_votes S acq k peers (d, c) = (d', c')" "dt_wf d"
  shows "dt_wf d' \<and> dt_tx d' = dt_tx d \<and> dt_ourVote d' = dt_ourVote d \<and>
    (\<forall>n. hm_find (dt_votes d') n =
       (case hm_find peers n of
          None \<Rightarrow> hm_find (dt_votes d) n
        | Some p \<Rightarrow> (case hm_find acq (pr_position p) of
                     None \<Rightarrow> hm_find (dt_votes d) n
                   | Some s \<Rightarrow> Some (ts_exists S s k))))"
  using assms
proof (induction peers arbitrary: d c)
  case (Cons q peers)
  obtain n p where q: "q = (n, p)" by (cases q)
  have wf: "hm_wf peers" "hm_find peers n = None" using Cons.prems(1) by (simp_all add: q hm_wf_Cons)
  show ?case
  proof (cases "hm_find acq (pr_position p)")
    case None
    then show ?thesis
      using Cons.IH [OF wf(1) _ Cons.prems(3), of c] Cons.prems(2) wf(2) by (auto simp: q hm_simps)
  next
    case (Some s)
    let ?v = "setVote n (ts_exists S s k) d"
    have "dispute_peer_votes S acq k peers (fst ?v, c \<or> snd ?v) = (d', c')"
      using Cons.prems(2) Some by (simp add: q case_prod_beta)
    from Cons.IH [OF wf(1) this setVote_wf [OF Cons.prems(3)]] Some wf(2)
    show ?thesis by (auto simp: q hm_simps setVote_find split: option.splits)
  qed
qed (simp add: hm_simps)

lemma create_dispute_spec:
  assumes r: "cs_result st = Some r"
    and tx: "(if b then ts_find S (cr_txns r) x else ts_find S oset x) = Some tx" "tx_id S tx = x" "wft tx"
    and peers: "hm_wf (cs_currPeerPositions st)"
    and ds: "disputes_inv S wft (cs_acquired st) (cs_currPeerPositions st) pv (cr_txns r) (cr_disputes r)"
  shows "\<exists>ds'. cs_result (create_dispute S oset (x, b) st) = Some (r\<lparr>cr_disputes := ds'\<rparr>) \<and>
    disputes_inv S wft (cs_acquired st) (cs_currPeerPositions st) pv (cr_txns r) ds' \<and>
    (\<forall>y. hm_find ds' y \<noteq> None \<longleftrightarrow> y = x \<or> hm_find (cr_disputes r) y \<noteq> None)"
proof (cases "hm_find (cr_disputes r) x")
  case None
  obtain d c where d: "dispute_peer_votes S (cs_acquired st) x (cs_currPeerPositions st)
      (DisputedTx_new tx (ts_exists S (cr_txns r) x), False) = (d, c)" by fastforce
  note spec = dispute_peer_votes_spec [OF peers d DisputedTx_new_simps(4)]
  let ?ds = "fst (hm_emplace (cr_disputes r) x d)"
  have "cs_result (create_dispute S oset (x, b) st) = Some (r\<lparr>cr_disputes := ?ds\<rparr>)"
    using r tx None d by (simp add: create_dispute_def)
  moreover have "dispute_ok S wft (cr_txns r) x d" using spec tx by (simp add: dispute_ok_def)
  moreover have "votes_ok S (cs_acquired st) (cs_currPeerPositions st) pv x d"
    using spec by (auto simp: votes_ok_def hm_simps split: option.splits)
  ultimately show ?thesis
    using ds None by (intro exI [of _ ?ds]) (auto simp: disputes_inv_def hm_simps split: if_splits)
next
  case (Some d)
  then have "create_dispute S oset (x, b) st = st" using r tx by (simp add: create_dispute_def)
  then show ?thesis using r ds Some by (intro exI [of _ "cr_disputes r"]) auto
qed

lemma create_dispute_core [simp]: "cx_core (create_dispute S oset d st) = cx_core st"
  by (simp add: create_dispute_def Let_def split: option.splits prod.splits)

lemma fold_create_core: "cx_core (fold (create_dispute S oset) difs st) = cx_core st"
  by (induction difs arbitrary: st) auto

lemma createDisputes_core [simp]: "cx_core (createDisputes S oset st) = cx_core st"
  by (simp add: createDisputes_def Let_def fold_create_core split: option.splits)

lemma updateDisputes_core [simp]: "cx_core (updateDisputes S node other st) = cx_core st"
proof (cases "cs_result st")
  case (Some r)
  then show ?thesis by (auto simp: updateDisputes_def Let_def split: option.splits prod.splits)
qed (simp add: updateDisputes_def)

section \<open>Changes of the peer positions\<close>

lemma result_inv_peer:
  assumes "result_inv S wfs wft acq peers {} {} r" "\<And>n. n \<noteq> q \<Longrightarrow> hm_find peers' n = hm_find peers n"
  shows "result_inv S wfs wft acq peers' {q} {q} r"
  using assms by (fastforce simp: result_inv_def disputes_inv_def votes_ok_def peers_compared_def)

lemma result_inv_unacquired:
  assumes "result_inv S wfs wft acq peers {q} {q} r" and q: "hm_find peers q = Some p" "hm_find acq (pr_position p) = None"
  shows "result_inv S wfs wft acq peers {} {} r"
proof -
  have ne: "n \<noteq> q" if "hm_find peers n = None \<or> hm_find peers n = Some p' \<and> hm_find acq (pr_position p') \<noteq> None" for n p'
    using that q by auto
  have "votes_ok S acq peers {} k d" if "votes_ok S acq peers {q} k d" for k d
    using that ne unfolding votes_ok_def by (metis empty_iff insert_iff option.distinct(1))
  moreover have "peers_compared S acq peers {} r" if "peers_compared S acq peers {q} r"
    using that ne unfolding peers_compared_def by (metis empty_iff insert_iff)
  ultimately show ?thesis using assms(1) by (auto simp: result_inv_def disputes_inv_def)
qed

lemma result_inv_unvote:
  assumes ri: "result_inv S wfs wft acq peers {} {} r"
    and peers': "\<And>n. hm_find peers' n = (if n = q then None else hm_find peers n)"
  shows "result_inv S wfs wft acq peers' {} {} (r\<lparr>cr_disputes := hm_map (\<lambda>_. unVote q) (cr_disputes r)\<rparr>)"
proof -
  let ?ds = "hm_map (\<lambda>_. unVote q) (cr_disputes r)"
  have "dispute_ok S wft (cr_txns r) k d' \<and> votes_ok S acq peers' {} k d'" if k: "hm_find ?ds k = Some d'" for k d'
  proof -
    obtain d where d: "hm_find (cr_disputes r) k = Some d" "d' = unVote q d" using k by (auto simp: hm_simps)
    then have "dispute_ok S wft (cr_txns r) k d" "votes_ok S acq peers {} k d"
      using ri by (auto simp: result_inv_def disputes_inv_def)
    then show ?thesis using peers'
      by (auto simp: d(2) dispute_ok_def votes_ok_def unVote_wf unVote_find split: if_splits)
  qed
  moreover have "hm_wf ?ds" using ri by (simp add: result_inv_def disputes_inv_def hm_simps)
  ultimately have "disputes_inv S wft acq peers' {} (cr_txns r) ?ds" by (simp add: disputes_inv_def)
  moreover have "compared_ok S wfs (r\<lparr>cr_disputes := ?ds\<rparr>)"
    using ri by (auto simp: result_inv_def compared_ok_def hm_simps)
  moreover have "peers_compared S acq peers' {} (r\<lparr>cr_disputes := ?ds\<rparr>)"
    using ri peers' by (auto simp: result_inv_def peers_compared_def split: if_splits)
  ultimately show ?thesis using ri by (simp add: result_inv_def)
qed

lemma raw_unchanged:
  "c\<lparr>ct_peers := ct_peers c\<rparr> = c"
  "st\<lparr>cs_now := now, cs_currPeerPositions := ps, cs_rawCloseTimes := cs_rawCloseTimes st\<rparr> =
     st\<lparr>cs_now := now, cs_currPeerPositions := ps\<rparr>"
  by (simp_all)

lemma peerProposalInternal_cases:
  fixes st :: "('tx, 'txid, 'n, 'lid, 'sid, 'ts, 'l) consensus"
  assumes st': "peerProposalInternal A S now p st = (st', b)"
    and wf: "hm_wf (cs_currPeerPositions st)" and cm: "close_map_wf (ct_peers (cs_rawCloseTimes st))"
  obtains (ignored) "st' = st \<or> st' = st\<lparr>cs_now := now\<rparr>"
    | (bow) ps where "hm_wf ps" "\<And>n. hm_find ps n = (if n = (pr_nodeID p) then None else hm_find (cs_currPeerPositions st) n)"
        "st' = st\<lparr>cs_now := now,
          cs_result := map_option (\<lambda>r. r\<lparr>cr_disputes := hm_map (\<lambda>_. unVote (pr_nodeID p)) (cr_disputes r)\<rparr>) (cs_result st),
          cs_currPeerPositions := ps, cs_deadNodes := List.insert (pr_nodeID p) (cs_deadNodes st)\<rparr>"
    | (position) ps m where "pr_previousLedger p = cs_prevLedgerID st" "\<not> isBowOut p" "(pr_nodeID p) \<notin> set (cs_deadNodes st)"
        "hm_wf ps" "\<And>n. hm_find ps n = (if n = (pr_nodeID p) then Some p else hm_find (cs_currPeerPositions st) n)" "close_map_wf m"
        "st' = (let st3 = st\<lparr>cs_now := now, cs_currPeerPositions := ps, cs_rawCloseTimes := (cs_rawCloseTimes st)\<lparr>ct_peers := m\<rparr>\<rparr>
                in case hm_find (cs_acquired st3) (pr_position p) of
                     None \<Rightarrow> (case ad_acquireTxSet A (pr_position p) of
                               Some s \<Rightarrow> gotTxSet S (cs_now st3) s st3 | None \<Rightarrow> st3)
                   | Some ait \<Rightarrow> if cs_result st3 \<noteq> None then updateDisputes S (pr_nodeID p) ait st3 else st3)"
proof -
  let ?q = "pr_nodeID p" and ?ps = "cs_currPeerPositions st"
  let ?old = "case hm_find ?ps ?q of None \<Rightarrow> False | Some old \<Rightarrow> pr_proposeSeq p \<le> pr_proposeSeq old"
  show thesis
  proof (cases "cs_phase st = PhAccepted \<or> pr_previousLedger p \<noteq> cs_prevLedgerID st \<or> ?q \<in> set (cs_deadNodes st) \<or> ?old")
    case True
    then have "st' = st \<or> st' = st\<lparr>cs_now := now\<rparr>"
      using st' by (auto simp: peerProposalInternal_def Let_def split: if_splits option.splits)
    then show thesis by (rule ignored)
  next
    case ok: False
    show thesis
    proof (cases "isBowOut p")
      case True
      let ?ps' = "case hm_find ?ps ?q of None \<Rightarrow> ?ps | Some _ \<Rightarrow> hm_erase ?ps ?q"
      show thesis
      proof (rule bow [of ?ps'])
        show "hm_wf ?ps'" using wf by (auto simp: hm_simps split: option.splits)
        show "hm_find ?ps' n = (if n = ?q then None else hm_find ?ps n)" for n
          by (auto simp: hm_simps split: option.splits)
        show "st' = st\<lparr>cs_now := now,
          cs_result := map_option (\<lambda>r. r\<lparr>cr_disputes := hm_map (\<lambda>_. unVote ?q) (cr_disputes r)\<rparr>) (cs_result st),
          cs_currPeerPositions := ?ps', cs_deadNodes := List.insert ?q (cs_deadNodes st)\<rparr>"
          using st' ok True by (auto simp: peerProposalInternal_def Let_def cong: option.case_cong)
      qed
    next
      case False
      let ?ps' = "case hm_find ?ps ?q of Some _ \<Rightarrow> hm_assign ?ps ?q p | None \<Rightarrow> fst (hm_emplace ?ps ?q p)"
      let ?m = "if isInitial p then map_incr (pr_closeTime p) (ct_peers (cs_rawCloseTimes st)) else ct_peers (cs_rawCloseTimes st)"
      show thesis
      proof (rule position [of ?ps' ?m])
        show "hm_wf ?ps'" using wf by (auto simp: hm_simps split: option.splits)
        show "hm_find ?ps' n = (if n = ?q then Some p else hm_find ?ps n)" for n
          by (auto simp: hm_simps split: option.splits)
        show "close_map_wf ?m" using cm by (simp add: map_incr_wf)
      qed (use st' ok False in \<open>auto simp: peerProposalInternal_def Let_def raw_unchanged cong: option.case_cong if_cong\<close>)
    qed
  qed
qed

text \<open>What the engine relies on in the answers of the adaptor.\<close>

definition adaptor_ok ::
  "('tx, 'txid, 'sid, 'ts) txset_ops \<Rightarrow> ('ts \<Rightarrow> bool) \<Rightarrow> ('tx, 'txid, 'n, 'lid, 'sid, 'ts, 'l) adaptor \<Rightarrow> bool" where
  "adaptor_ok S wfs A \<longleftrightarrow>
     (\<forall>i s. ad_acquireTxSet A i = Some s \<longrightarrow> ts_id S s = i \<and> wfs s) \<and>
     (\<forall>l t m. let r = ad_onClose A l t m
              in wfs (cr_txns r) \<and> pr_position (cr_position r) = ts_id S (cr_txns r) \<and>
                 cr_disputes r = [] \<and> cr_compares r = [])"

section \<open>The interface of the transaction sets\<close>

text \<open>
  \<open>wfs\<close> are the sets the engine may be given and \<open>wft\<close> the transactions they may hold. The identifier
  of a set determines its content.
\<close>

locale tx_set =
  fixes S :: "('tx, 'txid, 'sid, 'ts) txset_ops"
    and wfs :: "'ts \<Rightarrow> bool"
    and wft :: "'tx \<Rightarrow> bool"
  assumes find_wft: "wfs s \<Longrightarrow> ts_find S s x = Some t \<Longrightarrow> tx_id S t = x \<and> wft t"
    and find_exists: "wfs s \<Longrightarrow> ts_exists S s x \<longleftrightarrow> ts_find S s x \<noteq> None"
    and id_content: "wfs s \<Longrightarrow> wfs s' \<Longrightarrow> ts_id S s = ts_id S s' \<Longrightarrow> ts_exists S s x = ts_exists S s' x"
    and compare_mem: "wfs s \<Longrightarrow> wfs s' \<Longrightarrow>
      (x, b) \<in> set (ts_compare S s s') \<longleftrightarrow> ts_exists S s x = b \<and> ts_exists S s' x = (\<not> b)"
    and insert_wfs: "wfs s \<Longrightarrow> wft t \<Longrightarrow> wfs (ts_insert S t s)"
    and insert_exists: "wfs s \<Longrightarrow> wft t \<Longrightarrow> ts_exists S (ts_insert S t s) x \<longleftrightarrow> x = tx_id S t \<or> ts_exists S s x"
    and erase_wfs: "wfs s \<Longrightarrow> wfs (ts_erase S y s)"
    and erase_exists: "wfs s \<Longrightarrow> ts_exists S (ts_erase S y s) x \<longleftrightarrow> x \<noteq> y \<and> ts_exists S s x"
begin

lemma create_disputes_fold:
  assumes "cs_result st = Some r" "wfs (cr_txns r)" "wfs oset"
    and "\<forall>(x, b) \<in> set difs. (b \<longrightarrow> ts_exists S (cr_txns r) x) \<and> (\<not> b \<longrightarrow> ts_exists S oset x)"
    and "hm_wf (cs_currPeerPositions st)"
    and "disputes_inv S wft (cs_acquired st) (cs_currPeerPositions st) pv (cr_txns r) (cr_disputes r)"
  shows "\<exists>ds'. cs_result (fold (create_dispute S oset) difs st) = Some (r\<lparr>cr_disputes := ds'\<rparr>) \<and>
    disputes_inv S wft (cs_acquired st) (cs_currPeerPositions st) pv (cr_txns r) ds' \<and>
    (\<forall>y. hm_find ds' y \<noteq> None \<longleftrightarrow> y \<in> fst ` set difs \<or> hm_find (cr_disputes r) y \<noteq> None)"
  using assms
proof (induction difs arbitrary: st r)
  case (Cons q difs)
  obtain x b where q: "q = (x, b)" by (cases q)
  let ?st = "create_dispute S oset (x, b) st"
  obtain tx where tx: "(if b then ts_find S (cr_txns r) x else ts_find S oset x) = Some tx"
    "tx_id S tx = x" "wft tx"
    using Cons.prems(2,3,4) find_exists find_wft by (fastforce simp: q split: if_splits)
  from create_dispute_spec [OF Cons.prems(1) tx Cons.prems(5,6)] obtain ds where
    ds: "cs_result ?st = Some (r\<lparr>cr_disputes := ds\<rparr>)"
      "disputes_inv S wft (cs_acquired st) (cs_currPeerPositions st) pv (cr_txns r) ds"
      "\<forall>y. hm_find ds y \<noteq> None \<longleftrightarrow> y = x \<or> hm_find (cr_disputes r) y \<noteq> None" by blast
  note f = cx_coreD [OF create_dispute_core [of S oset "(x, b)" st]]
  have "\<exists>ds'. cs_result (fold (create_dispute S oset) difs ?st) = Some (r\<lparr>cr_disputes := ds, cr_disputes := ds'\<rparr>) \<and>
    disputes_inv S wft (cs_acquired ?st) (cs_currPeerPositions ?st) pv (cr_txns (r\<lparr>cr_disputes := ds\<rparr>)) ds' \<and>
    (\<forall>y. hm_find ds' y \<noteq> None \<longleftrightarrow> y \<in> fst ` set difs \<or> hm_find (cr_disputes (r\<lparr>cr_disputes := ds\<rparr>)) y \<noteq> None)"
    by (rule Cons.IH [OF ds(1)]) (use ds Cons.prems(2,3,4,5) in \<open>simp_all add: q f\<close>)
  then obtain ds' where ds': "cs_result (fold (create_dispute S oset) difs ?st) = Some (r\<lparr>cr_disputes := ds'\<rparr>)"
    "disputes_inv S wft (cs_acquired st) (cs_currPeerPositions st) pv (cr_txns r) ds'"
    "\<And>y. hm_find ds' y \<noteq> None \<longleftrightarrow> y \<in> fst ` set difs \<or> hm_find ds y \<noteq> None"
    by (auto simp: f)
  have "hm_find ds' y \<noteq> None \<longleftrightarrow> y \<in> fst ` set (q # difs) \<or> hm_find (cr_disputes r) y \<noteq> None" for y
    unfolding ds'(3) using ds(3) by (auto simp: q)
  then show ?case using ds'(1,2) by (intro exI [of _ ds']) (simp add: q)
next
  case Nil
  then show ?case by (intro exI [of _ "cr_disputes r"]) simp
qed

lemma createDisputes_spec:
  assumes inv: "cx_inv_pend S wfs wft pv pc st" and r: "cs_result st = Some r" and oset: "wfs oset"
  shows "cx_inv_pend S wfs wft pv pc (createDisputes S oset st) \<and>
    (\<exists>ds cmp. cs_result (createDisputes S oset st) = Some (r\<lparr>cr_disputes := ds, cr_compares := cmp\<rparr>) \<and>
      set cmp = insert (ts_id S oset) (set (cr_compares r)))"
proof -
  have ri: "result_inv S wfs wft (cs_acquired st) (cs_currPeerPositions st) pv pc r"
    and peers: "hm_wf (cs_currPeerPositions st)"
    using inv r by (auto simp: cx_inv_pend_def peers_inv_def)
  have txns: "wfs (cr_txns r)" using ri by (simp add: result_inv_def)
  let ?r1 = "r\<lparr>cr_compares := ts_id S oset # cr_compares r\<rparr>"
  let ?st1 = "st\<lparr>cs_result := Some ?r1\<rparr>"
  consider (old) "ts_id S oset \<in> set (cr_compares r)"
    | (same) "ts_id S oset \<notin> set (cr_compares r)" "ts_id S (cr_txns r) = ts_id S oset"
    | (new) "ts_id S oset \<notin> set (cr_compares r)" "ts_id S (cr_txns r) \<noteq> ts_id S oset" by blast
  then show ?thesis
  proof cases
    case old
    then have "createDisputes S oset st = st" using r by (simp add: createDisputes_def)
    moreover have "cs_result st = Some (r\<lparr>cr_disputes := cr_disputes r, cr_compares := cr_compares r\<rparr>)" using r by simp
    ultimately show ?thesis using inv old by (metis insert_absorb)
  next
    case same
    then have cd: "createDisputes S oset st = ?st1" using r by (simp add: createDisputes_def)
    have "compared_ok S wfs ?r1"
      using ri id_content [OF txns] same(2) by (auto simp: result_inv_def compared_ok_def)
    then have "result_inv S wfs wft (cs_acquired st) (cs_currPeerPositions st) pv pc ?r1"
      using ri by (auto simp: result_inv_def peers_compared_def)
    then show ?thesis using inv cd
      by (auto simp: cx_inv_pend_def intro!: exI [of _ "cr_disputes r"] exI [of _ "ts_id S oset # cr_compares r"])
  next
    case new
    let ?difs = "ts_compare S (cr_txns r) oset"
    have cd: "createDisputes S oset st = fold (create_dispute S oset) ?difs ?st1"
      using new r by (simp add: createDisputes_def)
    have ok: "\<forall>(x, b) \<in> set ?difs. (b \<longrightarrow> ts_exists S (cr_txns r) x) \<and> (\<not> b \<longrightarrow> ts_exists S oset x)"
      using compare_mem [OF txns oset] by auto
    from create_disputes_fold [of ?st1 ?r1 oset ?difs pv] ri oset peers ok txns obtain ds where
      ds: "cs_result (createDisputes S oset st) = Some (?r1\<lparr>cr_disputes := ds\<rparr>)"
        "disputes_inv S wft (cs_acquired st) (cs_currPeerPositions st) pv (cr_txns r) ds"
        "\<forall>y. hm_find ds y \<noteq> None \<longleftrightarrow> y \<in> fst ` set ?difs \<or> hm_find (cr_disputes r) y \<noteq> None"
      unfolding cd by (auto simp: result_inv_def)
    have "hm_find ds x \<noteq> None"
      if s: "wfs s" "ts_id S s \<in> insert (ts_id S oset) (set (cr_compares r))" "ts_exists S (cr_txns r) x \<noteq> ts_exists S s x" for s x
    proof (cases "ts_id S s = ts_id S oset")
      case True
      then have "(x, ts_exists S (cr_txns r) x) \<in> set ?difs"
        using compare_mem [OF txns oset] id_content [OF s(1) oset True] s(3) by auto
      then show ?thesis using ds(3) by force
    next
      case False
      then have "hm_find (cr_disputes r) x \<noteq> None" using ri s by (auto simp: result_inv_def compared_ok_def)
      then show ?thesis using ds(3) by blast
    qed
    then have "compared_ok S wfs (?r1\<lparr>cr_disputes := ds\<rparr>)" by (auto simp: compared_ok_def)
    then have "result_inv S wfs wft (cs_acquired st) (cs_currPeerPositions st) pv pc (?r1\<lparr>cr_disputes := ds\<rparr>)"
      using ri ds(2) by (auto simp: result_inv_def peers_compared_def)
    then have "cx_inv_pend S wfs wft pv pc (createDisputes S oset st)"
      using inv ds(1) by (simp add: cx_inv_pend_core [OF createDisputes_core]) (simp add: cx_inv_pend_def)
    then show ?thesis using ds(1)
      by (auto intro!: exI [of _ ds] exI [of _ "ts_id S oset # cr_compares r"])
  qed
qed

lemma vote_disputes_map:
  "fst (vote_disputes S node other ds) =
     hm_map (\<lambda>_ d. fst (setVote node (ts_exists S other (tx_id S (dt_tx d))) d)) ds"
  by (induction ds) (auto simp: hm_map_def case_prod_beta)

lemma disputes_inv_vote:
  assumes ds: "disputes_inv S wft acq peers pv txns ds"
    and n: "hm_find peers node = Some p" "hm_find acq (pr_position p) = Some s" "ts_id S other = pr_position p"
    and wf: "acquired_inv S wfs acq" "wfs other"
  shows "disputes_inv S wft acq peers (pv - {node}) txns (fst (vote_disputes S node other ds))"
proof -
  have same: "ts_exists S other k = ts_exists S s k" for k
    using wf n by (intro id_content) (auto simp: acquired_inv_def)
  show ?thesis
    unfolding vote_disputes_map disputes_inv_def
  proof (intro conjI allI impI)
    show "hm_wf (hm_map (\<lambda>_ d. fst (setVote node (ts_exists S other (tx_id S (dt_tx d))) d)) ds)"
      using ds by (simp add: disputes_inv_def hm_simps)
    fix k d'
    assume "hm_find (hm_map (\<lambda>_ d. fst (setVote node (ts_exists S other (tx_id S (dt_tx d))) d)) ds) k = Some d'"
    then obtain d where d: "hm_find ds k = Some d" "d' = fst (setVote node (ts_exists S other (tx_id S (dt_tx d))) d)"
      by (auto simp: hm_simps)
    have ok: "dispute_ok S wft txns k d" "votes_ok S acq peers pv k d" using ds d(1) by (auto simp: disputes_inv_def)
    show "dispute_ok S wft txns k d'" using ok(1) by (simp add: d(2) dispute_ok_def setVote_wf)
    have v: "hm_find (dt_votes d') m = (if m = node then Some (ts_exists S s k) else hm_find (dt_votes d) m)" for m
      using ok(1) by (simp add: d(2) setVote_find dispute_ok_def same)
    show "votes_ok S acq peers (pv - {node}) k d'"
      using n ok(2) by (auto simp: votes_ok_def v)
  qed
qed

lemma updateDisputes_spec:
  assumes inv: "cx_inv_pend S wfs wft pv pc st" and r: "cs_result st = Some r"
    and n: "hm_find (cs_currPeerPositions st) node = Some p" "hm_find (cs_acquired st) (pr_position p) = Some s"
    and other: "ts_id S other = pr_position p" "wfs other"
  shows "cx_inv_pend S wfs wft (pv - {node}) (pc - {node}) (updateDisputes S node other st) \<and>
    (\<exists>ds cmp. cs_result (updateDisputes S node other st) = Some (r\<lparr>cr_disputes := ds, cr_compares := cmp\<rparr>))"
proof -
  define st1 where "st1 = (if ts_id S other \<notin> set (cr_compares r) then createDisputes S other st else st)"
  have core: "cx_core st1 = cx_core st" by (simp add: st1_def)
  have "cx_inv_pend S wfs wft pv pc st1 \<and> (\<exists>ds cmp. cs_result st1 = Some (r\<lparr>cr_disputes := ds, cr_compares := cmp\<rparr>) \<and>
      ts_id S other \<in> set cmp)"
  proof (cases "ts_id S other \<in> set (cr_compares r)")
    case True
    then show ?thesis using inv r
      by (auto simp: st1_def intro!: exI [of _ "cr_disputes r"] exI [of _ "cr_compares r"])
  next
    case False
    then show ?thesis using createDisputes_spec [OF inv r other(2)] by (auto simp: st1_def)
  qed
  then obtain ds cmp where inv1: "cx_inv_pend S wfs wft pv pc st1"
    and r1: "cs_result st1 = Some (r\<lparr>cr_disputes := ds, cr_compares := cmp\<rparr>)" "ts_id S other \<in> set cmp" by blast
  let ?ds = "fst (vote_disputes S node other ds)"
  let ?r = "r\<lparr>cr_disputes := ?ds, cr_compares := cmp\<rparr>"
  have res: "cs_result (updateDisputes S node other st) = Some ?r"
    using r r1 by (simp add: updateDisputes_def st1_def [symmetric] Let_def split: prod.splits)
  have acq: "acquired_inv S wfs (cs_acquired st)" using inv by (simp add: cx_inv_pend_def)
  have ri: "result_inv S wfs wft (cs_acquired st) (cs_currPeerPositions st) pv pc (r\<lparr>cr_disputes := ds, cr_compares := cmp\<rparr>)"
    using inv1 r1 by (simp add: cx_inv_pend_core [OF core])
  then have "disputes_inv S wft (cs_acquired st) (cs_currPeerPositions st) (pv - {node}) (cr_txns r) ?ds"
    by (intro disputes_inv_vote [OF _ n other(1) acq other(2)]) (simp add: result_inv_def)
  moreover have "hm_find ?ds x = None \<longleftrightarrow> hm_find ds x = None" for x by (simp add: vote_disputes_map hm_simps)
  ultimately have "result_inv S wfs wft (cs_acquired st) (cs_currPeerPositions st) (pv - {node}) (pc - {node}) ?r"
    using ri n(1) other(1) r1(2) by (auto simp: result_inv_def compared_ok_def peers_compared_def)
  then show ?thesis using inv res
    by (auto simp: cx_inv_pend_core [OF updateDisputes_core]) (simp_all add: cx_inv_pend_def)
qed

lemma updateDisputes_fold:
  fixes st :: "('tx, 'txid, 'n, 'lid, 'sid, 'ts, 'l) consensus"
  assumes "cx_inv_pend S wfs wft pv pc st" "cs_result st = Some r"
    and "hm_find (cs_acquired st) sid = Some s" "ts_id S other = sid" "wfs other"
    and "\<forall>(n, p) \<in> set ps. hm_find (cs_currPeerPositions st) n = Some p"
  defines "D \<equiv> {n. \<exists>p. (n, p) \<in> set ps \<and> pr_position p = sid}"
    and "st' \<equiv> fold (\<lambda>(nodeId, peerPos) s. if pr_position peerPos = sid then updateDisputes S nodeId other s else s) ps st"
  shows "cx_inv_pend S wfs wft (pv - D) (pc - D) st' \<and> cx_core st' = cx_core st \<and>
    (\<exists>ds cmp. cs_result st' = Some (r\<lparr>cr_disputes := ds, cr_compares := cmp\<rparr>))"
  using assms(1,2,3,6) unfolding st'_def D_def
proof (induction ps arbitrary: st pv pc r)
  case Nil
  then show ?case by (auto intro!: exI [of _ "cr_disputes r"] exI [of _ "cr_compares r"])
next
  case (Cons q ps)
  obtain n p where q: "q = (n, p)" by (cases q)
  let ?D = "\<lambda>ps. {n. \<exists>p. (n, p) \<in> set ps \<and> pr_position p = sid}"
  show ?case
  proof (cases "pr_position p = sid")
    case False
    then have "?D (q # ps) = ?D ps" by (auto simp: q)
    then show ?thesis using Cons.IH [OF Cons.prems(1,2,3)] Cons.prems(4) False by (simp add: q)
  next
    case True
    let ?u = "updateDisputes S n other st"
    have np: "hm_find (cs_currPeerPositions st) n = Some p" using Cons.prems(4) by (simp add: q)
    from updateDisputes_spec [OF Cons.prems(1,2) np, of s other] Cons.prems(3) True assms(4,5)
    obtain ds cmp where u: "cx_inv_pend S wfs wft (pv - {n}) (pc - {n}) ?u"
      "cs_result ?u = Some (r\<lparr>cr_disputes := ds, cr_compares := cmp\<rparr>)" by auto
    note f = cx_coreD [OF updateDisputes_core [of S n other st]]
    have D: "?D (q # ps) = insert n (?D ps)" using True by (auto simp: q)
    from Cons.IH [OF u] Cons.prems(3,4) have
      "cx_inv_pend S wfs wft (pv - {n} - ?D ps) (pc - {n} - ?D ps)
         (fold (\<lambda>(nodeId, peerPos) s. if pr_position peerPos = sid then updateDisputes S nodeId other s else s) ps ?u) \<and>
       cx_core (fold (\<lambda>(nodeId, peerPos) s. if pr_position peerPos = sid then updateDisputes S nodeId other s else s) ps ?u) = cx_core ?u \<and>
       (\<exists>ds cmp. cs_result (fold (\<lambda>(nodeId, peerPos) s. if pr_position peerPos = sid then updateDisputes S nodeId other s else s) ps ?u) =
          Some (r\<lparr>cr_disputes := ds, cr_compares := cmp\<rparr>))"
      by (auto simp: f)
    moreover have "X - {n} - ?D ps = X - ?D (q # ps)" for X unfolding D by auto
    ultimately show ?thesis using True by (simp add: q)
  qed
qed

text \<open>A set that is acquired makes the nodes that propose it pending.\<close>

lemma acquire_disputes:
  fixes s :: 'ts
  assumes new: "hm_find acq i = None"
    and ds: "disputes_inv S wft acq peers {} txns ds" and cmp: "peers_compared S acq peers {} r"
  defines "P \<equiv> {n. \<exists>p. hm_find peers n = Some p \<and> pr_position p = i}"
  shows "disputes_inv S wft (fst (hm_emplace acq i s)) peers P txns ds \<and>
    peers_compared S (fst (hm_emplace acq i s)) peers P r"
proof -
  have find: "hm_find (fst (hm_emplace acq i s)) j = (if j = i then Some s else hm_find acq j)" for j
    using new by (simp add: hm_simps)
  have "votes_ok S (fst (hm_emplace acq i s)) peers P k d" if "votes_ok S acq peers {} k d" for k d
    using that by (auto simp: votes_ok_def find P_def)
  then show ?thesis using ds cmp unfolding disputes_inv_def peers_compared_def find P_def by auto
qed

lemma acquire_pend:
  assumes inv: "cx_inv_pend S wfs wft {} {} st" and new: "hm_find (cs_acquired st) (ts_id S s) = None" and s: "wfs s"
  defines "P \<equiv> {n. \<exists>p. hm_find (cs_currPeerPositions st) n = Some p \<and> pr_position p = ts_id S s}"
  shows "cx_inv_pend S wfs wft P P (st\<lparr>cs_acquired := fst (hm_emplace (cs_acquired st) (ts_id S s) s)\<rparr>)"
proof -
  let ?acq = "fst (hm_emplace (cs_acquired st) (ts_id S s) s)"
  have find: "hm_find ?acq i = (if i = ts_id S s then Some s else hm_find (cs_acquired st) i)" for i
    using new by (simp add: hm_simps)
  have acq: "acquired_inv S wfs ?acq"
    using inv s by (auto simp: cx_inv_pend_def acquired_inv_def hm_simps split: if_splits)
  have "result_inv S wfs wft ?acq (cs_currPeerPositions st) P P r" if "cs_result st = Some r" for r
  proof -
    have ri: "result_inv S wfs wft (cs_acquired st) (cs_currPeerPositions st) {} {} r"
      using inv that by (simp add: cx_inv_pend_def)
    then show ?thesis
      using acquire_disputes [OF new, of "cs_currPeerPositions st" "cr_txns r" "cr_disputes r" r s]
      by (auto simp: result_inv_def find P_def)
  qed
  then show ?thesis using inv acq by (simp add: cx_inv_pend_def)
qed

text \<open>The nodes that propose a set vote with it once it is known.\<close>

lemma new_set_votes:
  fixes st :: "('tx, 'txid, 'n, 'lid, 'sid, 'ts, 'l) consensus"
  assumes inv: "cx_inv_pend S wfs wft P P st"
    and P: "P = {n. \<exists>p. hm_find (cs_currPeerPositions st) n = Some p \<and> pr_position p = ts_id S other}"
    and r: "cs_result st = Some r" and acq: "hm_find (cs_acquired st) (ts_id S other) = Some s" and o: "wfs other"
  defines "st' \<equiv> fold (\<lambda>(nodeId, peerPos) s. if pr_position peerPos = ts_id S other then updateDisputes S nodeId other s else s)
    (cs_currPeerPositions st) st"
  shows "cx_inv_pend S wfs wft {} {} st' \<and> cx_core st' = cx_core st \<and>
    (\<exists>ds cmp. cs_result st' = Some (r\<lparr>cr_disputes := ds, cr_compares := cmp\<rparr>))"
proof -
  have "hm_wf (cs_currPeerPositions st)" using inv by (simp add: cx_inv_pend_def peers_inv_def)
  then have ps: "(n, p) \<in> set (cs_currPeerPositions st) \<longleftrightarrow> hm_find (cs_currPeerPositions st) n = Some p" for n p
    by (rule hm_set_iff)
  have psb: "\<forall>(n, p) \<in> set (cs_currPeerPositions st). hm_find (cs_currPeerPositions st) n = Some p" using ps by auto
  from updateDisputes_fold [OF inv r acq refl o psb] show ?thesis unfolding st'_def by (auto simp: ps P)
qed

lemma gotTxSet_spec:
  fixes st :: "('tx, 'txid, 'n, 'lid, 'sid, 'ts, 'l) consensus" and now :: nettime
  assumes inv: "cx_inv_pend S wfs wft {} {} st" and s: "wfs txSet"
  defines "st' \<equiv> gotTxSet S now txSet st"
  shows "cx_inv_pend S wfs wft {} {} st' \<and>
    (cs_phase st \<noteq> PhAccepted \<longrightarrow> hm_find (cs_acquired st') (ts_id S txSet) \<noteq> None) \<and>
    cx_core2 st' = cx_core2 st \<and>
    result_frame (cs_result st) (cs_result st')"
proof (cases "cs_phase st = PhAccepted \<or> hm_find (cs_acquired st) (ts_id S txSet) \<noteq> None")
  case True
  then have "st' = st \<or> st' = st\<lparr>cs_now := now\<rparr> \<and> hm_find (cs_acquired st) (ts_id S txSet) \<noteq> None"
    by (auto simp: st'_def gotTxSet_def hm_emplace_def hm_find_def Let_def)
  then show ?thesis using True inv by (auto simp: cx_inv_pend_def)
next
  case False
  obtain acq where new: "hm_emplace (cs_acquired st) (ts_id S txSet) txSet = (acq, True)"
    using False by (auto simp: hm_emplace_def hm_find_def)
  let ?st2 = "st\<lparr>cs_now := now, cs_acquired := acq\<rparr>"
  let ?P = "{n. \<exists>p. hm_find (cs_currPeerPositions st) n = Some p \<and> pr_position p = ts_id S txSet}"
  have inv2: "cx_inv_pend S wfs wft ?P ?P ?st2"
    using acquire_pend [OF inv _ s] False by (simp add: cx_inv_pend_def new)
  have fa: "hm_find acq (ts_id S txSet) = Some txSet"
    using False hm.find_emplace [of "cs_acquired st" "ts_id S txSet" txSet "ts_id S txSet"] by (simp add: new)
  show ?thesis
  proof (cases "cs_result st")
    case None
    then have "st' = ?st2" using False new by (simp add: st'_def gotTxSet_def Let_def)
    then show ?thesis using None inv2 fa by (simp add: cx_inv_pend_def)
  next
    case (Some r)
    have "st' = fold (\<lambda>(nodeId, peerPos) s. if pr_position peerPos = ts_id S txSet then updateDisputes S nodeId txSet s else s)
        (cs_currPeerPositions ?st2) ?st2"
      using False new Some by (simp add: st'_def gotTxSet_def Let_def)
    with new_set_votes [OF inv2 _ _ _ s, of r txSet] Some fa
    have u: "cx_inv_pend S wfs wft {} {} st' \<and> cx_core st' = cx_core ?st2 \<and>
      (\<exists>ds cmp. cs_result st' = Some (r\<lparr>cr_disputes := ds, cr_compares := cmp\<rparr>))" by simp
    then have "cs_acquired st' = acq" using cx_coreD(6) [of st' ?st2] by simp
    moreover have "cx_core2 st' = cx_core2 ?st2" using u by (blast intro: cx_core2_core)
    ultimately show ?thesis using u fa Some by (auto intro: result_frameI)
  qed
qed

lemma peer_bowout_inv:
  fixes st :: "('tx, 'txid, 'n, 'lid, 'sid, 'ts, 'l) consensus"
  assumes inv: "cx_inv_pend S wfs wft {} {} st"
    and peers': "hm_wf ps" "\<And>n. hm_find ps n = (if n = q then None else hm_find (cs_currPeerPositions st) n)"
  shows "cx_inv_pend S wfs wft {} {} (st\<lparr>
    cs_result := map_option (\<lambda>r. r\<lparr>cr_disputes := hm_map (\<lambda>_. unVote q) (cr_disputes r)\<rparr>) (cs_result st),
    cs_currPeerPositions := ps, cs_deadNodes := List.insert q (cs_deadNodes st)\<rparr>)"
proof -
  have "peers_inv (cs_prevLedgerID st) (List.insert q (cs_deadNodes st)) ps"
    using inv peers' by (auto simp: cx_inv_pend_def peers_inv_def split: if_splits)
  then show ?thesis
    using inv result_inv_unvote [where peers' = ps and q = q and peers = "cs_currPeerPositions st"] peers'
    by (auto simp: cx_inv_pend_def)
qed

lemma peer_position_inv:
  fixes st :: "('tx, 'txid, 'n, 'lid, 'sid, 'ts, 'l) consensus"
  assumes inv: "cx_inv_pend S wfs wft {} {} st"
    and p: "pr_nodeID p = q" "pr_previousLedger p = cs_prevLedgerID st" "\<not> isBowOut p" "q \<notin> set (cs_deadNodes st)"
    and peers': "hm_wf ps" "\<And>n. hm_find ps n = (if n = q then Some p else hm_find (cs_currPeerPositions st) n)"
    and m: "close_map_wf m"
  shows "cx_inv_pend S wfs wft {q} {q} (st\<lparr>cs_currPeerPositions := ps,
    cs_rawCloseTimes := (cs_rawCloseTimes st)\<lparr>ct_peers := m\<rparr>\<rparr>)"
proof -
  have "peers_inv (cs_prevLedgerID st) (cs_deadNodes st) ps"
    using inv p peers' by (auto simp: cx_inv_pend_def peers_inv_def split: if_splits)
  then show ?thesis
    using inv m result_inv_peer [where peers' = ps and q = q and peers = "cs_currPeerPositions st"] peers'
    by (auto simp: cx_inv_pend_def)
qed

text \<open>What happens once the new position is recorded: its set is requested, or its votes are counted.\<close>

lemma peer_set_inv:
  fixes st :: "('tx, 'txid, 'n, 'lid, 'sid, 'ts, 'l) consensus" and now :: nettime
  assumes inv: "cx_inv_pend S wfs wft {q} {q} st" and A: "adaptor_ok S wfs A"
    and p: "hm_find (cs_currPeerPositions st) q = Some p"
  defines "st' \<equiv> (case hm_find (cs_acquired st) (pr_position p) of
      None \<Rightarrow> (case ad_acquireTxSet A (pr_position p) of Some s \<Rightarrow> gotTxSet S now s st | None \<Rightarrow> st)
    | Some ait \<Rightarrow> if cs_result st \<noteq> None then updateDisputes S q ait st else st)"
  shows "cx_inv_pend S wfs wft {} {} st' \<and> cx_core2 st' = cx_core2 st \<and> result_frame (cs_result st) (cs_result st')"
proof (cases "hm_find (cs_acquired st) (pr_position p)")
  case None
  have inv0: "cx_inv_pend S wfs wft {} {} st"
    using inv None p result_inv_unacquired [where q = q] by (auto simp: cx_inv_pend_def)
  show ?thesis
  proof (cases "ad_acquireTxSet A (pr_position p)")
    case (Some s)
    then have "wfs s" using A by (auto simp: adaptor_ok_def)
    then show ?thesis using gotTxSet_spec [OF inv0, of s now] None Some by (simp add: st'_def)
  qed (use None inv0 in \<open>simp add: st'_def\<close>)
next
  case (Some ait)
  have ait: "ts_id S ait = pr_position p" "wfs ait" using inv Some by (auto simp: cx_inv_pend_def acquired_inv_def)
  show ?thesis
  proof (cases "cs_result st")
    case None
    then show ?thesis using Some inv by (simp add: st'_def cx_inv_pend_def)
  next
    case r: (Some r)
    from updateDisputes_spec [OF inv r p Some ait] show ?thesis
      using Some r by (auto simp: st'_def intro: cx_core2_core [OF updateDisputes_core] result_frameI)
  qed
qed

lemma peerProposalInternal_spec:
  fixes st :: "('tx, 'txid, 'n, 'lid, 'sid, 'ts, 'l) consensus"
  assumes inv: "cx_inv_pend S wfs wft {} {} st" and A: "adaptor_ok S wfs A"
    and st': "peerProposalInternal A S now p st = (st', b)"
  shows "cx_inv_pend S wfs wft {} {} st' \<and> cx_core3 st' = cx_core3 st \<and> result_frame (cs_result st) (cs_result st')"
proof -
  let ?q = "pr_nodeID p" and ?ps = "cs_currPeerPositions st"
  have wf: "hm_wf ?ps" and cm: "close_map_wf (ct_peers (cs_rawCloseTimes st))"
    using inv by (auto simp: cx_inv_pend_def peers_inv_def)
  have inv1: "cx_inv_pend S wfs wft {} {} (st\<lparr>cs_now := now\<rparr>)" using inv by (simp add: cx_inv_pend_def)
  from st' wf cm show ?thesis
  proof (cases rule: peerProposalInternal_cases)
    case ignored
    then show ?thesis using inv inv1 by auto
  next
    case (bow ps)
    then show ?thesis
      using peer_bowout_inv [OF inv1, of ps ?q] by (auto simp: result_frame_def option.map_comp comp_def)
  next
    case (position ps m)
    let ?st3 = "st\<lparr>cs_now := now, cs_currPeerPositions := ps, cs_rawCloseTimes := (cs_rawCloseTimes st)\<lparr>ct_peers := m\<rparr>\<rparr>"
    have inv3: "cx_inv_pend S wfs wft {?q} {?q} ?st3"
      using peer_position_inv [OF inv1 refl, of p ps m] position by simp
    have p3: "hm_find (cs_currPeerPositions ?st3) ?q = Some p" using position by simp
    from peer_set_inv [OF inv3 A p3, of "cs_now ?st3"] have
      "cx_inv_pend S wfs wft {} {} st' \<and> cx_core2 st' = cx_core2 ?st3 \<and> result_frame (cs_result ?st3) (cs_result st')"
      using position(7) by (simp add: Let_def)
    moreover have "cx_core3 ?st3 = cx_core3 st" by (simp add: cx_core3_def cx_core2_def cx_core_def)
    ultimately show ?thesis using cx_core3_core2 [of st' ?st3] by auto
  qed
qed

end

end
