(* ===== verification/ConsensusRounds.thy ===== *)
theory ConsensusRounds
  imports ConsensusInvariants
begin

text \<open>
  The entry points of the consensus engine keep its invariant: received proposals and transaction
  sets, the timer with everything it calls, the start of a round and its simulation. Inside a round
  a node that does not propose never starts to.
\<close>

section \<open>Small steps\<close>

lemma set_mode_simps [simp]:
  "cs_mode (set_mode m st) = m" "cs_phase (set_mode m st) = cs_phase st" "cs_result (set_mode m st) = cs_result st"
  "cs_now (set_mode m st) = cs_now st" "cs_prevLedgerID (set_mode m st) = cs_prevLedgerID st"
  "cs_previousLedger (set_mode m st) = cs_previousLedger st" "cs_acquired (set_mode m st) = cs_acquired st"
  "cs_currPeerPositions (set_mode m st) = cs_currPeerPositions st" "cs_deadNodes (set_mode m st) = cs_deadNodes st"
  "cs_recentPeerPositions (set_mode m st) = cs_recentPeerPositions st"
  "cs_rawCloseTimes (set_mode m st) = cs_rawCloseTimes st" "cs_openTime (set_mode m st) = cs_openTime st"
  "cs_haveCloseTimeConsensus (set_mode m st) = cs_haveCloseTimeConsensus st"
  "cs_prevProposers (set_mode m st) = cs_prevProposers st"
  by (simp_all add: set_mode_def emit_def)

lemma emit_simps [simp]:
  "cs_mode (emit e st) = cs_mode st" "cs_phase (emit e st) = cs_phase st" "cs_now (emit e st) = cs_now st"
  "cs_prevLedgerID (emit e st) = cs_prevLedgerID st" "cs_previousLedger (emit e st) = cs_previousLedger st"
  "cs_acquired (emit e st) = cs_acquired st" "cs_currPeerPositions (emit e st) = cs_currPeerPositions st"
  "cs_deadNodes (emit e st) = cs_deadNodes st" "cs_recentPeerPositions (emit e st) = cs_recentPeerPositions st"
  "cs_rawCloseTimes (emit e st) = cs_rawCloseTimes st" "cs_closeResolution (emit e st) = cs_closeResolution st"
  "cs_haveCloseTimeConsensus (emit e st) = cs_haveCloseTimeConsensus st"
  "cs_prevProposers (emit e st) = cs_prevProposers st" "cs_prevRoundTime (emit e st) = cs_prevRoundTime st" "cs_log (emit e st) = cs_log st @ [e]"
  by (simp_all add: emit_def)

lemma cx_inv_pend_emit [simp]: "cx_inv_pend S wfs wft pv pc (emit e st) = cx_inv_pend S wfs wft pv pc st"
  by (simp add: cx_inv_pend_def)

lemma cx_inv_pend_mode [simp]: "cx_inv_pend S wfs wft pv pc (set_mode m st) = cx_inv_pend S wfs wft pv pc st"
  by (simp add: cx_inv_pend_def)

lemma cx_inv_mode [simp]: "cx_inv S wfs wft (set_mode m st) = cx_inv S wfs wft st"
  by (simp add: cx_inv_def)

lemma cx_inv_emit [simp]: "cx_inv S wfs wft (emit e st) = cx_inv S wfs wft st"
  by (simp add: cx_inv_def)

lemma phase_inv_frame: "phase_inv ph a \<Longrightarrow> result_frame a b \<Longrightarrow> phase_inv ph b"
  using result_frame_None [of a b] by (auto simp: phase_inv_def)

lemma recent_inv_add:
  fixes p :: "('n, 'lid, 'sid) proposal"
  assumes "recent_inv recent"
  defines "props \<equiv> (case hm_find recent (pr_nodeID p) of None \<Rightarrow> [] | Some ps \<Rightarrow> ps)"
  shows "recent_inv (hm_assign recent (pr_nodeID p) ((if 10 \<le> length props then tl props else props) @ [p]))"
proof -
  have "length props \<le> 10" "\<forall>q \<in> set props. pr_nodeID q = pr_nodeID p"
    using assms(1) by (cases "hm_find recent (pr_nodeID p)"; simp add: recent_inv_def props_def)+
  moreover have "set (tl props) \<subseteq> set props" by (cases props) auto
  ultimately show ?thesis using assms(1) by (auto simp: recent_inv_def hm_simps split: if_splits)
qed

lemma recent_inv_erase: "recent_inv recent \<Longrightarrow> recent_inv (hm_erase recent n)"
  unfolding recent_inv_def hm.find_erase by (simp add: hm.wf_erase)

lemma recent_inv_erase_fold: "recent_inv recent \<Longrightarrow> recent_inv (fold (\<lambda>n m. hm_erase m n) ns recent)"
  by (induction ns arbitrary: recent) (simp_all add: recent_inv_erase)

section \<open>Messages\<close>

context tx_set
begin

lemma playback_one_spec:
  fixes st :: "('tx, 'txid, 'n, 'lid, 'sid, 'ts, 'l) consensus"
  assumes inv: "cx_inv_pend S wfs wft {} {} st" and A: "adaptor_ok S wfs A"
  shows "cx_inv_pend S wfs wft {} {} (playback_one A S p st) \<and> cx_core3 (playback_one A S p st) = cx_core3 st \<and>
    result_frame (cs_result st) (cs_result (playback_one A S p st))"
proof -
  obtain st' b where "peerProposalInternal A S (cs_now st) p st = (st', b)" by fastforce
  with peerProposalInternal_spec [OF inv A this] inv show ?thesis by (cases b) (simp_all add: playback_one_def)
qed

lemma playback_fold_spec:
  fixes st :: "('tx, 'txid, 'n, 'lid, 'sid, 'ts, 'l) consensus" and ps :: "('n, 'lid, 'sid) proposal list"
  assumes inv: "cx_inv_pend S wfs wft {} {} st" and A: "adaptor_ok S wfs A"
  defines "st' \<equiv> fold (playback_one A S) ps st"
  shows "cx_inv_pend S wfs wft {} {} st' \<and> cx_core3 st' = cx_core3 st \<and> result_frame (cs_result st) (cs_result st')"
  using inv unfolding st'_def
proof (induction ps arbitrary: st)
  case (Cons p ps)
  note p = playback_one_spec [OF Cons.prems A, of p]
  show ?case using p Cons.IH [of "playback_one A S p st"]
    result_frame_trans [of "cs_result st" "cs_result (playback_one A S p st)"] by auto
qed simp

lemmas playbackProposals_spec =
  playback_fold_spec [where ps = "concat (map snd (cs_recentPeerPositions st))" and st = st for st, folded playbackProposals_def]

lemma peerProposal_inv:
  fixes st :: "('tx, 'txid, 'n, 'lid, 'sid, 'ts, 'l) consensus" and p :: "('n, 'lid, 'sid) proposal" and now :: nettime
  assumes inv: "cx_inv S wfs wft st" and A: "adaptor_ok S wfs A"
  defines "st' \<equiv> fst (peerProposal A S now p st)"
  shows "cx_inv S wfs wft st' \<and> cs_mode st' = cs_mode st \<and> cs_phase st' = cs_phase st \<and>
    cs_prevLedgerID st' = cs_prevLedgerID st \<and> cs_previousLedger st' = cs_previousLedger st"
proof -
  define props where "props = (case hm_find (cs_recentPeerPositions st) (pr_nodeID p) of None \<Rightarrow> [] | Some ps \<Rightarrow> ps)"
  define rec where "rec = hm_assign (cs_recentPeerPositions st) (pr_nodeID p) ((if 10 \<le> length props then tl props else props) @ [p])"
  let ?st = "st\<lparr>cs_recentPeerPositions := rec\<rparr>"
  have "recent_inv rec"
    unfolding rec_def props_def by (rule recent_inv_add) (use inv in \<open>simp add: cx_inv_def cx_inv_pend_def\<close>)
  then have inv1: "cx_inv_pend S wfs wft {} {} ?st" using inv by (simp add: cx_inv_def cx_inv_pend_def)
  have "st' = fst (peerProposalInternal A S now p ?st)"
    by (simp add: st'_def peerProposal_def rec_def props_def Let_def)
  then have "cx_inv_pend S wfs wft {} {} st' \<and> cx_core3 st' = cx_core3 ?st \<and> result_frame (cs_result ?st) (cs_result st')"
    using peerProposalInternal_spec [OF inv1 A] by (metis prod.collapse)
  moreover from this have "cs_mode st' = cs_mode st" "cs_phase st' = cs_phase st"
    "cs_prevLedgerID st' = cs_prevLedgerID st" "cs_previousLedger st' = cs_previousLedger st"
    using cx_core3D(1-4) [of st' ?st] by simp_all
  ultimately show ?thesis using inv phase_inv_frame by (fastforce simp: cx_inv_def)
qed

lemma gotTxSet_inv:
  fixes st :: "('tx, 'txid, 'n, 'lid, 'sid, 'ts, 'l) consensus" and now :: nettime
  assumes inv: "cx_inv S wfs wft st" and s: "wfs txSet"
  defines "st' \<equiv> gotTxSet S now txSet st"
  shows "cx_inv S wfs wft st' \<and> cs_mode st' = cs_mode st \<and> cs_phase st' = cs_phase st \<and>
    cs_prevLedgerID st' = cs_prevLedgerID st \<and> cs_previousLedger st' = cs_previousLedger st"
proof -
  have "cx_inv_pend S wfs wft {} {} st" using inv by (simp add: cx_inv_def)
  note sp = gotTxSet_spec [OF this s, of now, folded st'_def]
  then show ?thesis using inv phase_inv_frame cx_core2D(1-4) [of st' st] by (fastforce simp: cx_inv_def)
qed

end

section \<open>The start of a round\<close>

text \<open>
  Unless it knows to be on the wrong ledger, the engine of a running round holds the ledger it
  builds on.
\<close>

definition ledger_inv :: "('l, 'lid) cx_ledger_ops \<Rightarrow> ('tx, 'txid, 'n, 'lid, 'sid, 'ts, 'l) consensus \<Rightarrow> bool" where
  "ledger_inv K st \<longleftrightarrow>
     (cs_phase st \<noteq> PhAccepted \<longrightarrow> cs_mode st \<noteq> WrongLedger \<longrightarrow> le_id K (cs_previousLedger st) = cs_prevLedgerID st)"

definition round_inv ::
  "('tx, 'txid, 'sid, 'ts) txset_ops \<Rightarrow> ('l, 'lid) cx_ledger_ops \<Rightarrow> ('ts \<Rightarrow> bool) \<Rightarrow> ('tx \<Rightarrow> bool) \<Rightarrow>
   ('tx, 'txid, 'n, 'lid, 'sid, 'ts, 'l) consensus \<Rightarrow> bool" where
  "round_inv S K wfs wft st \<longleftrightarrow> cx_inv S wfs wft st \<and> ledger_inv K st"

definition stays_out ::
  "('tx, 'txid, 'n, 'lid, 'sid, 'ts, 'l) consensus \<Rightarrow> ('tx, 'txid, 'n, 'lid, 'sid, 'ts, 'l) consensus \<Rightarrow> bool" where
  "stays_out st st' \<longleftrightarrow> (cs_mode st' = Proposing \<longrightarrow> cs_mode st = Proposing)"

definition acquire_ok ::
  "('l, 'lid) cx_ledger_ops \<Rightarrow> ('tx, 'txid, 'n, 'lid, 'sid, 'ts, 'l) adaptor \<Rightarrow> bool" where
  "acquire_ok K A \<longleftrightarrow> (\<forall>i l. ad_acquireLedger A i = Some l \<longrightarrow> le_id K l = i)"

lemma leaveConsensus_frame:
  "cs_phase (leaveConsensus st) = cs_phase st" "cs_now (leaveConsensus st) = cs_now st"
  "cs_prevLedgerID (leaveConsensus st) = cs_prevLedgerID st" "cs_previousLedger (leaveConsensus st) = cs_previousLedger st"
  "cs_haveCloseTimeConsensus (leaveConsensus st) = cs_haveCloseTimeConsensus st"
  "cs_currPeerPositions (leaveConsensus st) = cs_currPeerPositions st"
  "cs_recentPeerPositions (leaveConsensus st) = cs_recentPeerPositions st"
  "cs_acquired (leaveConsensus st) = cs_acquired st" "cs_deadNodes (leaveConsensus st) = cs_deadNodes st"
  "cs_rawCloseTimes (leaveConsensus st) = cs_rawCloseTimes st"
  "cs_mode (leaveConsensus st) \<noteq> Proposing" "cs_mode (leaveConsensus st) = WrongLedger \<longleftrightarrow> cs_mode st = WrongLedger"
  by (auto simp: leaveConsensus_def Let_def split: option.splits)

lemma leaveConsensus_result:
  "(cs_result st = None \<longrightarrow> cs_result (leaveConsensus st) = None) \<and>
   (cs_result st = Some r \<longrightarrow> (\<exists>pos. cs_result (leaveConsensus st) = Some (r\<lparr>cr_position := pos\<rparr>) \<and>
      pr_position pos = pr_position (cr_position r)))"
  by (auto simp: leaveConsensus_def Let_def bowOut_def split: option.splits intro: exI [of _ "cr_position r"])

lemma result_inv_position:
  "pr_position pos = pr_position (cr_position r) \<Longrightarrow>
   result_inv S wfs wft acq peers pv pc (r\<lparr>cr_position := pos\<rparr>) = result_inv S wfs wft acq peers pv pc r"
  by (simp add: result_inv_def compared_ok_def peers_compared_def)

lemma leaveConsensus_inv:
  assumes "cx_inv_pend S wfs wft {} {} st"
  shows "cx_inv_pend S wfs wft {} {} (leaveConsensus st)"
proof (cases "cs_result st")
  case None
  then show ?thesis
    using assms leaveConsensus_result [of st] by (simp add: cx_inv_pend_def leaveConsensus_frame)
next
  case (Some r)
  then obtain pos where "cs_result (leaveConsensus st) = Some (r\<lparr>cr_position := pos\<rparr>)"
    "pr_position pos = pr_position (cr_position r)" using leaveConsensus_result by blast
  then show ?thesis using assms Some
    by (simp add: cx_inv_pend_def leaveConsensus_frame result_inv_position)
qed

lemma leaveConsensus_phase: "phase_inv (cs_phase st) (cs_result st) \<Longrightarrow> phase_inv (cs_phase st) (cs_result (leaveConsensus st))"
  using leaveConsensus_result [of st] by (cases "cs_result st") (auto simp: phase_inv_def)

context tx_set
begin

lemma startRoundInternal_cases:
  fixes st :: "('tx, 'txid, 'n, 'lid, 'sid, 'ts, 'l) consensus"
  assumes rec: "recent_inv (cs_recentPeerPositions st)" and A: "adaptor_ok S wfs A"
    and mode: "mode = WrongLedger \<or> le_id K prevLedger = prevLedgerID"
  obtains st3 where "round_inv S K wfs wft st3" "cs_phase st3 = PhOpen" "cs_mode st3 = mode"
    "cs_prevLedgerID st3 = prevLedgerID" "cs_previousLedger st3 = prevLedger"
    "startRoundInternal A S K timer now prevLedgerID prevLedger mode st \<in> {Some st3, timer (cs_now st3) st3}"
proof -
  let ?st1 = "set_mode mode (st\<lparr>cs_phase := PhOpen\<rparr>)"
  let ?st2 = "?st1\<lparr>cs_now := now, cs_prevLedgerID := prevLedgerID, cs_previousLedger := prevLedger,
                    cs_result := None, cs_convergePercent := 0, cs_closeTimeAvalancheState := AvInit,
                    cs_haveCloseTimeConsensus := False,
                    cs_openTime := timer_reset (ad_clock A) (cs_openTime ?st1),
                    cs_currPeerPositions := [], cs_acquired := [],
                    cs_rawCloseTimes := \<lparr>ct_peers = [], ct_self = 0\<rparr>, cs_deadNodes := [],
                    cs_closeResolution :=
                      getNextLedgerTimeResolution (le_closeTimeResolution K prevLedger)
                        (le_closeAgree K prevLedger) (le_seq K prevLedger + 1)\<rparr>"
  define st3 where "st3 = playbackProposals A S ?st2"
  have "cx_inv_pend S wfs wft {} {} ?st2"
    using rec by (simp add: cx_inv_pend_def acquired_inv_def peers_inv_def hm_simps close_map_wf_def)
  from playbackProposals_spec [OF this A] have sp: "cx_inv_pend S wfs wft {} {} st3"
    "cx_core3 st3 = cx_core3 ?st2" "result_frame (cs_result ?st2) (cs_result st3)" by (simp_all add: st3_def)
  note core = cx_core3D [OF sp(2), simplified]
  have "cs_result st3 = None" using result_frame_None [OF sp(3)] by simp
  then have inv3: "round_inv S K wfs wft st3"
    using sp(1) mode by (auto simp: round_inv_def cx_inv_def phase_inv_def core ledger_inv_def)
  moreover have "startRoundInternal A S K timer now prevLedgerID prevLedger mode st \<in> {Some st3, timer (cs_now st3) st3}"
    by (simp add: startRoundInternal_def Let_def st3_def)
  ultimately show thesis by (intro that [of st3]) (simp_all add: core)
qed

lemma handleWrongLedger_cases:
  fixes st :: "('tx, 'txid, 'n, 'lid, 'sid, 'ts, 'l) consensus"
  assumes inv: "cx_inv S wfs wft st" and A: "adaptor_ok S wfs A" "acquire_ok K A"
  obtains (stay) st2 where "handleWrongLedger A S K timer lid st = Some st2" "round_inv S K wfs wft st2"
      "cs_mode st2 \<noteq> Proposing" "cs_phase st2 = cs_phase st"
    | (restart) l st3 where "ad_acquireLedger A lid = Some l" "round_inv S K wfs wft st3" "cs_phase st3 = PhOpen"
      "cs_mode st3 = SwitchedLedger" "cs_prevLedgerID st3 = lid" "cs_previousLedger st3 = l"
      "handleWrongLedger A S K timer lid st \<in> {Some st3, timer (cs_now st3) st3}"
proof -
  define st1 where "st1 = leaveConsensus st"
  have inv1: "cx_inv_pend S wfs wft {} {} st1" and ph1: "phase_inv (cs_phase st1) (cs_result st1)"
    and mode1: "cs_mode st1 \<noteq> Proposing"
    using inv leaveConsensus_inv leaveConsensus_phase [of st]
    by (auto simp: cx_inv_def st1_def leaveConsensus_frame)
  define st1' where "st1' = st1\<lparr>cs_prevLedgerID := lid,
      cs_result := map_option (\<lambda>r. r\<lparr>cr_disputes := [], cr_compares := []\<rparr>) (cs_result st1),
      cs_currPeerPositions := [], cs_rawCloseTimes := (cs_rawCloseTimes st1)\<lparr>ct_peers := []\<rparr>, cs_deadNodes := []\<rparr>"
  define st2 where "st2 = (if cs_prevLedgerID st1 \<noteq> lid then playbackProposals A S st1' else st1)"
  have "cx_inv_pend S wfs wft {} {} st1'"
    using inv1 by (auto simp: st1'_def cx_inv_pend_def peers_inv_def hm_simps close_map_wf_def
        result_inv_def disputes_inv_def compared_ok_def peers_compared_def)
  note sp = playbackProposals_spec [OF this A(1)]
  have ph1': "phase_inv (cs_phase st1') (cs_result st1')" using ph1 by (auto simp: st1'_def phase_inv_def)
  have core: "cs_phase st1' = cs_phase st1" "cs_mode st1' = cs_mode st1" "cs_prevLedgerID st1' = lid" by (simp_all add: st1'_def)
  have inv2: "cx_inv_pend S wfs wft {} {} st2 \<and> cs_mode st2 = cs_mode st1 \<and> cs_prevLedgerID st2 = lid \<and>
      phase_inv (cs_phase st2) (cs_result st2) \<and> cs_phase st2 = cs_phase st1"
    using sp inv1 ph1 phase_inv_frame [OF ph1'] cx_core3D(1-3) [of "playbackProposals A S st1'" st1'] core
    by (auto simp: st2_def)
  then have cx2: "cx_inv S wfs wft st2" "recent_inv (cs_recentPeerPositions st2)"
    by (auto simp: cx_inv_def cx_inv_pend_def)
  have eq: "handleWrongLedger A S K timer lid st =
    (if le_id K (cs_previousLedger st2) = cs_prevLedgerID st2 then Some st2
     else (case ad_acquireLedger A (cs_prevLedgerID st2) of
             Some newLedger \<Rightarrow> startRoundInternal A S K timer (cs_now st2) lid newLedger SwitchedLedger st2
           | None \<Rightarrow> Some (set_mode WrongLedger st2)))"
    unfolding handleWrongLedger_def Let_def st2_def st1'_def st1_def by simp
  have ph2: "cs_phase st2 = cs_phase st" using inv2 by (simp add: st1_def leaveConsensus_frame)
  show thesis
  proof (cases "le_id K (cs_previousLedger st2) = cs_prevLedgerID st2")
    case True
    then show thesis using eq inv2 cx2 mode1 ph2 by (intro stay [of st2]) (auto simp: round_inv_def ledger_inv_def)
  next
    case False
    show thesis
    proof (cases "ad_acquireLedger A (cs_prevLedgerID st2)")
      case None
      then show thesis using False eq cx2 ph2
        by (intro stay [of "set_mode WrongLedger st2"]) (auto simp: round_inv_def ledger_inv_def)
    next
      case (Some l)
      then have "le_id K l = lid" using A(2) inv2 by (auto simp: acquire_ok_def)
      then show thesis
        by (rule startRoundInternal_cases [where mode = SwitchedLedger and prevLedger = l and prevLedgerID = lid
              and timer = timer and now = "cs_now st2", OF cx2(2) A(1) disjI2])
          (use False Some eq inv2 in \<open>auto intro!: restart\<close>)
    qed
  qed
qed

lemma checkLedger_cases:
  fixes st :: "('tx, 'txid, 'n, 'lid, 'sid, 'ts, 'l) consensus"
  assumes inv: "round_inv S K wfs wft st" and A: "adaptor_ok S wfs A" "acquire_ok K A"
  obtains (stay) st2 where "checkLedger A S K timer st = Some st2" "round_inv S K wfs wft st2"
      "stays_out st st2" "cs_phase st2 = cs_phase st"
    | (restart) lid l st3 where "lid = ad_getPrevLedger A (cs_prevLedgerID st) (cs_previousLedger st) (cs_mode st)"
      "lid \<noteq> cs_prevLedgerID st \<or> le_id K (cs_previousLedger st) \<noteq> cs_prevLedgerID st"
      "ad_acquireLedger A lid = Some l" "round_inv S K wfs wft st3" "cs_phase st3 = PhOpen"
      "cs_mode st3 = SwitchedLedger" "cs_prevLedgerID st3 = lid" "cs_previousLedger st3 = l"
      "checkLedger A S K timer st \<in> {Some st3, timer (cs_now st3) st3}"
proof -
  let ?lid = "ad_getPrevLedger A (cs_prevLedgerID st) (cs_previousLedger st) (cs_mode st)"
  have cx: "cx_inv S wfs wft st" using inv by (simp add: round_inv_def)
  show thesis
  proof (cases "?lid \<noteq> cs_prevLedgerID st \<or> le_id K (cs_previousLedger st) \<noteq> cs_prevLedgerID st")
    case True
    then have "checkLedger A S K timer st = handleWrongLedger A S K timer ?lid st" by (auto simp: checkLedger_def Let_def)
    with True show thesis
      using stay restart by (cases rule: handleWrongLedger_cases [OF cx A, of timer ?lid]) (auto simp: stays_out_def)
  next
    case False
    then show thesis using inv by (intro stay [of st]) (auto simp: checkLedger_def stays_out_def)
  qed
qed

end

section \<open>Closing the ledger\<close>

lemma cx_inv_pend_compared:
  assumes inv: "cx_inv_pend S wfs wft pv pc st" and r: "cs_result st = Some r"
    and n: "hm_find (cs_currPeerPositions st) n = Some p"
    and cmp: "hm_find (cs_acquired st) (pr_position p) \<noteq> None \<Longrightarrow> pr_position p \<in> set (cr_compares r)"
  shows "cx_inv_pend S wfs wft pv (pc - {n}) st"
  using assms by (auto simp: cx_inv_pend_def result_inv_def peers_compared_def)

lemma peers_compared_nobody:
  assumes "peers_compared S acq peers (UNIV - fst ` set peers) r"
  shows "peers_compared S acq peers {} r"
  unfolding peers_compared_def
proof (intro allI impI)
  fix n p assume n: "hm_find peers n = Some p" "hm_find acq (pr_position p) \<noteq> None"
  have "n \<notin> UNIV - fst ` set peers" using hm_find_in_set [OF n(1)] by force
  then show "pr_position p \<in> set (cr_compares r)" using assms n by (simp add: peers_compared_def)
qed

lemma cx_inv_pend_nobody:
  "cx_inv_pend S wfs wft pv (UNIV - fst ` set (cs_currPeerPositions st)) st \<Longrightarrow> cx_inv_pend S wfs wft pv {} st"
  by (simp add: cx_inv_pend_def result_inv_def peers_compared_nobody)

context tx_set
begin

lemma close_fold:
  fixes st :: "('tx, 'txid, 'n, 'lid, 'sid, 'ts, 'l) consensus"
  assumes "cx_inv_pend S wfs wft pv pc st" "cs_result st = Some r"
    and "\<forall>(n, p) \<in> set ps. hm_find (cs_currPeerPositions st) n = Some p"
  defines "st' \<equiv> fold (\<lambda>(nodeId, peerPos) s. case hm_find (cs_acquired s) (pr_position peerPos) of
      Some other \<Rightarrow> createDisputes S other s | None \<Rightarrow> s) ps st"
  shows "cx_inv_pend S wfs wft pv (pc - fst ` set ps) st' \<and> cx_core st' = cx_core st \<and> result_frame (cs_result st) (cs_result st')"
  using assms(1,2,3) unfolding st'_def
proof (induction ps arbitrary: st pc r)
  case (Cons q ps)
  obtain n p where q: "q = (n, p)" by (cases q)
  have np: "hm_find (cs_currPeerPositions st) n = Some p" using Cons.prems(3) by (simp add: q)
  define s1 where "s1 = (case hm_find (cs_acquired st) (pr_position p) of Some other \<Rightarrow> createDisputes S other st | None \<Rightarrow> st)"
  have core: "cx_core s1 = cx_core st" by (simp add: s1_def split: option.splits)
  have "\<exists>r1. cx_inv_pend S wfs wft pv (pc - {n}) s1 \<and> cs_result s1 = Some r1 \<and> result_frame (cs_result st) (cs_result s1)"
  proof (cases "hm_find (cs_acquired st) (pr_position p)")
    case None
    then show ?thesis using cx_inv_pend_compared [OF Cons.prems(1,2) np] Cons.prems(2) by (auto simp: s1_def)
  next
    case (Some other)
    then have o: "wfs other" "ts_id S other = pr_position p"
      using Cons.prems(1) by (auto simp: cx_inv_pend_def acquired_inv_def)
    from createDisputes_spec [OF Cons.prems(1,2) o(1)] obtain ds cmp where
      c: "cx_inv_pend S wfs wft pv pc s1" "cs_result s1 = Some (r\<lparr>cr_disputes := ds, cr_compares := cmp\<rparr>)" "ts_id S other \<in> set cmp"
      using Some by (auto simp: s1_def)
    then have "cx_inv_pend S wfs wft pv (pc - {n}) s1"
      using cx_inv_pend_compared [OF c(1,2), of n p] np cx_coreD(8) [OF core] o by simp
    then show ?thesis using c(2) result_frameI [OF Cons.prems(2) c(2)] by blast
  qed
  then obtain r1 where s1: "cx_inv_pend S wfs wft pv (pc - {n}) s1" "cs_result s1 = Some r1"
    "result_frame (cs_result st) (cs_result s1)" by blast
  have "\<forall>(n, p) \<in> set ps. hm_find (cs_currPeerPositions s1) n = Some p"
    using Cons.prems(3) cx_coreD(8) [OF core] by (auto simp: q)
  from Cons.IH [OF s1(1,2) this] s1(3) core show ?case
    by (auto simp: q s1_def [symmetric] insert_Diff_if Diff_insert2 [symmetric] intro: result_frame_trans)
qed simp

lemma closeLedger_inv:
  fixes st :: "('tx, 'txid, 'n, 'lid, 'sid, 'ts, 'l) consensus"
  assumes inv: "cx_inv_pend S wfs wft pv pc st" and A: "adaptor_ok S wfs A"
  defines "st' \<equiv> closeLedger A S st"
  shows "cx_inv S wfs wft st' \<and> cs_phase st' = PhEstablish \<and> cs_mode st' = cs_mode st \<and>
    cs_prevLedgerID st' = cs_prevLedgerID st \<and> cs_previousLedger st' = cs_previousLedger st \<and>
    cs_currPeerPositions st' = cs_currPeerPositions st \<and>
    ct_self (cs_rawCloseTimes st') = cs_now st \<and> cs_result st' \<noteq> None"
proof -
  define r0 where "r0 = ad_onClose A (cs_previousLedger st) (cs_now st) (cs_mode st)"
  define r where "r = r0\<lparr>cr_roundTime := timer_reset (ad_clock A) (cr_roundTime r0)\<rparr>"
  define acq where "acq = hm_emplace (cs_acquired st) (ts_id S (cr_txns r)) (cr_txns r)"
  define st2 where "st2 = st\<lparr>cs_phase := PhEstablish, cs_rawCloseTimes := (cs_rawCloseTimes st)\<lparr>ct_self := cs_now st\<rparr>,
      cs_peerUnchangedCounter := 0, cs_establishCounter := 0, cs_result := Some r, cs_acquired := fst acq\<rparr>"
  define st3 where "st3 = (if snd acq then emit (EvShareTxSet (cr_txns r)) st2 else st2)"
  define st4 where "st4 = (if cs_mode st3 = Proposing then emit (EvPropose (cr_position r)) st3 else st3)"
  have r: "wfs (cr_txns r)" "pr_position (cr_position r) = ts_id S (cr_txns r)" "cr_disputes r = []" "cr_compares r = []"
    using A by (simp_all add: adaptor_ok_def r_def r0_def Let_def)
  have eq: "st' = fold (\<lambda>(nodeId, peerPos) s. case hm_find (cs_acquired s) (pr_position peerPos) of
      Some other \<Rightarrow> createDisputes S other s | None \<Rightarrow> s) (cs_currPeerPositions st4) st4"
    unfolding st'_def closeLedger_def Let_def st4_def st3_def st2_def acq_def r_def r0_def case_prod_beta
    by (simp cong: if_cong split del: if_split)
  have "acquired_inv S wfs (fst acq)" "hm_find (fst acq) (ts_id S (cr_txns r)) \<noteq> None"
    using inv r(1) by (auto simp: cx_inv_pend_def acquired_inv_def acq_def hm_simps split: if_splits)
  then have "cx_inv_pend S wfs wft {} UNIV st2"
    using inv r by (simp add: cx_inv_pend_def st2_def result_inv_def disputes_inv_def hm_simps compared_ok_def peers_compared_def)
  then have inv4: "cx_inv_pend S wfs wft {} UNIV st4" by (simp add: st4_def st3_def)
  have res4: "cs_result st4 = Some r" and core4: "cx_core st4 = cx_core st2" by (simp_all add: st4_def st3_def st2_def)
  have "hm_wf (cs_currPeerPositions st4)" using inv4 by (simp add: cx_inv_pend_def peers_inv_def)
  then have "\<forall>(n, p) \<in> set (cs_currPeerPositions st4). hm_find (cs_currPeerPositions st4) n = Some p"
    by (auto intro: hm_set_find)
  note cf = close_fold [OF inv4 res4 this, folded eq]
  then have core': "cx_core st' = cx_core st2" using core4 by simp
  note core = cx_coreD [OF core', unfolded st2_def, simplified]
  have "cs_currPeerPositions st4 = cs_currPeerPositions st'"
    using cx_coreD(8) [OF core'] cx_coreD(8) [OF core4] by simp
  then have "cx_inv_pend S wfs wft {} {} st'" using cf cx_inv_pend_nobody [of S wfs wft "{}" st'] by simp
  moreover have "cs_result st' \<noteq> None" using cf res4 result_frame_None [of "cs_result st4" "cs_result st'"] by simp
  ultimately show ?thesis by (simp add: cx_inv_def phase_inv_def core)
qed

lemma phaseOpen_inv:
  fixes st :: "('tx, 'txid, 'n, 'lid, 'sid, 'ts, 'l) consensus"
  assumes inv: "round_inv S K wfs wft st" and A: "adaptor_ok S wfs A" and ph: "cs_phase st \<noteq> PhAccepted"
  defines "st' \<equiv> phaseOpen A S K st"
  shows "round_inv S K wfs wft st' \<and> cs_mode st' = cs_mode st \<and> cs_phase st' \<in> {cs_phase st, PhEstablish}"
proof -
  let ?st1 = "st\<lparr>cs_openTime := timer_tick (ad_clock A) (cs_openTime st)\<rparr>"
  have inv1: "cx_inv_pend S wfs wft {} {} ?st1" "round_inv S K wfs wft ?st1"
    using inv by (auto simp: round_inv_def cx_inv_def cx_inv_pend_def ledger_inv_def)
  have "st' = ?st1 \<or> st' = closeLedger A S ?st1" by (simp add: st'_def phaseOpen_def Let_def)
  then show ?thesis
  proof
    assume "st' = closeLedger A S ?st1"
    with closeLedger_inv [OF inv1(1) A] show ?thesis using inv ph by (auto simp: round_inv_def ledger_inv_def)
  qed (use inv1 in simp)
qed

end

section \<open>Our position\<close>

lemma hm_find_drop:
  "hm_wf (as @ (n, v) # bs) \<Longrightarrow> hm_find (as @ bs) k = (if k = n then None else hm_find (as @ (n, v) # bs) k)"
proof (induction as)
  case (Cons a as)
  then have "hm_wf (as @ (n, v) # bs)" "fst a \<noteq> n" by (auto simp: hm_wf_def)
  then show ?case using Cons.IH by (cases a) (auto simp: hm_find_Cons)
qed (simp add: hm_wf_Cons hm_find_Cons)

lemma stale_loop_inv:
  assumes "hm_wf (kept @ ps)" "\<forall>(n, p) \<in> set ps. pr_nodeID p = n" "close_map_wf votes"
    and "result_inv S wfs wft acq (kept @ ps) {} {} (r\<lparr>cr_disputes := ds\<rparr>)"
    and "stale_loop ct cutoff ps ds votes = (ps', ds', votes')"
  shows "result_inv S wfs wft acq (kept @ ps') {} {} (r\<lparr>cr_disputes := ds'\<rparr>) \<and>
    ps' = filter (\<lambda>(n, p). \<not> isStale p cutoff) ps \<and> close_map_wf votes'"
  using assms
proof (induction ct cutoff ps ds votes arbitrary: kept ps' ds' votes' rule: stale_loop.induct)
  case (2 ct cutoff n p ps ds votes)
  have n: "pr_nodeID p = n" using 2(4) by simp
  show ?case
  proof (cases "isStale p cutoff")
    case True
    have wf: "hm_wf (kept @ ps)" using 2(3) by (auto simp: hm_wf_def)
    have "result_inv S wfs wft acq (kept @ ps) {} {} (r\<lparr>cr_disputes := hm_map (\<lambda>_. unVote n) ds\<rparr>)"
      using result_inv_unvote [OF 2(6), of "kept @ ps" n] hm_find_drop [OF 2(3)] by simp
    then show ?thesis using 2(1) [OF True wf _ 2(5)] 2(4,7) True n by auto
  next
    case False
    obtain qs es ws where l: "stale_loop ct cutoff ps ds (map_incr (ct (pr_closeTime p)) votes) = (qs, es, ws)"
      by (metis prod_cases3)
    have "hm_wf ((kept @ [(n, p)]) @ ps)" "result_inv S wfs wft acq ((kept @ [(n, p)]) @ ps) {} {} (r\<lparr>cr_disputes := ds\<rparr>)"
      using 2(3,6) by simp_all
    from 2(2) [OF False this(1) _ map_incr_wf [OF 2(5)] this(2) l] show ?thesis
      using 2(4,7) False l by auto
  qed
qed simp

text \<open>The set that our votes describe: the changed copy if there is one.\<close>

abbreviation voted_set :: "'ts \<Rightarrow> 'ts option \<Rightarrow> 'ts" where
  "voted_set txns m \<equiv> case_option txns (\<lambda>s. s) m"

context tx_set
begin

lemma update_vote_step:
  assumes d: "dispute_ok S wft (voted_set txns m) k d" and s: "wfs (voted_set txns m)"
    and u: "updateVote t pr parms d = (d', changed)"
  defines "m' \<equiv> (if changed
       then Some (if dt_ourVote d' then ts_insert S (dt_tx d') (voted_set txns m) else ts_erase S k (voted_set txns m))
       else m)"
  shows "dispute_ok S wft (voted_set txns m') k d' \<and> wfs (voted_set txns m') \<and> dt_votes d' = dt_votes d \<and>
    (\<forall>x. x \<noteq> k \<longrightarrow> ts_exists S (voted_set txns m') x = ts_exists S (voted_set txns m) x)"
proof -
  have d': "d' = fst (updateVote t pr parms d)" "changed = (dt_ourVote d' \<noteq> dt_ourVote d)"
    using u updateVote_changed [of t pr parms d] by auto
  have wf': "dt_wf d'" using d by (simp add: d'(1) dispute_ok_def updateVote_wf)
  have tx: "dt_tx d' = dt_tx d" "tx_id S (dt_tx d) = k" "wft (dt_tx d)" "dt_votes d' = dt_votes d"
    "dt_ourVote d = ts_exists S (voted_set txns m) k" using d by (simp_all add: d'(1) dispute_ok_def)
  show ?thesis
    using wf' tx s insert_wfs [OF s tx(3)] insert_exists [OF s tx(3)] erase_wfs [OF s] erase_exists [OF s] d'(2)
    by (auto simp: m'_def dispute_ok_def)
qed

lemma update_votes_spec:
  assumes "hm_wf ds" "\<forall>(k, d) \<in> set ds. dispute_ok S wft (voted_set txns m) k d" "wfs (voted_set txns m)"
    and "update_votes S t pr parms txns ds m = (ds', m')"
  shows "map fst ds' = map fst ds \<and> wfs (voted_set txns m') \<and>
    (\<forall>k d'. hm_find ds' k = Some d' \<longrightarrow> dispute_ok S wft (voted_set txns m') k d' \<and>
       (\<exists>d. hm_find ds k = Some d \<and> dt_votes d' = dt_votes d)) \<and>
    (\<forall>x. hm_find ds x = None \<longrightarrow> ts_exists S (voted_set txns m') x = ts_exists S (voted_set txns m) x)"
  using assms
proof (induction ds arbitrary: m ds' m')
  case (Cons q ds)
  obtain k d where q: "q = (k, d)" by (cases q)
  obtain d1 c where u: "updateVote t pr parms d = (d1, c)" by fastforce
  define m1 where "m1 = (if c then Some (if dt_ourVote d1 then ts_insert S (dt_tx d1) (voted_set txns m)
      else ts_erase S k (voted_set txns m)) else m)"
  obtain ds1 where l: "update_votes S t pr parms txns ds m1 = (ds1, m')" "ds' = (k, d1) # ds1"
    using Cons.prems(4) by (auto simp: q u m1_def Let_def cong: if_cong split: prod.splits)
  have wf: "hm_wf ds" "hm_find ds k = None" using Cons.prems(1) by (simp_all add: q hm_wf_Cons)
  have step: "dispute_ok S wft (voted_set txns m1) k d1" "wfs (voted_set txns m1)" "dt_votes d1 = dt_votes d"
    "\<And>x. x \<noteq> k \<Longrightarrow> ts_exists S (voted_set txns m1) x = ts_exists S (voted_set txns m) x"
    using update_vote_step [OF _ Cons.prems(3) u, of k] Cons.prems(2) by (auto simp: q m1_def)
  have "\<forall>(k', d') \<in> set ds. dispute_ok S wft (voted_set txns m1) k' d'"
  proof clarify
    fix k' d' assume in_ds: "(k', d') \<in> set ds"
    then have "k' \<noteq> k" using wf hm_set_find [OF wf(1)] by fastforce
    then show "dispute_ok S wft (voted_set txns m1) k' d'" using Cons.prems(2) in_ds step(4) by (auto simp: q dispute_ok_def)
  qed
  note ih = Cons.IH [OF wf(1) this step(2) l(1)]
  have "dispute_ok S wft (voted_set txns m') k d1" using ih wf(2) step(1) by (simp add: dispute_ok_def)
  with ih step show ?case by (auto simp: l(2) q hm_simps)
qed (simp add: hm_simps)

end

context tx_set
begin

lemma change_position_inv:
  fixes st :: "('tx, 'txid, 'n, 'lid, 'sid, 'ts, 'l) consensus" and ct :: nettime
  assumes inv: "cx_inv_pend S wfs wft {} {} (st\<lparr>cs_result := None\<rparr>)" and s: "wfs s"
    and ds: "disputes_inv S wft (cs_acquired st) (cs_currPeerPositions st) {} s (cr_disputes r)"
    and cmp: "compared_ok S wfs (r\<lparr>cr_txns := s\<rparr>)"
    and pc: "peers_compared S (cs_acquired st) (cs_currPeerPositions st) {} r"
  defines "st' \<equiv> change_position S s ct r st"
  shows "cx_inv_pend S wfs wft {} {} st' \<and> cx_core2 st' = cx_core2 st \<and>
    (\<exists>r'. cs_result st' = Some r' \<and> cr_state r' = cr_state r \<and> cr_roundTime r' = cr_roundTime r)"
proof -
  define r1 where "r1 = r\<lparr>cr_txns := s, cr_position := changePosition (ts_id S s) ct (cs_now st) (cr_position r)\<rparr>"
  have r1: "cr_txns r1 = s" "pr_position (cr_position r1) = ts_id S s" "cr_disputes r1 = cr_disputes r"
    "compared_ok S wfs r1" "peers_compared S acq peers P r1 = peers_compared S acq peers P r" for acq peers P
    using cmp by (simp_all add: r1_def changePosition_def compared_ok_def peers_compared_def)
  have sel: "cr_state r1 = cr_state r" "cr_roundTime r1 = cr_roundTime r" by (simp_all add: r1_def)
  let ?new = "snd (hm_emplace (cs_acquired st) (ts_id S s) s)"
  define acq where "acq = fst (hm_emplace (cs_acquired st) (ts_id S s) s)"
  define st1 where "st1 = st\<lparr>cs_result := Some r1, cs_acquired := acq\<rparr>"
  define st1' where "st1' = (if isBowOut (cr_position r1) then st1 else emit (EvShareTxSet s) st1)"
  define st2 where "st2 = (if ?new
      then fold (\<lambda>(nodeId, peerPos) t. if pr_position peerPos = ts_id S s then updateDisputes S nodeId s t else t)
             (cs_currPeerPositions st1') st1' else st1)"
  have st': "st' = (if \<not> isBowOut (cr_position r1) \<and> cs_mode st2 = Proposing then emit (EvPropose (cr_position r1)) st2 else st2)"
    unfolding st'_def change_position_def Let_def st2_def st1'_def st1_def acq_def r1_def case_prod_beta
    by (simp cong: if_cong split del: if_split)
  have acq_inv: "acquired_inv S wfs acq" "hm_find acq (ts_id S s) \<noteq> None"
    using inv s by (auto simp: cx_inv_pend_def acquired_inv_def acq_def hm_simps split: if_splits)
  have "cx_inv_pend S wfs wft {} {} st2 \<and> cx_core2 st2 = cx_core2 st \<and>
    (\<exists>r'. cs_result st2 = Some r' \<and> cr_state r' = cr_state r \<and> cr_roundTime r' = cr_roundTime r)"
  proof (cases ?new)
    case False
    then have "acq = cs_acquired st" by (simp add: acq_def hm_emplace_def split: option.splits)
    then show ?thesis using False inv acq_inv r1 s ds pc
      by (auto simp: st2_def st1_def cx_inv_pend_def result_inv_def sel)
  next
    case True
    then have new: "hm_find (cs_acquired st) (ts_id S s) = None" by (simp add: hm_simps)
    let ?P = "{n. \<exists>p. hm_find (cs_currPeerPositions st) n = Some p \<and> pr_position p = ts_id S s}"
    have "disputes_inv S wft acq (cs_currPeerPositions st) ?P s (cr_disputes r)"
      "peers_compared S acq (cs_currPeerPositions st) ?P r"
      using acquire_disputes [OF new ds pc, of s] by (simp_all add: acq_def)
    then have "cx_inv_pend S wfs wft ?P ?P st1"
      using inv acq_inv r1 s by (auto simp: st1_def cx_inv_pend_def result_inv_def)
    then have inv1: "cx_inv_pend S wfs wft ?P ?P st1'" by (simp add: st1'_def)
    have eqs: "cs_currPeerPositions st1' = cs_currPeerPositions st" "cs_result st1' = Some r1" "cs_acquired st1' = acq"
      by (simp_all add: st1'_def st1_def)
    obtain s0 where s0: "hm_find (cs_acquired st1') (ts_id S s) = Some s0" using acq_inv eqs by auto
    have "cx_core2 st1' = cx_core2 st" by (simp add: st1'_def st1_def)
    with new_set_votes [OF inv1 _ eqs(2) s0 s] True eqs(1) cx_core2_core [of st2 st1'] show ?thesis
      by (auto simp: st2_def sel)
  qed
  then show ?thesis by (auto simp: st')
qed

end

lemma close_time_consensus_frame:
  assumes "close_time_consensus A votes pos st = (st', ct)"
  obtains a h where "st' = st\<lparr>cs_closeTimeAvalancheState := a, cs_haveCloseTimeConsensus := h\<rparr>"
proof (cases "cs_currPeerPositions st = []")
  case True
  then show ?thesis
    using assms that [where a = "cs_closeTimeAvalancheState st" and h = True] by (simp add: close_time_consensus_def)
next
  case False
  then show ?thesis using assms by (auto simp: close_time_consensus_def Let_def split: prod.splits intro: that)
qed

context tx_set
begin

lemma update_votes_inv:
  assumes ri: "result_inv S wfs wft acq peers {} {} r"
    and u: "update_votes S t pr parms (cr_txns r) (cr_disputes r) None = (ds, m)"
  defines "s \<equiv> voted_set (cr_txns r) m" and "r1 \<equiv> r\<lparr>cr_disputes := ds\<rparr>"
  shows "wfs s \<and> disputes_inv S wft acq peers {} s ds \<and> compared_ok S wfs (r1\<lparr>cr_txns := s\<rparr>) \<and> peers_compared S acq peers {} r1"
proof -
  have wf: "hm_wf (cr_disputes r)" and txns: "wfs (voted_set (cr_txns r) None)"
    using ri by (simp_all add: result_inv_def disputes_inv_def)
  have "\<forall>(k, d) \<in> set (cr_disputes r). dispute_ok S wft (voted_set (cr_txns r) None) k d"
    using ri hm_set_find [OF wf] by (auto simp: result_inv_def disputes_inv_def)
  note sp = update_votes_spec [OF wf this txns u, folded s_def]
  have dom: "hm_find ds x = None \<longleftrightarrow> hm_find (cr_disputes r) x = None" for x
    using sp by (metis hm_set_keys hm_keys_def)
  have "hm_wf ds" using sp wf by (simp add: hm_wf_def)
  then have "disputes_inv S wft acq peers {} s ds"
    using sp ri by (fastforce simp: disputes_inv_def result_inv_def votes_ok_def)
  moreover have "compared_ok S wfs (r1\<lparr>cr_txns := s\<rparr>)"
    using ri sp dom by (auto simp: compared_ok_def result_inv_def r1_def)
  ultimately show ?thesis using ri sp by (simp add: result_inv_def peers_compared_def r1_def)
qed

lemma updateOurPositions_inv:
  fixes st :: "('tx, 'txid, 'n, 'lid, 'sid, 'ts, 'l) consensus" and A :: "('tx, 'txid, 'n, 'lid, 'sid, 'ts, 'l) adaptor"
  assumes inv: "cx_inv_pend S wfs wft {} {} st" and r: "cs_result st = Some r"
  defines "st' \<equiv> updateOurPositions A S st"
  shows "cx_inv_pend S wfs wft {} {} st' \<and> cs_phase st' = cs_phase st \<and> cs_mode st' = cs_mode st \<and>
    cs_prevLedgerID st' = cs_prevLedgerID st \<and> cs_previousLedger st' = cs_previousLedger st \<and>
    (\<exists>r'. cs_result st' = Some r' \<and> cr_state r' = cr_state r \<and> cr_roundTime r' = cr_roundTime r)"
proof -
  let ?cut = "cs_now st - of_int (proposeFRESHNESS (ad_parms A))"
  obtain peers ds1 votes where sl:
    "stale_loop (asCloseTime st) ?cut (cs_currPeerPositions st) (cr_disputes r) [] = (peers, ds1, votes)"
    by (metis prod_cases3)
  have ps: "peers_inv (cs_prevLedgerID st) (cs_deadNodes st) (cs_currPeerPositions st)"
    and ri: "result_inv S wfs wft (cs_acquired st) (cs_currPeerPositions st) {} {} r"
    using inv r by (simp_all add: cx_inv_pend_def)
  have wf: "hm_wf (cs_currPeerPositions st)" using ps by (simp add: peers_inv_def)
  have ids: "\<forall>(n, p) \<in> set (cs_currPeerPositions st). pr_nodeID p = n"
    using ps hm_set_find [OF wf] by (auto simp: peers_inv_def)
  have "close_map_wf []" by (simp add: close_map_wf_def)
  from stale_loop_inv [of "[]", OF _ ids this _ sl, of S wfs wft "cs_acquired st" r] wf ri
  have ri1: "result_inv S wfs wft (cs_acquired st) peers {} {} (r\<lparr>cr_disputes := ds1\<rparr>)"
    and peers: "peers = filter (\<lambda>(n, p). \<not> isStale p ?cut) (cs_currPeerPositions st)" by auto
  obtain ds2 m where uv: "update_votes S (cs_convergePercent st) (cs_mode st = Proposing) (ad_parms A) (cr_txns r) ds1 None = (ds2, m)"
    by fastforce
  let ?r1 = "r\<lparr>cr_disputes := ds2\<rparr>" and ?s = "voted_set (cr_txns r) m"
  have "update_votes S (cs_convergePercent st) (cs_mode st = Proposing) (ad_parms A) (cr_txns (r\<lparr>cr_disputes := ds1\<rparr>))
      (cr_disputes (r\<lparr>cr_disputes := ds1\<rparr>)) None = (ds2, m)" using uv by simp
  from update_votes_inv [OF ri1 this]
  have v: "wfs ?s" "disputes_inv S wft (cs_acquired st) peers {} ?s ds2" "compared_ok S wfs (?r1\<lparr>cr_txns := ?s\<rparr>)"
    "peers_compared S (cs_acquired st) peers {} ?r1" by (simp_all cong: option.case_cong)
  let ?st1 = "st\<lparr>cs_currPeerPositions := peers, cs_result := Some ?r1, cs_haveCloseTimeConsensus := False\<rparr>"
  obtain st2 ct where cc: "close_time_consensus A votes (cr_position ?r1) ?st1 = (st2, ct)" by fastforce
  obtain a h where st2: "st2 = ?st1\<lparr>cs_closeTimeAvalancheState := a, cs_haveCloseTimeConsensus := h\<rparr>"
    by (rule close_time_consensus_frame [OF cc])
  have "peers_inv (cs_prevLedgerID st) (cs_deadNodes st) peers"
    using ps by (auto simp: peers_inv_def peers hm_wf_filter hm_find_filter split: option.splits if_splits)
  then have inv2: "cx_inv_pend S wfs wft {} {} (st2\<lparr>cs_result := None\<rparr>)"
    using inv by (simp add: cx_inv_pend_def st2)
  have txns: "hm_find (cs_acquired st) (ts_id S (cr_txns r)) \<noteq> None" "pr_position (cr_position r) = ts_id S (cr_txns r)"
    using ri by (simp_all add: result_inv_def)
  have cp: "cx_inv_pend S wfs wft {} {} (change_position S s' ct ?r1 st2) \<and>
      cx_core2 (change_position S s' ct ?r1 st2) = cx_core2 st2 \<and>
      (\<exists>r'. cs_result (change_position S s' ct ?r1 st2) = Some r' \<and> cr_state r' = cr_state r \<and> cr_roundTime r' = cr_roundTime r)"
    if "s' = ?s" for s'
    using change_position_inv [OF inv2, of s' ?r1 ct] v that by (simp add: st2)
  have "st' = st2 \<and> m = None \<or> (\<exists>s'. s' = ?s \<and> st' = change_position S s' ct ?r1 st2)"
    using r sl uv cc by (auto simp: st'_def updateOurPositions_def Let_def split: option.splits if_splits)
  then show ?thesis
  proof (elim disjE exE conjE)
    assume "st' = st2" "m = None"
    then show ?thesis using inv2 v txns by (auto simp: st2 cx_inv_pend_def result_inv_def compared_ok_def)
  next
    fix s' assume "s' = ?s" "st' = change_position S s' ct ?r1 st2"
    then show ?thesis using cp [of s'] cx_core2D(1-4) [of st' st2] by (simp add: st2)
  qed
qed

end

section \<open>Reaching consensus\<close>

lemma haveConsensus_cases:
  assumes "haveConsensus A st = (st', b)" "cs_result st = Some r"
  obtains state where "b \<longrightarrow> state \<noteq> CsNo"
    "st' = st\<lparr>cs_result := Some (r\<lparr>cr_state := state\<rparr>)\<rparr> \<or> b \<and> st' = leaveConsensus (st\<lparr>cs_result := Some (r\<lparr>cr_state := state\<rparr>)\<rparr>)"
  using assms by (auto simp: haveConsensus_def Let_def split: if_splits)

lemma result_inv_time [simp]:
  "result_inv S wfs wft acq peers pv pc (r\<lparr>cr_state := x\<rparr>) = result_inv S wfs wft acq peers pv pc r"
  "result_inv S wfs wft acq peers pv pc (r\<lparr>cr_roundTime := t\<rparr>) = result_inv S wfs wft acq peers pv pc r"
  "result_inv S wfs wft acq peers pv pc (r\<lparr>cr_proposers := n\<rparr>) = result_inv S wfs wft acq peers pv pc r"
  by (simp_all add: result_inv_def compared_ok_def peers_compared_def)

lemma haveConsensus_inv:
  assumes inv: "cx_inv_pend S wfs wft {} {} st" and r: "cs_result st = Some r" and st': "haveConsensus A st = (st', b)"
  shows "cx_inv_pend S wfs wft {} {} st' \<and> cs_phase st' = cs_phase st \<and> stays_out st st' \<and>
    (cs_mode st' = WrongLedger \<longleftrightarrow> cs_mode st = WrongLedger) \<and>
    cs_prevLedgerID st' = cs_prevLedgerID st \<and> cs_previousLedger st' = cs_previousLedger st \<and>
    (\<exists>r'. cs_result st' = Some r' \<and> (b \<longrightarrow> cr_state r' \<noteq> CsNo) \<and> cr_roundTime r' = cr_roundTime r)"
proof -
  from st' r obtain state where b: "b \<longrightarrow> state \<noteq> CsNo" and cases:
    "st' = st\<lparr>cs_result := Some (r\<lparr>cr_state := state\<rparr>)\<rparr> \<or> b \<and> st' = leaveConsensus (st\<lparr>cs_result := Some (r\<lparr>cr_state := state\<rparr>)\<rparr>)"
    by (rule haveConsensus_cases)
  let ?st1 = "st\<lparr>cs_result := Some (r\<lparr>cr_state := state\<rparr>)\<rparr>"
  have inv1: "cx_inv_pend S wfs wft {} {} ?st1" using inv r by (simp add: cx_inv_pend_def)
  from cases show ?thesis
  proof (elim disjE conjE)
    assume "st' = ?st1"
    then show ?thesis using inv1 b by (simp add: stays_out_def)
  next
    assume leave: "st' = leaveConsensus ?st1"
    obtain pos where "cs_result st' = Some (r\<lparr>cr_state := state, cr_position := pos\<rparr>)"
      using leaveConsensus_result [of ?st1 "r\<lparr>cr_state := state\<rparr>"] leave by auto
    then show ?thesis using leaveConsensus_inv [OF inv1] leave b by (simp add: leaveConsensus_frame stays_out_def)
  qed
qed

text \<open>
  The verdicts: for \<open>Yes\<close> the peers on our position reach the threshold or every dispute is stalled, for
  \<open>MovedOn\<close> the peers that finished without us do.
\<close>

definition verdict_ok ::
  "('tx, 'txid, 'n, 'lid, 'sid, 'ts, 'l) adaptor \<Rightarrow> ('tx, 'txid, 'n, 'lid, 'sid, 'ts, 'l) consensus \<Rightarrow>
   ('tx, 'txid, 'n, 'lid, 'sid, 'ts) consensus_result \<Rightarrow> bool" where
  "verdict_ok A st r \<longleftrightarrow>
     (let peers = cs_currPeerPositions st;
          agree = length (filter (\<lambda>(_, p). pr_position p = pr_position (cr_position r)) peers);
          late = (ledgerMaxConsensus (ad_parms A) < timer_read (cr_roundTime r))
      in (cr_state r = CsYes \<longrightarrow>
            checkConsensusReached agree (length peers) (cs_mode st = Proposing) (minConsensusPct (ad_parms A)) late False \<or>
            cr_disputes r \<noteq> [] \<and>
            list_all (\<lambda>(_, d). stalled (ad_parms A) (cs_mode st = Proposing) (cs_peerUnchangedCounter st) d) (cr_disputes r)) \<and>
         (cr_state r = CsMovedOn \<longrightarrow>
            checkConsensusReached (ad_proposersFinished A (cs_previousLedger st) (cs_prevLedgerID st)) (length peers) False
              (minConsensusPct (ad_parms A)) late False))"

lemma filter_split_length: "length (filter P xs) + length (filter (\<lambda>x. \<not> P x) xs) = length xs"
  by (induction xs) auto

lemma haveConsensus_verdict:
  assumes "haveConsensus A st = (st', True)" "cs_result st = Some r" "cs_result st' = Some r'"
  shows "verdict_ok A st' r'"
proof -
  let ?peers = "cs_currPeerPositions st" and ?P = "\<lambda>(_, p). pr_position p = pr_position (cr_position r)"
  have n: "length (filter ?P ?peers) + length (filter (\<lambda>(_, p). pr_position p \<noteq> pr_position (cr_position r)) ?peers) = length ?peers"
    using filter_split_length [of ?P ?peers] by (simp add: case_prod_unfold)
  define stl where "stl = (cs_haveCloseTimeConsensus st \<and> cr_disputes r \<noteq> [] \<and>
    list_all (\<lambda>(_, d). stalled (ad_parms A) (cs_mode st = Proposing) (cs_peerUnchangedCounter st) d) (cr_disputes r))"
  define state where "state = checkConsensus (cs_prevProposers st) (length ?peers) (length (filter ?P ?peers))
    (ad_proposersFinished A (cs_previousLedger st) (cs_prevLedgerID st)) (cs_prevRoundTime st)
    (timer_read (cr_roundTime r)) stl (ad_parms A) (cs_mode st = Proposing)"
  let ?st1 = "st\<lparr>cs_result := Some (r\<lparr>cr_state := state\<rparr>)\<rparr>"
  have eq: "state = CsExpired \<and> st' = leaveConsensus ?st1 \<or> state \<noteq> CsNo \<and> state \<noteq> CsExpired \<and> st' = ?st1"
    using assms(1) unfolding haveConsensus_def assms(2) option.case Let_def n stl_def [symmetric] state_def [symmetric]
    by (auto split: if_splits)
  then show ?thesis
  proof (elim disjE conjE)
    assume "state = CsExpired" "st' = leaveConsensus ?st1"
    then have "cr_state r' = CsExpired"
      using leaveConsensus_result [of ?st1 "r\<lparr>cr_state := state\<rparr>"] assms(3) by auto
    then show ?thesis by (simp add: verdict_ok_def)
  next
    assume "st' = ?st1"
    moreover have "state = CsYes \<Longrightarrow> checkConsensusReached (length (filter ?P ?peers)) (length ?peers) (cs_mode st = Proposing)
        (minConsensusPct (ad_parms A)) (ledgerMaxConsensus (ad_parms A) < timer_read (cr_roundTime r)) stl"
      by (auto simp: state_def checkConsensus_def Let_def split: if_splits)
    moreover have "state = CsMovedOn \<Longrightarrow> checkConsensusReached (ad_proposersFinished A (cs_previousLedger st) (cs_prevLedgerID st))
        (length ?peers) False (minConsensusPct (ad_parms A)) (ledgerMaxConsensus (ad_parms A) < timer_read (cr_roundTime r)) False"
      by (auto simp: state_def checkConsensus_def Let_def split: if_splits)
    ultimately show ?thesis using assms(3) by (cases stl) (auto simp: verdict_ok_def Let_def stl_def)
  qed
qed

text \<open>What is known of a round that was accepted by the timer.\<close>

definition accepted_ok ::
  "('tx, 'txid, 'n, 'lid, 'sid, 'ts, 'l) adaptor \<Rightarrow> ('tx, 'txid, 'n, 'lid, 'sid, 'ts, 'l) consensus \<Rightarrow> bool" where
  "accepted_ok A st \<longleftrightarrow>
     (\<exists>r. cs_result st = Some r \<and> cr_state r \<noteq> CsNo \<and> verdict_ok A st r \<and> cs_haveCloseTimeConsensus st \<and>
        ledgerMinConsensus (ad_parms A) \<le> timer_read (cr_roundTime r) \<and> cs_prevProposers st = length (cs_currPeerPositions st) \<and>
        cs_prevRoundTime st = timer_read (cr_roundTime r) \<and> cs_log st \<noteq> [] \<and>
        last (cs_log st) = EvAccept r (cs_previousLedger st) (cs_closeResolution st) (cs_rawCloseTimes st) (cs_mode st) (ad_validating A))"

context tx_set
begin

lemma phaseEstablish_inv:
  fixes st :: "('tx, 'txid, 'n, 'lid, 'sid, 'ts, 'l) consensus" and A :: "('tx, 'txid, 'n, 'lid, 'sid, 'ts, 'l) adaptor"
    and K :: "('l, 'lid) cx_ledger_ops"
  assumes inv: "round_inv S K wfs wft st" and ph: "cs_phase st = PhEstablish"
  defines "st' \<equiv> phaseEstablish A S K st"
  shows "round_inv S K wfs wft st' \<and> stays_out st st' \<and> (cs_phase st' = PhAccepted \<longrightarrow> accepted_ok A st') \<and>
    cs_phase st' \<noteq> PhOpen"
proof -
  obtain r0 where r0: "cs_result st = Some r0" using inv ph by (auto simp: round_inv_def cx_inv_def phase_inv_def)
  let ?r = "r0\<lparr>cr_roundTime := timer_tick (ad_clock A) (cr_roundTime r0), cr_proposers := length (cs_currPeerPositions st)\<rparr>"
  let ?t = "timer_read (cr_roundTime ?r)"
  define st1 where "st1 = st\<lparr>cs_peerUnchangedCounter := Suc (cs_peerUnchangedCounter st), cs_establishCounter := Suc (cs_establishCounter st),
      cs_result := Some ?r, cs_convergePercent := (?t * 100) sdiv max (cs_prevRoundTime st) (avMinConsensusTime (ad_parms A))\<rparr>"
  have inv1: "cx_inv_pend S wfs wft {} {} st1" and led: "ledger_inv K st"
    using inv r0 by (simp_all add: round_inv_def cx_inv_def cx_inv_pend_def st1_def)
  have st1: "cs_result st1 = Some ?r" "cs_phase st1 = PhEstablish" "cs_mode st1 = cs_mode st"
    "cs_prevLedgerID st1 = cs_prevLedgerID st" "cs_previousLedger st1 = cs_previousLedger st" using ph by (simp_all add: st1_def)
  define st2 where "st2 = updateOurPositions A S st1"
  from updateOurPositions_inv [OF inv1 st1(1), of A] obtain r2 where st2: "cx_inv_pend S wfs wft {} {} st2"
    "cs_phase st2 = PhEstablish" "cs_mode st2 = cs_mode st" "cs_prevLedgerID st2 = cs_prevLedgerID st"
    "cs_previousLedger st2 = cs_previousLedger st" "cs_result st2 = Some r2" "cr_roundTime r2 = cr_roundTime ?r"
    using st1 by (auto simp: st2_def)
  obtain st3 b where hc: "haveConsensus A st2 = (st3, b)" by fastforce
  from haveConsensus_inv [OF st2(1,6) hc] obtain r3 where st3: "cx_inv_pend S wfs wft {} {} st3"
    "cs_phase st3 = PhEstablish" "stays_out st2 st3" "cs_mode st3 = WrongLedger \<longleftrightarrow> cs_mode st2 = WrongLedger"
    "cs_prevLedgerID st3 = cs_prevLedgerID st2" "cs_previousLedger st3 = cs_previousLedger st2"
    "cs_result st3 = Some r3" "b \<longrightarrow> cr_state r3 \<noteq> CsNo" "cr_roundTime r3 = cr_roundTime r2" using st2(2) by auto
  define n where "n = length (cs_currPeerPositions st3)"
  define st4 where "st4 = (emit (EvOperatingMode n) st3)\<lparr>cs_prevProposers := n,
      cs_prevRoundTime := timer_read (cr_roundTime r3), cs_phase := PhAccepted\<rparr>"
  define st5 where "st5 = emit (EvAccept r3 (cs_previousLedger st4) (cs_closeResolution st4)
      (cs_rawCloseTimes st4) (cs_mode st4) (ad_validating A)) st4"
  have "st' = st1 \<or> st' = st2 \<or> st' = st3 \<or>
      b \<and> cs_haveCloseTimeConsensus st3 \<and> \<not> ?t < ledgerMinConsensus (ad_parms A) \<and> st' = st5"
    unfolding st'_def phaseEstablish_def r0 option.case Let_def st1_def [symmetric] st2_def [symmetric] hc
    by (simp add: st3(7) n_def st4_def st5_def split: bool.splits)
  moreover have "round_inv S K wfs wft st1 \<and> stays_out st st1" "round_inv S K wfs wft st2 \<and> stays_out st st2"
    "round_inv S K wfs wft st3 \<and> stays_out st st3"
    using inv1 led ph st1 st2 st3 by (simp_all add: round_inv_def cx_inv_def phase_inv_def ledger_inv_def stays_out_def)
  moreover have "round_inv S K wfs wft st5 \<and> stays_out st st5"
    using st2 st3 by (simp add: st5_def st4_def round_inv_def cx_inv_def phase_inv_def ledger_inv_def stays_out_def cx_inv_pend_def)
  moreover have "accepted_ok A st5" if "b" "cs_haveCloseTimeConsensus st3" "\<not> ?t < ledgerMinConsensus (ad_parms A)"
    using that st2 st3 haveConsensus_verdict [of A st2 st3 r2 r3] hc
    by (simp add: accepted_ok_def st5_def st4_def n_def verdict_ok_def emit_def)
  moreover have "cs_phase st5 = PhAccepted" by (simp add: st5_def st4_def)
  ultimately show ?thesis using st1(2) st2(2) st3(2) by (elim disjE conjE) simp_all
qed

end

section \<open>The entry points\<close>

context tx_set
begin

lemma phase_step_inv:
  fixes st :: "('tx, 'txid, 'n, 'lid, 'sid, 'ts, 'l) consensus"
  assumes inv: "round_inv S K wfs wft st" and A: "adaptor_ok S wfs A" and acc: "cs_phase st = PhAccepted \<longrightarrow> accepted_ok A st"
  defines "st' \<equiv> (case cs_phase st of PhOpen \<Rightarrow> phaseOpen A S K st | PhEstablish \<Rightarrow> phaseEstablish A S K st | PhAccepted \<Rightarrow> st)"
  shows "round_inv S K wfs wft st' \<and> stays_out st st' \<and> (cs_phase st' = PhAccepted \<longrightarrow> accepted_ok A st')"
proof (cases "cs_phase st")
  case PhOpen
  then show ?thesis using phaseOpen_inv [OF inv A] by (auto simp: st'_def stays_out_def)
next
  case PhEstablish
  then show ?thesis using phaseEstablish_inv [OF inv PhEstablish, of A] by (simp add: st'_def)
next
  case PhAccepted
  then show ?thesis using inv acc by (simp add: st'_def stays_out_def)
qed

lemma timerEntry_inv:
  fixes st :: "('tx, 'txid, 'n, 'lid, 'sid, 'ts, 'l) consensus"
  assumes A: "adaptor_ok S wfs A" "acquire_ok K A"
  shows "round_inv S K wfs wft st \<Longrightarrow> timerEntry A S K fuel now st = Some st' \<Longrightarrow>
    round_inv S K wfs wft st' \<and> stays_out st st' \<and>
    (cs_phase st \<noteq> PhAccepted \<longrightarrow> cs_phase st' = PhAccepted \<longrightarrow> accepted_ok A st')"
proof (induction fuel arbitrary: now st st')
  case (Suc fuel)
  let ?st0 = "st\<lparr>cs_now := now\<rparr>"
  show ?case
  proof (cases "cs_phase st = PhAccepted")
    case True
    then show ?thesis using Suc.prems by (simp add: stays_out_def)
  next
    case False
    have inv0: "round_inv S K wfs wft ?st0"
      using Suc.prems(1) by (simp add: round_inv_def cx_inv_def cx_inv_pend_def ledger_inv_def)
    obtain st1 where st1: "checkLedger A S K (timerEntry A S K fuel) ?st0 = Some st1"
      and st': "st' = (case cs_phase st1 of PhOpen \<Rightarrow> phaseOpen A S K st1 | PhEstablish \<Rightarrow> phaseEstablish A S K st1 | PhAccepted \<Rightarrow> st1)"
      using Suc.prems(2) False by (auto split: bind_splits)
    from inv0 A have "round_inv S K wfs wft st1 \<and> stays_out st st1 \<and> (cs_phase st1 = PhAccepted \<longrightarrow> accepted_ok A st1)"
    proof (cases rule: checkLedger_cases [where timer = "timerEntry A S K fuel"])
      case (stay st2)
      then show ?thesis using st1 False by (simp add: stays_out_def)
    next
      case (restart lid l st3)
      then show ?thesis using st1 Suc.IH [OF restart(4), of "cs_now st3" st1] by (auto simp: stays_out_def)
    qed
    then show ?thesis using phase_step_inv [of K st1 A, folded st'] A by (auto simp: stays_out_def)
  qed
qed simp

lemma startRound_inv:
  fixes st :: "('tx, 'txid, 'n, 'lid, 'sid, 'ts, 'l) consensus"
  assumes inv: "cx_inv S wfs wft st" and A: "adaptor_ok S wfs A" "acquire_ok K A"
    and st': "startRound A S K fuel now lid l untrusted proposing st = Some st'"
  shows "round_inv S K wfs wft st' \<and> (cs_mode st' = Proposing \<longrightarrow> proposing)"
proof -
  define st2 where "st2 = (let st1 = (if cs_firstRound st
                 then st\<lparr>cs_prevRoundTime := ledgerIdleInterval (ad_parms A),
                         cs_prevCloseTime := le_closeTime K l, cs_firstRound := False\<rparr>
                 else st\<lparr>cs_prevCloseTime := ct_self (cs_rawCloseTimes st)\<rparr>)
          in st1\<lparr>cs_recentPeerPositions := fold (\<lambda>n m. hm_erase m n) untrusted (cs_recentPeerPositions st1)\<rparr>)"
  have rec: "recent_inv (cs_recentPeerPositions st2)"
    using inv recent_inv_erase_fold by (auto simp: st2_def Let_def cx_inv_def cx_inv_pend_def)
  obtain l' mode where lm: "(l', mode) = (if le_id K l \<noteq> lid
             then (case ad_acquireLedger A lid of
                     Some newLedger \<Rightarrow> (newLedger, if proposing then Proposing else Observing)
                   | None \<Rightarrow> (l, WrongLedger))
             else (l, if proposing then Proposing else Observing))" by (metis surj_pair)
  then have mode: "mode = WrongLedger \<or> le_id K l' = lid" "mode = Proposing \<longrightarrow> proposing"
    using A(2) by (auto simp: acquire_ok_def split: if_splits option.splits)
  have eq: "startRoundInternal A S K (timerEntry A S K fuel) now lid l' mode st2 = Some st'"
    using st' unfolding startRound_def Let_def lm [symmetric] st2_def by simp
  from rec A(1) mode(1) obtain st3 where st3: "round_inv S K wfs wft st3" "cs_mode st3 = mode"
    "Some st' \<in> {Some st3, timerEntry A S K fuel (cs_now st3) st3}"
    by (rule startRoundInternal_cases [where timer = "timerEntry A S K fuel" and now = now]) (simp add: eq)
  then show ?thesis using mode(2) timerEntry_inv [OF A st3(1), of fuel "cs_now st3" st'] by (auto simp: stays_out_def)
qed

lemma simulate_inv:
  fixes st :: "('tx, 'txid, 'n, 'lid, 'sid, 'ts, 'l) consensus" and now :: nettime and delay :: "msecs option"
  assumes inv: "cx_inv S wfs wft st" and A: "adaptor_ok S wfs A"
  defines "st' \<equiv> simulate A S now delay st"
  shows "round_inv S K wfs wft st' \<and> cs_mode st' = cs_mode st \<and> cs_phase st' = PhAccepted"
proof -
  have inv0: "cx_inv_pend S wfs wft {} {} (st\<lparr>cs_now := now\<rparr>)" using inv by (simp add: cx_inv_def cx_inv_pend_def)
  define st1 where "st1 = closeLedger A S (st\<lparr>cs_now := now\<rparr>)"
  note c = closeLedger_inv [OF inv0 A, folded st1_def]
  then obtain r where "cs_result st1 = Some r" by auto
  then show ?thesis
    using c by (auto simp: st'_def simulate_def st1_def [symmetric] Let_def round_inv_def ledger_inv_def cx_inv_def
        cx_inv_pend_def phase_inv_def)
qed

end

lemma Consensus_new_inv: "round_inv S K wfs wft (Consensus_new lid l)"
  by (simp add: round_inv_def cx_inv_def cx_inv_pend_def phase_inv_def ledger_inv_def Consensus_new_def
      acquired_inv_def peers_inv_def recent_inv_def hm_simps close_map_wf_def)

end
