(* ===== verification/RCLCxTx.thy ===== *)
theory RCLCxTx
  imports SHAMapDelta_Correct ConsensusRounds
begin

text \<open>
  The transaction set of the ledger consensus, \<^verbatim>\<open>RCLCxTx.h\<close>: a thin wrapper over a SHAMap of
  transactions without metadata. It meets the contract that the consensus engine relies on for every
  universe of transactions on which the digest does not collide.
\<close>

section \<open>The wrapper\<close>

type_synonym cx_tx = shamap_item

type_synonym cx_set = tree

definition cx_tx_id :: "cx_tx \<Rightarrow> uint256" where
  "cx_tx_id t = si_key t"

text \<open>An exception of the map leaves the set as it was.\<close>

definition cx_insert :: "cx_tx \<Rightarrow> cx_set \<Rightarrow> cx_set \<times> bool" where
  "cx_insert t m = (case addItem TnTransactionNm t m of None \<Rightarrow> (m, False) | Some (m', inserted) \<Rightarrow> (m', inserted))"

definition cx_erase :: "uint256 \<Rightarrow> cx_set \<Rightarrow> cx_set \<times> bool" where
  "cx_erase entry m = (case delItem entry m of None \<Rightarrow> (m, False) | Some (m', erased) \<Rightarrow> (m', erased))"

definition cx_exists :: "cx_set \<Rightarrow> uint256 \<Rightarrow> bool" where
  "cx_exists m entry \<longleftrightarrow> hasItem m entry = Some True"

definition cx_find :: "cx_set \<Rightarrow> uint256 \<Rightarrow> cx_tx option" where
  "cx_find m entry = (case peekItem m entry of Some (Some t) \<Rightarrow> Some t | _ \<Rightarrow> None)"

definition cx_id :: "digest \<Rightarrow> cx_set \<Rightarrow> uint256" where
  "cx_id sha m = getHash sha m"

definition cx_compare :: "digest \<Rightarrow> cx_set \<Rightarrow> cx_set \<Rightarrow> (uint256 \<times> bool) list" where
  "cx_compare sha m j = map (\<lambda>(k, v). (k, fst v \<noteq> None)) (snd (compare sha m j [] 65536))"

definition RCLTxSet :: "digest \<Rightarrow> (cx_tx, uint256, uint256, cx_set) txset_ops" where
  "RCLTxSet sha =
     \<lparr>ts_id = cx_id sha, ts_exists = cx_exists, ts_find = cx_find, ts_compare = cx_compare sha,
      ts_insert = (\<lambda>t m. fst (cx_insert t m)), ts_erase = (\<lambda>entry m. fst (cx_erase entry m)), tx_id = cx_tx_id\<rparr>"

section \<open>Keys of any length\<close>

lemma walk_loop_top:
  "walk_loop k n t st = Some (r, (SLeaf t' i, n') # st') \<Longrightarrow> i \<in> set (tree_items t)"
proof (induction t arbitrary: n st)
  case (SInner cs)
  show ?case
  proof (cases "child cs (selectBranch n k)")
    case None
    then show ?thesis using SInner.prems
      by (auto simp: Let_def pushNode_def pushRoot_def pushChild_def split: bind_splits if_splits list.splits prod.splits option.splits)
  next
    case (Some c)
    then obtain n1 s where "walk_loop k n1 c s = Some (r, (SLeaf t' i, n') # st')"
      using SInner.prems by (auto simp: Let_def split: bind_splits)
    from SInner.IH [OF child_mem [OF Some] _ this] Some show ?thesis by (auto simp: item_in_Inner)
  qed
next
  case (SLeaf s j)
  then show ?case
    by (auto simp: pushNode_def pushRoot_def pushChild_def split: bind_splits if_splits list.splits prod.splits option.splits)
qed

lemma delItem_other:
  assumes inv: "shamap_inv ty m" and k: "k \<notin> tree_keys m"
  shows "delItem k m = None \<or> delItem k m = Some (m, False)"
proof -
  have "si_key i \<noteq> k" if "i \<in> set (tree_items m)" for i using k that by (auto simp: tree_keys_def)
  then show ?thesis using walk_loop_top [of k node_id_root m "[]"]
    by (auto simp: delItem_def walkTowardsKey_def split: option.splits prod.splits list.splits tree.splits)
qed

section \<open>The wrapper on well-formed maps\<close>

lemma cx_find_iff: "shamap_inv ty m \<Longrightarrow> cx_find m x = Some t \<longleftrightarrow> t \<in> set (tree_items m) \<and> si_key t = x"
  using shamap_abs_iff by (simp add: cx_find_def shamap_abs_def)

lemma cx_exists_iff:
  assumes "shamap_inv ty m"
  shows "cx_exists m x \<longleftrightarrow> x \<in> tree_keys m"
proof -
  have "cx_exists m x \<longleftrightarrow> cx_find m x \<noteq> None"
  proof -
    have "peekItem m x = Some None" if "findKey m x = Some (Some (SInner cs))" for cs
      using that by (simp add: peekItem_def)
    moreover have "findKey m x \<noteq> Some (Some (SInner cs))" for cs
      by (auto simp: findKey_def leaf_key_def split: bind_splits option.splits if_splits)
    ultimately show ?thesis
      by (auto simp: cx_exists_def cx_find_def hasItem_def peekItem_def split: option.splits tree.splits)
  qed
  then show ?thesis using cx_find_iff [OF assms] by (auto simp: tree_keys_def)
qed

lemma cx_insert_spec:
  assumes "shamap_inv TnTransactionNm m" "uint256_ok (si_key t)"
  shows "shamap_inv TnTransactionNm (fst (cx_insert t m)) \<and> set (tree_items (fst (cx_insert t m))) \<subseteq> insert t (set (tree_items m)) \<and>
    tree_keys (fst (cx_insert t m)) = insert (si_key t) (tree_keys m)"
proof -
  obtain m' where m': "addGiveItem TnTransactionNm t m = Some (m', si_key t \<notin> tree_keys m)" "shamap_inv TnTransactionNm m'"
    "set (tree_items m') = (if si_key t \<in> tree_keys m then set (tree_items m) else insert t (set (tree_items m)))"
    using addGiveItem_spec [OF assms] by blast
  then have "fst (cx_insert t m) = m'" by (simp add: cx_insert_def addItem_def)
  moreover have "tree_keys m' = insert (si_key t) (tree_keys m)" using m'(3) by (simp add: tree_keys_def insert_absorb split: if_splits)
  ultimately show ?thesis using m' by (simp split: if_splits) blast
qed

lemma cx_erase_spec:
  assumes "shamap_inv TnTransactionNm m"
  shows "shamap_inv TnTransactionNm (fst (cx_erase x m)) \<and> set (tree_items (fst (cx_erase x m))) \<subseteq> set (tree_items m) \<and>
    tree_keys (fst (cx_erase x m)) = tree_keys m - {x}"
proof (cases "uint256_ok x")
  case True
  obtain m' where m': "delItem x m = Some (m', x \<in> tree_keys m)" "shamap_inv TnTransactionNm m'"
    "set (tree_items m') = {i \<in> set (tree_items m). si_key i \<noteq> x}" using delItem_spec [OF assms True] by blast
  then have "fst (cx_erase x m) = m'" by (simp add: cx_erase_def)
  moreover have "tree_keys m' = tree_keys m - {x}" using m'(3) by (auto simp: tree_keys_def)
  ultimately show ?thesis using m' by simp
next
  case False
  have "x \<notin> tree_keys m" using tree_wf_item [of TnTransactionNm "[]" m] assms False by (auto simp: tree_keys_def shamap_inv_def)
  then show ?thesis using delItem_other [OF assms, of x] assms by (auto simp: cx_erase_def)
qed

section \<open>The contract of the engine\<close>

text \<open>
  A universe of transactions and a digest that does not collide on the nodes of the sets over it; no
  two sets have more differences than \<^verbatim>\<open>RCLTxSet::compare\<close> reports.
\<close>

locale tx_universe =
  fixes sha :: digest and U :: "cx_tx set"
  assumes sha_ok: "uint256_ok (sha x)"
    and U_ok: "t \<in> U \<Longrightarrow> flat_ok sha (FLeaf TnTransactionNm t)"
    and U_keys: "inj_on si_key U"
    and U_size: "finite U" "card U \<le> 65536"
    and U_separated: "shamap_inv TnTransactionNm m \<Longrightarrow> set (tree_items m) \<subseteq> U \<Longrightarrow>
      shamap_inv TnTransactionNm m' \<Longrightarrow> set (tree_items m') \<subseteq> U \<Longrightarrow> separated sha m m'"

definition cx_wf :: "cx_tx set \<Rightarrow> cx_set \<Rightarrow> bool" where
  "cx_wf U m \<longleftrightarrow> shamap_inv TnTransactionNm m \<and> set (tree_items m) \<subseteq> U"

context tx_universe
begin

lemma U_key_ok: "t \<in> U \<Longrightarrow> uint256_ok (si_key t)"
  using U_ok [of t] unfolding flat_ok.simps by blast

lemma wf_items_ok: "cx_wf U m \<Longrightarrow> items_ok sha TnTransactionNm m"
  using U_ok by (auto simp: cx_wf_def items_ok_def list_all_iff)

lemma same_key: "cx_wf U m \<Longrightarrow> cx_wf U m' \<Longrightarrow> i \<in> set (tree_items m) \<Longrightarrow> j \<in> set (tree_items m') \<Longrightarrow> si_key i = si_key j \<Longrightarrow> i = j"
  using U_keys by (auto simp: cx_wf_def inj_on_def)

lemma keys_items:
  assumes "cx_wf U m" "cx_wf U m'" "tree_keys m \<subseteq> tree_keys m'"
  shows "set (tree_items m) \<subseteq> set (tree_items m')"
proof
  fix i assume i: "i \<in> set (tree_items m)"
  then obtain j where "j \<in> set (tree_items m')" "si_key i = si_key j" using assms(3) by (auto simp: tree_keys_def)
  then show "i \<in> set (tree_items m')" using same_key [OF assms(1,2) i] by blast
qed

lemma cx_diffs:
  assumes "cx_wf U m" "cx_wf U m'"
  shows "diffs_of (set (tree_items m)) (set (tree_items m')) =
    unmatched True ` (set (tree_items m) - set (tree_items m')) \<union> unmatched False ` (set (tree_items m') - set (tree_items m))"
proof -
  let ?A = "set (tree_items m)" and ?B = "set (tree_items m')"
  have "{i \<in> ?A. si_key i \<notin> si_key ` ?B} = ?A - ?B" "{j \<in> ?B. si_key j \<notin> si_key ` ?A} = ?B - ?A"
    using same_key [OF assms] by (auto simp: image_iff) metis+
  moreover have "{(i, j) \<in> ?A \<times> ?B. si_key i = si_key j \<and> i \<noteq> j} = {}" using same_key [OF assms] by blast
  ultimately show ?thesis unfolding diffs_of_entries by (simp only: image_empty Un_empty_right)
qed

lemma cx_compare_set:
  assumes "cx_wf U m" "cx_wf U m'"
  shows "set (snd (compare sha m m' [] 65536)) = diffs_of (set (tree_items m)) (set (tree_items m'))"
proof -
  let ?D = "diffs_of (set (tree_items m)) (set (tree_items m'))"
  obtain c d where cd: "compare sha m m' [] 65536 = (c, d)" by fastforce
  have w: "shamap_inv TnTransactionNm m" "items_ok sha TnTransactionNm m" "shamap_inv TnTransactionNm m'" "items_ok sha TnTransactionNm m'"
    "separated sha m m'" using assms wf_items_ok U_separated by (auto simp: cx_wf_def)
  note r = compare_spec [OF sha_ok w _ cd]
  have "card ?D \<le> card U"
  proof -
    let ?X = "set (tree_items m) - set (tree_items m')" and ?Y = "set (tree_items m') - set (tree_items m)"
    have "card ?D \<le> card (unmatched True ` ?X) + card (unmatched False ` ?Y)" unfolding cx_diffs [OF assms] by (rule card_Un_le)
    also have "\<dots> \<le> card ?X + card ?Y" by (intro add_mono card_image_le) simp_all
    also have "\<dots> = card (?X \<union> ?Y)" by (subst card_Un_disjoint) auto
    also have "\<dots> \<le> card U" using assms by (intro card_mono [OF U_size(1)]) (auto simp: cx_wf_def)
    finally show ?thesis .
  qed
  then have "length d = card ?D" "distinct d" "set d \<subseteq> ?D" using r U_size by (simp_all add: min_def distinct_map)
  moreover have "finite ?D" by (rule finite_diffs) simp_all
  ultimately show ?thesis using cd card_subset_eq [of ?D "set d"] by (simp add: distinct_card)
qed

end

sublocale tx_universe \<subseteq> tx_set "RCLTxSet sha" "cx_wf U" "\<lambda>t. t \<in> U"
proof
  fix s x t b y and s' :: cx_set
  assume s: "cx_wf U s"
  then have inv: "shamap_inv TnTransactionNm s" and U: "set (tree_items s) \<subseteq> U" by (simp_all add: cx_wf_def)
  note ex = cx_exists_iff [OF inv]
  show "ts_find (RCLTxSet sha) s x = Some t \<Longrightarrow> tx_id (RCLTxSet sha) t = x \<and> t \<in> U"
    using cx_find_iff [OF inv] U by (auto simp: RCLTxSet_def cx_tx_id_def)
  show "ts_exists (RCLTxSet sha) s x \<longleftrightarrow> ts_find (RCLTxSet sha) s x \<noteq> None"
    using cx_find_iff [OF inv] by (auto simp: RCLTxSet_def ex tree_keys_def)
  show "cx_wf U (ts_erase (RCLTxSet sha) y s)"
    using cx_erase_spec [OF inv, of y] U by (auto simp: RCLTxSet_def cx_wf_def)
  show "ts_exists (RCLTxSet sha) (ts_erase (RCLTxSet sha) y s) x \<longleftrightarrow> x \<noteq> y \<and> ts_exists (RCLTxSet sha) s x"
    using cx_erase_spec [OF inv, of y] by (auto simp: RCLTxSet_def ex cx_exists_iff)
  show "cx_wf U (ts_insert (RCLTxSet sha) t s)" if "t \<in> U"
    using cx_insert_spec [OF inv U_key_ok [OF that]] U that by (simp add: RCLTxSet_def cx_wf_def) blast
  show "ts_exists (RCLTxSet sha) (ts_insert (RCLTxSet sha) t s) x \<longleftrightarrow> x = tx_id (RCLTxSet sha) t \<or> ts_exists (RCLTxSet sha) s x" if "t \<in> U"
    using cx_insert_spec [OF inv U_key_ok [OF that]] by (auto simp: RCLTxSet_def ex cx_exists_iff cx_tx_id_def)
  assume s': "cx_wf U s'"
  then have inv': "shamap_inv TnTransactionNm s'" by (simp add: cx_wf_def)
  show "ts_exists (RCLTxSet sha) s x = ts_exists (RCLTxSet sha) s' x" if "ts_id (RCLTxSet sha) s = ts_id (RCLTxSet sha) s'"
  proof -
    have "separated sha s s'" using U_separated s s' by (simp add: cx_wf_def)
    then have "set (tree_items s) = set (tree_items s')"
      using root_hash_commits_lemma [OF sha_ok inv wf_items_ok [OF s] inv' wf_items_ok [OF s']] that
      by (simp add: separated_def RCLTxSet_def cx_id_def)
    then show ?thesis by (simp add: RCLTxSet_def ex cx_exists_iff [OF inv'] tree_keys_def)
  qed
  show "(x, b) \<in> set (ts_compare (RCLTxSet sha) s s') \<longleftrightarrow> ts_exists (RCLTxSet sha) s x = b \<and> ts_exists (RCLTxSet sha) s' x = (\<not> b)"
  proof -
    have "(x, b) \<in> set (ts_compare (RCLTxSet sha) s s') \<longleftrightarrow>
      (if b then x \<in> si_key ` (set (tree_items s) - set (tree_items s')) else x \<in> si_key ` (set (tree_items s') - set (tree_items s)))"
      unfolding RCLTxSet_def cx_compare_def by (auto simp: cx_compare_set [OF s s'] cx_diffs [OF s s'] unmatched_def image_Un image_image)
    moreover have "si_key ` (set (tree_items s) - set (tree_items s')) = tree_keys s - tree_keys s'"
      "si_key ` (set (tree_items s') - set (tree_items s)) = tree_keys s' - tree_keys s"
      using same_key [OF s s'] by (auto simp: tree_keys_def) metis+
    ultimately show ?thesis by (auto simp: RCLTxSet_def ex cx_exists_iff [OF inv'])
  qed
qed

context tx_universe
begin

lemma contract: "tx_set (RCLTxSet sha) (cx_wf U) (\<lambda>t. t \<in> U)"
  by unfold_locales

end

section \<open>A universe of two transactions\<close>

definition ex_tx :: "byte \<Rightarrow> cx_tx" where
  "ex_tx b = \<lparr>si_key = replicate 32 (0x4E + 2 * b), si_data = replicate 41 b\<rparr>"

definition ex_txs :: "cx_tx list" where
  "ex_txs = [ex_tx 0x5A, ex_tx 0x62]"

definition ex_set :: "cx_tx list \<Rightarrow> cx_set" where
  "ex_set ts = fold (\<lambda>t m. fst (cx_insert t m)) ts SHAMap_new"

definition ex_sets :: "cx_set list" where
  "ex_sets = map ex_set (subseqs ex_txs)"

lemma ex_sets_facts:
  "list_all (shamap_inv TnTransactionNm) ex_sets"
  "list_all (\<lambda>m. list_all (\<lambda>m'. separated ex_sha m m') ex_sets) ex_sets"
  "list_all (\<lambda>t. flat_ok ex_sha (FLeaf TnTransactionNm t)) ex_txs"
  "map (set \<circ> tree_items) ex_sets = map set (subseqs ex_txs)"
  "distinct (map si_key ex_txs)"
  by code_simp+

interpretation ex: tx_universe ex_sha "set ex_txs"
proof
  show "uint256_ok (ex_sha x)" for x by (simp add: ex_sha_def)
  show "flat_ok ex_sha (FLeaf TnTransactionNm t)" if "t \<in> set ex_txs" for t using ex_sets_facts(3) that unfolding list_all_iff by blast
  show "inj_on si_key (set ex_txs)" "finite (set ex_txs)" using ex_sets_facts(5) by (simp_all add: distinct_map)
  show "card (set ex_txs) \<le> 65536" using card_length [of ex_txs] by (simp add: ex_txs_def)
  have mem: "m \<in> set ex_sets" if "shamap_inv TnTransactionNm m" "set (tree_items m) \<subseteq> set ex_txs" for m
  proof -
    have "set (tree_items m) \<in> set (map set (subseqs ex_txs))" using that(2) by (simp add: subseqs_powset)
    then have "set (tree_items m) \<in> set (map (set \<circ> tree_items) ex_sets)" by (simp only: ex_sets_facts(4))
    then obtain m' where m': "m' \<in> set ex_sets" "set (tree_items m) = set (tree_items m')" by auto
    then show ?thesis using shamap_canonical [OF that(1) _ m'(2)] ex_sets_facts(1) by (simp add: list_all_iff)
  qed
  show "separated ex_sha m m'" if "shamap_inv TnTransactionNm m" "set (tree_items m) \<subseteq> set ex_txs"
    "shamap_inv TnTransactionNm m'" "set (tree_items m') \<subseteq> set ex_txs" for m m'
    using mem [OF that(1,2)] mem [OF that(3,4)] ex_sets_facts(2) by (simp add: list_all_iff)
qed

text \<open>
  C28: \<^verbatim>\<open>RCLTxSet\<close> is a set of transactions identified by its hash. Over a universe of transactions on
  which the digest does not collide, inserting and erasing change the membership of one transaction,
  \<^verbatim>\<open>find\<close> returns the transaction with the given identifier exactly when \<^verbatim>\<open>exists\<close> holds,
  \<^verbatim>\<open>compare\<close> lists exactly the transactions that are in one of the two sets, with the side they are
  on, and two sets have the same identifier exactly when they have the same transactions.
\<close>

theorem RCLTxSet_is_set:
  assumes U: "tx_universe sha U" and m: "cx_wf U m" and m': "cx_wf U m'" and t: "t \<in> U"
  shows "(\<forall>x. cx_exists (fst (cx_insert t m)) x \<longleftrightarrow> x = cx_tx_id t \<or> cx_exists m x) \<and>
    (\<forall>x y. cx_exists (fst (cx_erase y m)) x \<longleftrightarrow> x \<noteq> y \<and> cx_exists m x) \<and>
    (\<forall>x. cx_exists m x \<longleftrightarrow> (\<exists>t. cx_find m x = Some t \<and> cx_tx_id t = x \<and> t \<in> U)) \<and>
    (\<forall>x b. (x, b) \<in> set (cx_compare sha m m') \<longleftrightarrow> cx_exists m x = b \<and> cx_exists m' x = (\<not> b)) \<and>
    (cx_id sha m = cx_id sha m' \<longleftrightarrow> (\<forall>x. cx_exists m x = cx_exists m' x))"
proof (intro conjI allI)
  have S: "tx_set (RCLTxSet sha) (cx_wf U) (\<lambda>t. t \<in> U)" by (rule tx_universe.contract [OF U])
  note defs = RCLTxSet_def [of sha]
  show "cx_exists (fst (cx_insert t m)) x \<longleftrightarrow> x = cx_tx_id t \<or> cx_exists m x" for x
    using tx_set.insert_exists [OF S m t] by (simp add: defs)
  show "cx_exists (fst (cx_erase y m)) x \<longleftrightarrow> x \<noteq> y \<and> cx_exists m x" for x y
    using tx_set.erase_exists [OF S m] by (simp add: defs)
  show "cx_exists m x \<longleftrightarrow> (\<exists>t. cx_find m x = Some t \<and> cx_tx_id t = x \<and> t \<in> U)" for x
    using tx_set.find_exists [OF S m, of x] tx_set.find_wft [OF S m, of x] by (auto simp: defs)
  show "(x, b) \<in> set (cx_compare sha m m') \<longleftrightarrow> cx_exists m x = b \<and> cx_exists m' x = (\<not> b)" for x b
    using tx_set.compare_mem [OF S m m'] by (simp add: defs)
  show "cx_id sha m = cx_id sha m' \<longleftrightarrow> (\<forall>x. cx_exists m x = cx_exists m' x)"
  proof
    assume "\<forall>x. cx_exists m x = cx_exists m' x"
    then have k: "tree_keys m = tree_keys m'" using m m' cx_exists_iff by (auto simp: cx_wf_def)
    have "set (tree_items m) = set (tree_items m')"
      using tx_universe.keys_items [OF U m m'] tx_universe.keys_items [OF U m' m] k by simp
    then show "cx_id sha m = cx_id sha m'" using shamap_canonical m m' by (metis cx_wf_def)
  qed (use tx_set.id_content [OF S m m'] in \<open>simp add: defs\<close>)
qed

theorem RCLTxSet_is_set_witness:
  "cx_id ex_sha (ex_set [ex_tx 0x5A]) \<noteq> cx_id ex_sha (ex_set ex_txs) \<and>
   (cx_tx_id (ex_tx 0x62), False) \<in> set (cx_compare ex_sha (ex_set [ex_tx 0x5A]) (ex_set ex_txs))"
proof -
  have w: "cx_wf (set ex_txs) (ex_set [ex_tx 0x5A])" "cx_wf (set ex_txs) (ex_set ex_txs)" by code_simp+
  have x: "\<not> cx_exists (ex_set [ex_tx 0x5A]) (cx_tx_id (ex_tx 0x62))" "cx_exists (ex_set ex_txs) (cx_tx_id (ex_tx 0x62))" by code_simp+
  have "ex_tx 0x62 \<in> set ex_txs" by (simp add: ex_txs_def)
  from RCLTxSet_is_set [OF ex.tx_universe_axioms w this] x show ?thesis by blast
qed

end
