(* ===== verification/ConsensusReach.thy ===== *)
theory ConsensusReach
  imports ConsensusRounds
begin

text \<open>
  The consensus engine over any sequence of calls: the step relation and the reachable states, that
  they keep the invariant of the rounds, that the timer returns, and how a close time is chosen.
\<close>

section \<open>Reachable states\<close>

text \<open>
  A call of the engine. Every call has an adaptor of its own, since its answers change over time; a
  timer call may be stopped by its fuel, and then it is no step.
\<close>

inductive round_step ::
  "('tx, 'txid, 'sid, 'ts) txset_ops \<Rightarrow> ('l, 'lid) cx_ledger_ops \<Rightarrow> ('ts \<Rightarrow> bool) \<Rightarrow>
   ('tx, 'txid, 'n, 'lid, 'sid, 'ts, 'l) consensus \<Rightarrow> ('tx, 'txid, 'n, 'lid, 'sid, 'ts, 'l) consensus \<Rightarrow> bool"
  for S K wfs where
  timer: "adaptor_ok S wfs A \<Longrightarrow> acquire_ok K A \<Longrightarrow> timerEntry A S K fuel now st = Some st' \<Longrightarrow> round_step S K wfs st st'"
| proposal: "adaptor_ok S wfs A \<Longrightarrow> peerProposal A S now p st = (st', relayed) \<Longrightarrow> round_step S K wfs st st'"
| txset: "wfs s \<Longrightarrow> gotTxSet S now s st = st' \<Longrightarrow> round_step S K wfs st st'"
| simulated: "adaptor_ok S wfs A \<Longrightarrow> simulate A S now delay st = st' \<Longrightarrow> round_step S K wfs st st'"

inductive reachable ::
  "('tx, 'txid, 'sid, 'ts) txset_ops \<Rightarrow> ('l, 'lid) cx_ledger_ops \<Rightarrow> ('ts \<Rightarrow> bool) \<Rightarrow>
   ('tx, 'txid, 'n, 'lid, 'sid, 'ts, 'l) consensus \<Rightarrow> bool"
  for S K wfs where
  new: "reachable S K wfs (Consensus_new lid l)"
| start: "reachable S K wfs st \<Longrightarrow> adaptor_ok S wfs A \<Longrightarrow> acquire_ok K A \<Longrightarrow>
    startRound A S K fuel now lid l untrusted proposing st = Some st' \<Longrightarrow> reachable S K wfs st'"
| step: "reachable S K wfs st \<Longrightarrow> round_step S K wfs st st' \<Longrightarrow> reachable S K wfs st'"

inductive_cases round_stepE: "round_step S K wfs st st'"

context tx_set
begin

lemma round_step_inv:
  assumes "round_step S K wfs st st'" "round_inv S K wfs wft st"
  shows "round_inv S K wfs wft st' \<and> stays_out st st'"
  using assms(1)
proof (cases rule: round_step.cases)
  case (timer A fuel now)
  then show ?thesis using timerEntry_inv [OF timer(1,2) assms(2)] by blast
next
  case (proposal A now p relayed)
  then show ?thesis using peerProposal_inv [of st A now p] assms(2) by (simp add: round_inv_def ledger_inv_def stays_out_def)
next
  case (txset s now)
  then show ?thesis using gotTxSet_inv [of st s now] assms(2) by (simp add: round_inv_def ledger_inv_def stays_out_def)
next
  case (simulated A now delay)
  then show ?thesis using simulate_inv [where K = K and st = st and A = A and now = now and delay = delay] assms(2) by (simp add: round_inv_def stays_out_def)
qed

lemma reachable_inv: "reachable S K wfs st \<Longrightarrow> round_inv S K wfs wft st"
proof (induction rule: reachable.induct)
  case (start st A fuel now lid l untrusted proposing st')
  then show ?case using startRound_inv [OF _ start(2-4)] by (simp add: round_inv_def)
qed (use round_step_inv Consensus_new_inv in auto)

text \<open>Steps without a new round.\<close>

lemma round_steps_inv:
  assumes "(round_step S K wfs)\<^sup>*\<^sup>* st st'" "round_inv S K wfs wft st"
  shows "round_inv S K wfs wft st' \<and> stays_out st st'"
  using assms by (induction rule: rtranclp_induct) (auto simp: stays_out_def dest: round_step_inv)

text \<open>
  The timer returns when the ledger the network prefers has a rank that decreases with every ledger
  acquired on the way: each restart of the round then costs one unit of fuel.
\<close>

lemma timerEntry_returns_lemma:
  assumes A: "adaptor_ok S wfs A" "acquire_ok K A"
    and rank: "\<And>i l. ad_acquireLedger A i = Some l \<Longrightarrow> ad_getPrevLedger A i l SwitchedLedger \<noteq> i \<Longrightarrow>
      rank (ad_getPrevLedger A i l SwitchedLedger) < (rank i :: nat)"
  shows "round_inv S K wfs wft st \<Longrightarrow> 1 \<le> fuel \<Longrightarrow>
    (let i = ad_getPrevLedger A (cs_prevLedgerID st) (cs_previousLedger st) (cs_mode st)
     in i \<noteq> cs_prevLedgerID st \<or> le_id K (cs_previousLedger st) \<noteq> cs_prevLedgerID st \<longrightarrow> rank i + 2 \<le> fuel) \<Longrightarrow>
    timerEntry A S K fuel now st \<noteq> None"
proof (induction fuel arbitrary: now st)
  case (Suc fuel)
  let ?st0 = "st\<lparr>cs_now := now\<rparr>"
  have inv0: "round_inv S K wfs wft ?st0"
    using Suc.prems(1) by (simp add: round_inv_def cx_inv_def cx_inv_pend_def ledger_inv_def)
  from inv0 A have "checkLedger A S K (timerEntry A S K fuel) ?st0 \<noteq> None"
  proof (cases rule: checkLedger_cases [where timer = "timerEntry A S K fuel"])
    case (restart i l st3)
    then have f: "rank i + 2 \<le> Suc fuel" using Suc.prems(3) by (auto simp: Let_def)
    have "le_id K l = i" using restart(3) A(2) by (simp add: acquire_ok_def)
    then have "timerEntry A S K fuel (cs_now st3) st3 \<noteq> None"
      using f rank [OF restart(3)] restart(5-8) by (intro Suc.IH [OF restart(4)]) (auto simp: Let_def)
    then show ?thesis using restart(9) by auto
  qed simp
  then show ?case by auto
qed simp

end

section \<open>Choosing the close time\<close>

lemma close_time_loop_none:
  "\<forall>(t, v) \<in> set vs. int v < tv \<Longrightarrow> close_time_loop tc vs (ct, tv, have) = (ct, tv, have)"
  by (induction vs) auto

lemma close_time_loop_some:
  "close_time_loop tc vs (ct, tv, have) = (ct', tv', have') \<Longrightarrow> (t, v) \<in> set vs \<Longrightarrow> tv \<le> int v \<Longrightarrow>
   (\<exists>w. (ct', w) \<in> set vs \<and> tv' = int w) \<and> tv \<le> tv' \<and> (\<forall>(t, w) \<in> set vs. int w \<le> tv') \<and> have' = (have \<or> tc \<le> tv')"
proof (induction vs arbitrary: ct tv "have" t v)
  case (Cons q vs)
  obtain u w where q: "q = (u, w)" by (cases q)
  show ?case
  proof (cases "tv \<le> int w")
    case True
    then have l: "close_time_loop tc vs (u, int w, have \<or> tc \<le> int w) = (ct', tv', have')" using Cons.prems(1) by (simp add: q)
    show ?thesis
    proof (cases "\<forall>(t, v) \<in> set vs. int v < int w")
      case all: True
      then have "ct' = u" "tv' = int w" "have' = (have \<or> tc \<le> int w)" using close_time_loop_none [OF all] l by auto
      then show ?thesis using True all by (auto simp: q)
    next
      case False
      then obtain t' v' where "(t', v') \<in> set vs" "int w \<le> int v'" by fastforce
      from Cons.IH [OF l this] True show ?thesis by (auto simp: q)
    qed
  next
    case False
    then have l: "close_time_loop tc vs (ct, tv, have) = (ct', tv', have')" using Cons.prems(1) by (simp add: q)
    have "(t, v) \<in> set vs" using Cons.prems(2,3) False by (auto simp: q)
    from Cons.IH [OF l this Cons.prems(3)] False show ?thesis by (auto simp: q)
  qed
qed simp

text \<open>The loop finds the largest count, and consensus when that count reaches both thresholds.\<close>

lemma close_time_loop_spec:
  assumes "close_time_loop tc vs (ct, tv, False) = (ct', tv', have)"
  shows "have \<longleftrightarrow> (\<exists>(t, v) \<in> set vs. tv \<le> int v \<and> tc \<le> int v)"
    and "(t, v) \<in> set vs \<Longrightarrow> tv \<le> int v \<Longrightarrow> \<exists>w. (ct', w) \<in> set vs \<and> (\<forall>(t, v) \<in> set vs. v \<le> w)"
proof -
  have "\<exists>w. (ct', w) \<in> set vs \<and> (\<forall>(t, v) \<in> set vs. v \<le> w) \<and> tv \<le> int w \<and> have = (tc \<le> int w)"
    if "(t, v) \<in> set vs" "tv \<le> int v" for t v
    using close_time_loop_some [OF assms that] by auto
  note some = this
  show "(t, v) \<in> set vs \<Longrightarrow> tv \<le> int v \<Longrightarrow> \<exists>w. (ct', w) \<in> set vs \<and> (\<forall>(t, v) \<in> set vs. v \<le> w)" using some by blast
  show "have \<longleftrightarrow> (\<exists>(t, v) \<in> set vs. tv \<le> int v \<and> tc \<le> int v)"
  proof (cases "\<exists>(t, v) \<in> set vs. tv \<le> int v")
    case True
    then obtain t v w where "(ct', w) \<in> set vs" "\<forall>(t, v) \<in> set vs. v \<le> w" "tv \<le> int w" "have = (tc \<le> int w)" using some by blast
    then show ?thesis by fastforce
  next
    case False
    then show ?thesis using close_time_loop_none [of vs tv tc ct False] assms by fastforce
  qed
qed

text \<open>The votes for a close time: one for every fresh peer position, and ours when we propose.\<close>

lemma stale_loop_votes:
  "stale_loop ct cutoff ps ds votes = (ps', ds', votes') \<Longrightarrow>
   ps' = filter (\<lambda>(n, p). \<not> isStale p cutoff) ps \<and>
   votes' = fold (\<lambda>(n, p). map_incr (ct (pr_closeTime p))) ps' votes"
  by (induction ct cutoff ps ds votes arbitrary: ps' ds' votes' rule: stale_loop.induct)
    (auto split: if_splits prod.splits)

lemma close_map_entry:
  assumes "close_map_wf m"
  shows "(t, w) \<in> set m \<longleftrightarrow> 0 < w \<and> weight_of m t = w"
proof -
  have "distinct (map fst m)" using assms by (simp add: close_map_wf_def strict_sorted_iff)
  then have "(t, w) \<in> set m \<longleftrightarrow> map_of m t = Some w" by simp
  moreover have "map_of m t = Some w \<Longrightarrow> 0 < w" using assms by (auto simp: close_map_wf_def dest: map_of_SomeD)
  ultimately show ?thesis by (auto simp: weight_of_def split: option.splits)
qed

lemma vote_fold_weight:
  "close_map_wf m \<Longrightarrow> close_map_wf (fold (\<lambda>(n, p). map_incr (f p)) ps m) \<and>
   weight_of (fold (\<lambda>(n, p). map_incr (f p)) ps m) t = weight_of m t + length (filter (\<lambda>(n, p). f p = t) ps)"
  by (induction ps arbitrary: m) (auto simp: map_incr_wf map_incr_weight close_map_wf_def [THEN iffD1, THEN conjunct1])

text \<open>The votes on disputes change neither the flag nor our position.\<close>

abbreviation cs_position :: "('tx, 'txid, 'n, 'lid, 'sid, 'ts, 'l) consensus \<Rightarrow> ('n, 'lid, 'sid) proposal option" where
  "cs_position st \<equiv> map_option cr_position (cs_result st)"

lemma create_dispute_position: "cs_position (create_dispute S oset d st) = cs_position st"
  by (auto simp: create_dispute_def Let_def split: option.splits prod.splits)

lemma createDisputes_position: "cs_position (createDisputes S oset st) = cs_position st"
proof -
  have "cs_position (fold (create_dispute S oset) ds st) = cs_position st" for ds st
    by (induction ds arbitrary: st) (simp_all add: create_dispute_position)
  note fold_position = this
  show ?thesis
    by (cases "cs_result st") (simp_all add: createDisputes_def Let_def fold_position del: map_option_eq_Some)
qed

lemma updateDisputes_position: "cs_position (updateDisputes S n oset st) = cs_position st"
  using createDisputes_position [of S oset st]
  by (auto simp: updateDisputes_def Let_def simp del: map_option_eq_Some split: option.splits prod.splits)

lemma change_position_frame:
  "cs_haveCloseTimeConsensus (change_position S s ct r st) = cs_haveCloseTimeConsensus st"
  "cs_position (change_position S s ct r st) = Some (changePosition (ts_id S s) ct (cs_now st) (cr_position r))"
proof -
  let ?f = "\<lambda>(nodeId, peerPos) t. if pr_position peerPos = ts_id S s then updateDisputes S nodeId s t else t"
  have f: "cs_haveCloseTimeConsensus (fold ?f ps t) = cs_haveCloseTimeConsensus t" "cs_position (fold ?f ps t) = cs_position t" for ps t
    by (induction ps arbitrary: t) (simp_all add: case_prod_unfold updateDisputes_position cx_coreD(11) [OF updateDisputes_core])
  show "cs_haveCloseTimeConsensus (change_position S s ct r st) = cs_haveCloseTimeConsensus st"
    "cs_position (change_position S s ct r st) = Some (changePosition (ts_id S s) ct (cs_now st) (cr_position r))"
    by (simp_all add: change_position_def Let_def case_prod_unfold f [unfolded case_prod_unfold] emit_def del: map_option_eq_Some)
qed

definition fresh_peers ::
  "('tx, 'txid, 'n, 'lid, 'sid, 'ts, 'l) adaptor \<Rightarrow> ('tx, 'txid, 'n, 'lid, 'sid, 'ts, 'l) consensus \<Rightarrow>
   ('n, ('n, 'lid, 'sid) proposal) hm" where
  "fresh_peers A st =
     filter (\<lambda>(n, p). \<not> isStale p (cs_now st - of_int (proposeFRESHNESS (ad_parms A)))) (cs_currPeerPositions st)"

definition close_votes ::
  "('tx, 'txid, 'n, 'lid, 'sid, 'ts, 'l) adaptor \<Rightarrow> ('tx, 'txid, 'n, 'lid, 'sid, 'ts, 'l) consensus \<Rightarrow>
   ('n, 'lid, 'sid) proposal \<Rightarrow> nettime \<Rightarrow> int" where
  "close_votes A st ours t =
     int (length (filter (\<lambda>(n, p). asCloseTime st (pr_closeTime p) = t) (fresh_peers A st))) +
     (if cs_mode st = Proposing \<and> asCloseTime st (pr_closeTime ours) = t then 1 else 0)"

definition close_threshold ::
  "('tx, 'txid, 'n, 'lid, 'sid, 'ts, 'l) adaptor \<Rightarrow> ('tx, 'txid, 'n, 'lid, 'sid, 'ts, 'l) consensus \<Rightarrow> int \<Rightarrow> int" where
  "close_threshold A st percent =
     participantsNeeded (int (length (fresh_peers A st)) + (if cs_mode st = Proposing then 1 else 0)) percent"

lemma participantsNeeded_pos: "0 \<le> n \<Longrightarrow> 0 \<le> p \<Longrightarrow> 1 \<le> participantsNeeded n p"
proof -
  assume "0 \<le> n" "0 \<le> p"
  then have "0 \<le> (n * p + p sdiv 2) sdiv 100" by (simp add: sdiv_nonneg pos_imp_zdiv_nonneg_iff)
  then show ?thesis by (simp add: participantsNeeded_def Let_def)
qed

text \<open>
  The close-time part of the update, over the votes as counted by \<open>close_votes\<close>.
\<close>

lemma close_time_consensus_spec:
  assumes peers: "fresh_peers A st \<noteq> []"
    and st1: "st1 = st\<lparr>cs_currPeerPositions := fresh_peers A st, cs_result := x, cs_haveCloseTimeConsensus := h\<rparr>"
    and votes: "votes = fold (\<lambda>(n, p). map_incr (asCloseTime st (pr_closeTime p))) (fresh_peers A st) []"
    and cc: "close_time_consensus A votes ours st1 = (st2, ct)"
  defines "tv \<equiv> close_threshold A st (fst (getNeededWeight (cs_closeTimeAvalancheState st) (cs_convergePercent st) 0 0))"
    and "tc \<equiv> close_threshold A st (avCtConsensusPct (ad_parms A))"
  shows "cs_haveCloseTimeConsensus st2 \<longleftrightarrow> (\<exists>t. tv \<le> close_votes A st ours t \<and> tc \<le> close_votes A st ours t)"
    and "tv \<le> close_votes A st ours t \<Longrightarrow> close_votes A st ours u \<le> close_votes A st ours ct"
proof -
  define V where "V = (if cs_mode st = Proposing then map_incr (asCloseTime st (pr_closeTime ours)) votes else votes)"
  have nil: "close_map_wf []" "weight_of [] t = 0" for t by (simp_all add: close_map_wf_def weight_of_def)
  have wf: "close_map_wf votes" "sorted_wrt (<) (map fst votes)"
    using vote_fold_weight [OF nil(1), of "\<lambda>p. asCloseTime st (pr_closeTime p)" "fresh_peers A st"]
    by (simp_all add: votes close_map_wf_def)
  have wfV: "close_map_wf V" using wf by (simp add: V_def map_incr_wf)
  have w: "int (weight_of V t) = close_votes A st ours t" for t
    using vote_fold_weight [OF nil(1), of "\<lambda>p. asCloseTime st (pr_closeTime p)" "fresh_peers A st" t] wf(2)
    by (simp add: V_def map_incr_weight votes nil(2) close_votes_def)
  have pos: "1 \<le> tv" unfolding tv_def close_threshold_def
    using getNeededWeight_range(1) [of "cs_closeTimeAvalancheState st" "cs_convergePercent st" 0 0]
    by (intro participantsNeeded_pos) simp_all
  have entry: "(t, v) \<in> set V \<longleftrightarrow> 0 < v \<and> close_votes A st ours t = int v" for t v
    using close_map_entry [OF wfV] w [of t] by auto
  have sel: "cs_currPeerPositions st1 = fresh_peers A st" "cs_mode st1 = cs_mode st" "cs_convergePercent st1 = cs_convergePercent st"
    "cs_closeTimeAvalancheState st1 = cs_closeTimeAvalancheState st" by (simp_all add: st1)
  have as: "asCloseTime st1 t = asCloseTime st t" for t by (simp add: asCloseTime_def st1)
  obtain ct' tv' "have" where l: "close_time_loop tc (rev V) (0, tv, False) = (ct', tv', have)" by (metis prod_cases3)
  have "cs_haveCloseTimeConsensus st2 = have" "ct = ct'"
    using cc peers l unfolding close_time_consensus_def Let_def sel as case_prod_unfold
      close_threshold_def [symmetric] V_def [symmetric] tv_def [symmetric] tc_def [symmetric] by auto
  note spec = close_time_loop_spec [OF l, unfolded set_rev]
  show "cs_haveCloseTimeConsensus st2 \<longleftrightarrow> (\<exists>t. tv \<le> close_votes A st ours t \<and> tc \<le> close_votes A st ours t)"
  proof -
    have "(\<exists>(t, v) \<in> set V. tv \<le> int v \<and> tc \<le> int v) \<longleftrightarrow>
        (\<exists>t. tv \<le> close_votes A st ours t \<and> tc \<le> close_votes A st ours t)"
      using pos w entry by (auto simp: w [symmetric] intro!: bexI)
    then show ?thesis using spec(1) \<open>cs_haveCloseTimeConsensus st2 = have\<close> by simp
  qed
  assume "tv \<le> close_votes A st ours t"
  then have "(t, weight_of V t) \<in> set V" "tv \<le> int (weight_of V t)"
    using pos entry [of t "weight_of V t"] w [of t] by linarith+
  from spec(2) [OF this] obtain m where m: "(ct', m) \<in> set V" "\<And>t v. (t, v) \<in> set V \<Longrightarrow> v \<le> m" by auto
  show "close_votes A st ours u \<le> close_votes A st ours ct"
    using m(1) m(2) [of u "weight_of V u"] \<open>ct = ct'\<close> by (cases "weight_of V u = 0") (auto simp: entry w [symmetric])
qed

end
