(* ===== verification/ConsensusProperties.thy ===== *)
theory ConsensusProperties
  imports RCLCxTx ConsensusReach
begin

text \<open>
  What the consensus engine guarantees in every reachable state, with the transaction sets of
  \<open>RCLTxSet\<close> in the examples: what the disputes and positions say, who may propose, when a round may be
  accepted, that the timer returns, and how a close time is chosen.
\<close>

section \<open>A round of one validator with one peer\<close>

text \<open>
  The runs the examples evaluate: ledgers are numbers, the transaction sets those over \<open>ex_txs\<close>. We hold
  the first transaction and the peer both.
\<close>

type_synonym ex_state = "(cx_tx, uint256, nat, nat, uint256, cx_set, nat) consensus"

definition ex_ledgers :: "(nat, nat) cx_ledger_ops" where
  "ex_ledgers = \<lparr>le_id = (\<lambda>l. l), le_seq = (\<lambda>l. l), le_closeTime = (\<lambda>l. 0), le_parentCloseTime = (\<lambda>l. 0),
     le_closeTimeResolution = (\<lambda>l. 30), le_closeAgree = (\<lambda>l. True)\<rparr>"

definition ex_ours :: cx_set where
  "ex_ours = ex_set [ex_tx 0x5A]"

definition ex_theirs :: cx_set where
  "ex_theirs = ex_set ex_txs"

definition ex_adaptor :: "nat \<Rightarrow> steadytime \<Rightarrow> (cx_tx, uint256, nat, nat, uint256, cx_set, nat) adaptor" where
  "ex_adaptor prev clock =
     \<lparr>ad_parms = ConsensusParms, ad_clock = 1000000 * clock, ad_acquireLedger = (\<lambda>i. Some i),
      ad_acquireTxSet = (\<lambda>i. if i = cx_id ex_sha ex_theirs then Some ex_theirs else None),
      ad_hasOpenTransactions = True, ad_proposersValidated = (\<lambda>_. 0), ad_proposersFinished = (\<lambda>_ _. 0),
      ad_getPrevLedger = (\<lambda>_ _ _. prev),
      ad_onClose = (\<lambda>l t m. ConsensusResult_new ex_ours
                      (ConsensusProposal_new l kSeqJoin (cx_id ex_sha ex_ours) t t 0)),
      ad_getValidLedgerIndex = 0, ad_getQuorumKeys = (1, []), ad_laggards = (\<lambda>_ ks. (0, ks)),
      ad_validator = True, ad_haveValidated = True, ad_validating = True\<rparr>"

definition ex_proposal :: "uint256 \<Rightarrow> (nat, nat, uint256) proposal" where
  "ex_proposal i = ConsensusProposal_new 1 kSeqJoin i 100 100 7"

definition ex_start :: ex_state where
  "ex_start = the (startRound (ex_adaptor 1 0) (RCLTxSet ex_sha) ex_ledgers 2 100 1 1 [] True (Consensus_new 0 0))"

definition ex_heard :: "uint256 \<Rightarrow> ex_state" where
  "ex_heard i = fst (peerProposal (ex_adaptor 1 100) (RCLTxSet ex_sha) 100 (ex_proposal i) ex_start)"

definition ex_closed :: "uint256 \<Rightarrow> ex_state" where
  "ex_closed i = the (timerEntry (ex_adaptor 1 3000) (RCLTxSet ex_sha) ex_ledgers 2 103 (ex_heard i))"

lemma ex_adaptor_ok:
  "adaptor_ok (RCLTxSet ex_sha) (cx_wf (set ex_txs)) (ex_adaptor prev clock)" "acquire_ok ex_ledgers (ex_adaptor prev clock)"
proof -
  have "cx_wf (set ex_txs) ex_ours" "cx_wf (set ex_txs) ex_theirs" by code_simp+
  then show "adaptor_ok (RCLTxSet ex_sha) (cx_wf (set ex_txs)) (ex_adaptor prev clock)"
    by (auto simp: adaptor_ok_def ex_adaptor_def Let_def RCLTxSet_def ConsensusResult_new_def ConsensusProposal_new_def split: if_splits)
qed (simp add: acquire_ok_def ex_adaptor_def ex_ledgers_def)

definition ex_accepted :: ex_state where
  "ex_accepted = the (timerEntry (ex_adaptor 1 6000) (RCLTxSet ex_sha) ex_ledgers 2 106 (ex_closed (cx_id ex_sha ex_ours)))"

lemma ex_returns:
  "startRound (ex_adaptor 1 0) (RCLTxSet ex_sha) ex_ledgers 2 100 1 1 [] True (Consensus_new 0 0) = Some ex_start"
  "timerEntry (ex_adaptor 1 3000) (RCLTxSet ex_sha) ex_ledgers 2 103 (ex_heard (cx_id ex_sha ex_theirs)) =
     Some (ex_closed (cx_id ex_sha ex_theirs))"
  "timerEntry (ex_adaptor 1 3000) (RCLTxSet ex_sha) ex_ledgers 2 103 (ex_heard (cx_id ex_sha ex_ours)) =
     Some (ex_closed (cx_id ex_sha ex_ours))"
  "timerEntry (ex_adaptor 1 6000) (RCLTxSet ex_sha) ex_ledgers 2 106 (ex_closed (cx_id ex_sha ex_ours)) = Some ex_accepted"
proof -
  have "startRound (ex_adaptor 1 0) (RCLTxSet ex_sha) ex_ledgers 2 100 1 1 [] True (Consensus_new 0 0) \<noteq> (None :: ex_state option)"
    "timerEntry (ex_adaptor 1 3000) (RCLTxSet ex_sha) ex_ledgers 2 103 (ex_heard (cx_id ex_sha ex_theirs)) \<noteq> None"
    "timerEntry (ex_adaptor 1 3000) (RCLTxSet ex_sha) ex_ledgers 2 103 (ex_heard (cx_id ex_sha ex_ours)) \<noteq> None"
    "timerEntry (ex_adaptor 1 6000) (RCLTxSet ex_sha) ex_ledgers 2 106 (ex_closed (cx_id ex_sha ex_ours)) \<noteq> None"
    by code_simp+
  then show
    "startRound (ex_adaptor 1 0) (RCLTxSet ex_sha) ex_ledgers 2 100 1 1 [] True (Consensus_new 0 0) = Some ex_start"
    "timerEntry (ex_adaptor 1 3000) (RCLTxSet ex_sha) ex_ledgers 2 103 (ex_heard (cx_id ex_sha ex_theirs)) =
       Some (ex_closed (cx_id ex_sha ex_theirs))"
    "timerEntry (ex_adaptor 1 3000) (RCLTxSet ex_sha) ex_ledgers 2 103 (ex_heard (cx_id ex_sha ex_ours)) =
       Some (ex_closed (cx_id ex_sha ex_ours))"
    "timerEntry (ex_adaptor 1 6000) (RCLTxSet ex_sha) ex_ledgers 2 106 (ex_closed (cx_id ex_sha ex_ours)) = Some ex_accepted"
    unfolding ex_start_def ex_closed_def ex_accepted_def by (simp_all only: option.collapse not_None_eq option.sel)
qed

abbreviation ex_reachable :: "ex_state \<Rightarrow> bool" where
  "ex_reachable \<equiv> reachable (RCLTxSet ex_sha) ex_ledgers (cx_wf (set ex_txs))"

lemma ex_reached:
  "ex_reachable ex_start" "ex_reachable (ex_heard i)"
  "ex_reachable (ex_closed (cx_id ex_sha ex_theirs))" "ex_reachable (ex_closed (cx_id ex_sha ex_ours))"
proof -
  show s: "ex_reachable ex_start" using reachable.start [OF reachable.new ex_adaptor_ok ex_returns(1)] .
  have "round_step (RCLTxSet ex_sha) ex_ledgers (cx_wf (set ex_txs)) ex_start (ex_heard i)" for i
    unfolding ex_heard_def by (rule round_step.proposal [OF ex_adaptor_ok(1) prod.collapse [symmetric]])
  then show h: "ex_reachable (ex_heard i)" for i using reachable.step [OF s] by blast
  show "ex_reachable (ex_closed (cx_id ex_sha ex_theirs))" "ex_reachable (ex_closed (cx_id ex_sha ex_ours))"
    using reachable.step [OF h round_step.timer [OF ex_adaptor_ok ex_returns(2)]]
      reachable.step [OF h round_step.timer [OF ex_adaptor_ok ex_returns(3)]] .
qed

section \<open>Properties\<close>

text \<open>
  C3: the disputes of every reachable state are exact. In a state reached by any sequence of starts,
  timer calls, peer proposals, transaction sets and simulated rounds, a disputed transaction carries
  our vote as it is in our own set; the counts are those of the recorded votes; nobody but a current
  peer has a vote, and a peer whose set is known has the vote its set says. A transaction on which
  our set and the known set of a peer differ is in dispute.
\<close>

theorem reachable_disputes_exact:
  assumes "tx_set S wfs wft" and "reachable S K wfs st" and "cs_result st = Some r"
  shows "(\<forall>k d. hm_find (cr_disputes r) k = Some d \<longrightarrow>
      tx_id S (dt_tx d) = k \<and> dt_ourVote d = ts_exists S (cr_txns r) k \<and>
      dt_yays d = count_votes True (dt_votes d) \<and> dt_nays d = count_votes False (dt_votes d) \<and>
      (\<forall>n. hm_find (cs_currPeerPositions st) n = None \<longrightarrow> hm_find (dt_votes d) n = None) \<and>
      (\<forall>n p s. hm_find (cs_currPeerPositions st) n = Some p \<longrightarrow> hm_find (cs_acquired st) (pr_position p) = Some s \<longrightarrow>
         hm_find (dt_votes d) n = Some (ts_exists S s k))) \<and>
    (\<forall>n p s k. hm_find (cs_currPeerPositions st) n = Some p \<longrightarrow> hm_find (cs_acquired st) (pr_position p) = Some s \<longrightarrow>
       ts_exists S (cr_txns r) k \<noteq> ts_exists S s k \<longrightarrow> hm_find (cr_disputes r) k \<noteq> None)"
proof -
  have "cx_inv_pend S wfs wft {} {} st"
    using tx_set.reachable_inv [OF assms(1,2)] by (simp add: round_inv_def cx_inv_def)
  then have r: "result_inv S wfs wft (cs_acquired st) (cs_currPeerPositions st) {} {} r" and a: "acquired_inv S wfs (cs_acquired st)"
    using assms(3) by (simp_all add: cx_inv_pend_def)
  have "disputes_inv S wft (cs_acquired st) (cs_currPeerPositions st) {} (cr_txns r) (cr_disputes r)"
    using r by (simp add: result_inv_def)
  moreover have "hm_find (cr_disputes r) k \<noteq> None"
    if "hm_find (cs_currPeerPositions st) n = Some p" "hm_find (cs_acquired st) (pr_position p) = Some s"
      "ts_exists S (cr_txns r) k \<noteq> ts_exists S s k" for n p s k
    using r a that by (force simp: result_inv_def acquired_inv_def compared_ok_def peers_compared_def)
  ultimately show ?thesis by (simp add: disputes_inv_def dispute_ok_def votes_ok_def dt_wf_def)
qed

theorem reachable_disputes_exact_witness:
  "\<exists>r d. cs_result (ex_closed (cx_id ex_sha ex_theirs)) = Some r \<and>
     hm_find (cr_disputes r) (cx_tx_id (ex_tx 0x62)) = Some d \<and> \<not> dt_ourVote d \<and> hm_find (dt_votes d) 7 = Some True"
proof -
  let ?st = "ex_closed (cx_id ex_sha ex_theirs)" and ?k = "cx_tx_id (ex_tx 0x62)"
  have f: "(case cs_result ?st of None \<Rightarrow> False | Some r \<Rightarrow> cr_txns r = ex_ours)"
    "(case hm_find (cs_currPeerPositions ?st) 7 of None \<Rightarrow> False | Some p \<Rightarrow> hm_find (cs_acquired ?st) (pr_position p) = Some ex_theirs)"
    "\<not> ts_exists (RCLTxSet ex_sha) ex_ours ?k" "ts_exists (RCLTxSet ex_sha) ex_theirs ?k" by code_simp+
  then obtain r p where r: "cs_result ?st = Some r" "cr_txns r = ex_ours" and p: "hm_find (cs_currPeerPositions ?st) 7 = Some p"
    "hm_find (cs_acquired ?st) (pr_position p) = Some ex_theirs" by (auto split: option.splits)
  note all = reachable_disputes_exact [OF ex.contract ex_reached(3) r(1)]
  have "ts_exists (RCLTxSet ex_sha) (cr_txns r) ?k \<noteq> ts_exists (RCLTxSet ex_sha) ex_theirs ?k" using f(3,4) r(2) by simp
  with all p obtain d where d: "hm_find (cr_disputes r) ?k = Some d" by blast
  with all have "dt_ourVote d = ts_exists (RCLTxSet ex_sha) (cr_txns r) ?k" "hm_find (dt_votes d) 7 = Some (ts_exists (RCLTxSet ex_sha) ex_theirs ?k)"
    using p by blast+
  with r d f show ?thesis by auto
qed

text \<open>
  C19: the shape of every reachable state. The open phase has no result and the establish phase has one;
  our position names the set we hold, and the set is among the acquired ones; every acquired set is
  filed under its own identifier; every peer position is filed under its node, extends the ledger we
  work on, is no departure and belongs to no departed node; at most ten proposals are remembered of
  every node; the ledger we work on is the one named, unless the round is over or on the wrong ledger.
\<close>

theorem reachable_shape:
  assumes "tx_set S wfs wft" and "reachable S K wfs st"
  shows "(cs_phase st = PhOpen \<longrightarrow> cs_result st = None) \<and> (cs_phase st = PhEstablish \<longrightarrow> cs_result st \<noteq> None) \<and>
    (\<forall>r. cs_result st = Some r \<longrightarrow> pr_position (cr_position r) = ts_id S (cr_txns r) \<and>
       hm_find (cs_acquired st) (ts_id S (cr_txns r)) \<noteq> None) \<and>
    (\<forall>i s. hm_find (cs_acquired st) i = Some s \<longrightarrow> ts_id S s = i \<and> wfs s) \<and>
    (\<forall>n p. hm_find (cs_currPeerPositions st) n = Some p \<longrightarrow>
       pr_nodeID p = n \<and> pr_previousLedger p = cs_prevLedgerID st \<and> \<not> isBowOut p \<and> n \<notin> set (cs_deadNodes st)) \<and>
    (\<forall>n ps. hm_find (cs_recentPeerPositions st) n = Some ps \<longrightarrow> length ps \<le> 10) \<and>
    (cs_phase st \<noteq> PhAccepted \<longrightarrow> cs_mode st \<noteq> WrongLedger \<longrightarrow> le_id K (cs_previousLedger st) = cs_prevLedgerID st)"
  using tx_set.reachable_inv [OF assms]
  by (auto simp: round_inv_def cx_inv_def cx_inv_pend_def phase_inv_def ledger_inv_def result_inv_def acquired_inv_def
      peers_inv_def recent_inv_def)

theorem reachable_shape_witness:
  "cs_phase (ex_closed (cx_id ex_sha ex_theirs)) = PhEstablish \<and> cs_result (ex_closed (cx_id ex_sha ex_theirs)) \<noteq> None"
proof -
  have "cs_phase (ex_closed (cx_id ex_sha ex_theirs)) = PhEstablish" by code_simp
  then show ?thesis using reachable_shape [OF ex.contract ex_reached(3)] by blast
qed

text \<open>
  C11: a node proposes only in a round it started as a proposer. However many timer calls, proposals,
  transaction sets and simulated rounds follow, without a new call of \<^verbatim>\<open>startRound\<close> the mode never
  becomes \<open>Proposing\<close>; and \<^verbatim>\<open>startRound\<close> gives that mode only when it was asked to.
\<close>

theorem proposing_only_from_start:
  assumes "tx_set S wfs wft" and "reachable S K wfs st" and "adaptor_ok S wfs A" and "acquire_ok K A"
    and "startRound A S K fuel now lid l untrusted proposing st = Some st1"
    and "(round_step S K wfs)\<^sup>*\<^sup>* st1 st2" and "cs_mode st2 = Proposing"
  shows "proposing \<and> cs_mode st1 = Proposing"
proof -
  have "cx_inv S wfs wft st" using tx_set.reachable_inv [OF assms(1,2)] by (simp add: round_inv_def)
  note s = tx_set.startRound_inv [OF assms(1) this assms(3-5)]
  show ?thesis using tx_set.round_steps_inv [OF assms(1,6)] s assms(7) by (auto simp: stays_out_def)
qed

theorem proposing_only_from_start_witness:
  "cs_mode (ex_heard (cx_id ex_sha ex_ours)) = Proposing \<and> cs_mode ex_start = Proposing"
proof -
  have m: "cs_mode (ex_heard (cx_id ex_sha ex_ours)) = Proposing" by code_simp
  have "round_step (RCLTxSet ex_sha) ex_ledgers (cx_wf (set ex_txs)) ex_start (ex_heard (cx_id ex_sha ex_ours))"
    unfolding ex_heard_def by (rule round_step.proposal [OF ex_adaptor_ok(1) prod.collapse [symmetric]])
  then show ?thesis
    using proposing_only_from_start [OF ex.contract reachable.new ex_adaptor_ok ex_returns(1) r_into_rtranclp m] m by blast
qed

text \<open>
  C10: the timer accepts a ledger only with consensus. When a timer call takes a state that is not
  accepted to an accepted one, the verdict is not \<open>No\<close>, the close time is agreed, the minimum time has
  passed, and the acceptance is the last thing reported. If the verdict is \<open>Yes\<close> then the peers whose
  position is ours are, with us when we propose, at least 80 percent of the proposers, or there are
  disputes and all of them are stalled, or there is no peer and the maximum time has passed.
\<close>

theorem timer_accepts_with_consensus:
  assumes "tx_set S wfs wft" and "reachable S K wfs st" and "adaptor_ok S wfs A" and "acquire_ok K A"
    and "ad_parms A = ConsensusParms"
    and "timerEntry A S K fuel now st = Some st'" and "cs_phase st \<noteq> PhAccepted" and "cs_phase st' = PhAccepted"
  shows "\<exists>r. cs_result st' = Some r \<and> cr_state r \<noteq> CsNo \<and> cs_haveCloseTimeConsensus st' \<and> 1950 \<le> timer_read (cr_roundTime r) \<and>
    last (cs_log st') = EvAccept r (cs_previousLedger st') (cs_closeResolution st') (cs_rawCloseTimes st') (cs_mode st') (ad_validating A) \<and>
    (let peers = cs_currPeerPositions st'; self = (if cs_mode st' = Proposing then 1 else 0);
         agree = length (filter (\<lambda>(_, p). pr_position p = pr_position (cr_position r)) peers)
     in cr_state r = CsYes \<longrightarrow>
          80 * (length peers + self) \<le> 100 * (agree + self) \<or>
          cr_disputes r \<noteq> [] \<and> (\<forall>(k, d) \<in> set (cr_disputes r). stalled ConsensusParms (cs_mode st' = Proposing) (cs_peerUnchangedCounter st') d) \<or>
          peers = [] \<and> 15000 < timer_read (cr_roundTime r))"
proof -
  have "accepted_ok A st'"
    using tx_set.timerEntry_inv [OF assms(1,3,4) tx_set.reachable_inv [OF assms(1,2)] assms(6)] assms(7,8) by blast
  then obtain r where r: "cs_result st' = Some r" "cr_state r \<noteq> CsNo" "verdict_ok A st' r" "cs_haveCloseTimeConsensus st'"
    "ledgerMinConsensus (ad_parms A) \<le> timer_read (cr_roundTime r)"
    "last (cs_log st') = EvAccept r (cs_previousLedger st') (cs_closeResolution st') (cs_rawCloseTimes st') (cs_mode st') (ad_validating A)"
    by (auto simp: accepted_ok_def)
  have parms: "ledgerMinConsensus ConsensusParms = 1950" "ledgerMaxConsensus ConsensusParms = 15000" "minConsensusPct ConsensusParms = 80"
    by (simp_all add: ConsensusParms_def)
  show ?thesis
    using r assms(5) by (intro exI [of _ r]) (auto simp: verdict_ok_def reached_iff Let_def list_all_iff parms split: if_splits)
qed

theorem timer_accepts_with_consensus_witness:
  "\<exists>r. cs_result ex_accepted = Some r \<and> cr_state r = CsYes \<and> cs_haveCloseTimeConsensus ex_accepted \<and> 1950 \<le> timer_read (cr_roundTime r)"
proof -
  have f: "cs_phase (ex_closed (cx_id ex_sha ex_ours)) \<noteq> PhAccepted" "cs_phase ex_accepted = PhAccepted"
    "map_option cr_state (cs_result ex_accepted) = Some CsYes" by code_simp+
  have "ad_parms (ex_adaptor 1 6000) = ConsensusParms" by (simp add: ex_adaptor_def)
  from timer_accepts_with_consensus [OF ex.contract ex_reached(4) ex_adaptor_ok this ex_returns(4) f(1,2)] f(3)
  show ?thesis by auto
qed

text \<open>
  C20: the timer returns. \<^verbatim>\<open>timerEntry\<close> calls itself when it switches to the ledger the network prefers
  and enough peers are already there. If every ledger switched to has a smaller rank than the one
  before, which holds with rank 0 when the preferred ledger stays the same during the call, the call
  returns after at most as many restarts as the rank of the first preferred ledger.
\<close>

theorem timerEntry_returns:
  assumes "tx_set S wfs wft" and "reachable S K wfs st" and "adaptor_ok S wfs A" and "acquire_ok K A"
    and "\<And>i l. ad_acquireLedger A i = Some l \<Longrightarrow> ad_getPrevLedger A i l SwitchedLedger \<noteq> i \<Longrightarrow>
      rank (ad_getPrevLedger A i l SwitchedLedger) < (rank i :: nat)"
    and "fuel = rank (ad_getPrevLedger A (cs_prevLedgerID st) (cs_previousLedger st) (cs_mode st)) + 2"
  shows "\<exists>st'. timerEntry A S K fuel now st = Some st'"
  using tx_set.timerEntry_returns_lemma [OF assms(1,3,4,5) tx_set.reachable_inv [OF assms(1,2)], where fuel = fuel and now = now]
    assms(6) by auto

theorem timerEntry_returns_witness:
  "\<exists>st'. timerEntry (ex_adaptor 5 3000) (RCLTxSet ex_sha) ex_ledgers 3 103 (ex_heard (cx_id ex_sha ex_theirs)) = Some st'"
proof (rule timerEntry_returns [OF ex.contract ex_reached(2) ex_adaptor_ok])
  show "ad_getPrevLedger (ex_adaptor 5 3000) i l SwitchedLedger \<noteq> i \<Longrightarrow>
    (\<lambda>i. if i = 5 then 1 else 2) (ad_getPrevLedger (ex_adaptor 5 3000) i l SwitchedLedger) < (if i = 5 then 1 else (2::nat))" for i l
    by (auto simp: ex_adaptor_def)
qed (simp add: ex_adaptor_def)

text \<open>
  C32: the close time is chosen by plurality. When some peer position is fresh, an update of our
  positions finds close-time consensus exactly when some rounded close time has enough votes, those of
  the fresh peers and ours when we propose, for the percentage of the current avalanche state and for
  the consensus percentage. If any time has enough votes for the avalanche state, our close time
  afterwards stands for a time that no other has more votes than.
\<close>

theorem close_time_plurality:
  fixes S :: "('tx, 'txid, 'sid, 'ts) txset_ops" and st :: "('tx, 'txid, 'n, 'lid, 'sid, 'ts, 'l) consensus"
  assumes r: "cs_result st = Some r" and fresh: "fresh_peers A st \<noteq> []"
  defines "tv \<equiv> close_threshold A st (fst (getNeededWeight (cs_closeTimeAvalancheState st) (cs_convergePercent st) 0 0))"
    and "tc \<equiv> close_threshold A st (avCtConsensusPct (ad_parms A))" and "votes \<equiv> close_votes A st (cr_position r)"
    and "st' \<equiv> updateOurPositions A S st"
  shows "(cs_haveCloseTimeConsensus st' \<longleftrightarrow> (\<exists>t. tv \<le> votes t \<and> tc \<le> votes t)) \<and>
    (\<forall>t. tv \<le> votes t \<longrightarrow> (\<exists>r' t'. cs_result st' = Some r' \<and> (\<forall>u. votes u \<le> votes t') \<and>
       (pr_closeTime (cr_position r') = t' \<or> asCloseTime st (pr_closeTime (cr_position r')) = t')))"
proof -
  let ?cut = "cs_now st - of_int (proposeFRESHNESS (ad_parms A))"
  obtain peers ds1 vs where sl: "stale_loop (asCloseTime st) ?cut (cs_currPeerPositions st) (cr_disputes r) [] = (peers, ds1, vs)"
    by (metis prod_cases3)
  obtain ds2 m where uv: "update_votes S (cs_convergePercent st) (cs_mode st = Proposing) (ad_parms A) (cr_txns r) ds1 None = (ds2, m)"
    by fastforce
  let ?r1 = "r\<lparr>cr_disputes := ds2\<rparr>"
  define st1 where "st1 = st\<lparr>cs_currPeerPositions := peers, cs_result := Some ?r1, cs_haveCloseTimeConsensus := False\<rparr>"
  obtain st2 ct where cc: "close_time_consensus A vs (cr_position r) st1 = (st2, ct)" by fastforce
  have peers: "peers = fresh_peers A st" and vs: "vs = fold (\<lambda>(n, p). map_incr (asCloseTime st (pr_closeTime p))) (fresh_peers A st) []"
    using stale_loop_votes [OF sl] by (simp_all add: fresh_peers_def)
  note spec = close_time_consensus_spec [OF fresh st1_def [unfolded peers] vs cc, folded tv_def tc_def votes_def]
  obtain a h where st2: "st2 = st1\<lparr>cs_closeTimeAvalancheState := a, cs_haveCloseTimeConsensus := h\<rparr>"
    by (rule close_time_consensus_frame [OF cc])
  have as: "asCloseTime st2 t = asCloseTime st t" for t by (simp add: asCloseTime_def st2 st1_def)
  have "(st' = st2 \<and> ct = asCloseTime st (pr_closeTime (cr_position r))) \<or> (\<exists>s. st' = change_position S s ct ?r1 st2)"
    using r sl uv cc unfolding st'_def updateOurPositions_def Let_def by (auto simp: st1_def as split: option.splits if_splits)
  then have "cs_haveCloseTimeConsensus st' = cs_haveCloseTimeConsensus st2 \<and>
      (\<exists>p. cs_position st' = Some p \<and> (pr_closeTime p = ct \<or> asCloseTime st (pr_closeTime p) = ct))"
  proof (elim disjE exE conjE)
    fix s assume "st' = change_position S s ct ?r1 st2"
    then show ?thesis using change_position_frame [of S s ct ?r1 st2]
      by (auto simp: changePosition_def simp del: map_option_eq_Some)
  qed (simp add: st2 st1_def)
  then show ?thesis using spec by auto
qed

theorem close_time_plurality_witness:
  "cs_haveCloseTimeConsensus (updateOurPositions (ex_adaptor 1 6000) (RCLTxSet ex_sha) (ex_closed (cx_id ex_sha ex_ours)))"
proof -
  let ?st = "ex_closed (cx_id ex_sha ex_ours)" and ?A = "ex_adaptor 1 6000"
  have f: "fresh_peers ?A ?st \<noteq> []"
    "(case cs_result ?st of None \<Rightarrow> False | Some r \<Rightarrow>
       close_threshold ?A ?st (fst (getNeededWeight (cs_closeTimeAvalancheState ?st) (cs_convergePercent ?st) 0 0)) \<le> close_votes ?A ?st (cr_position r) 90 \<and>
       close_threshold ?A ?st (avCtConsensusPct (ad_parms ?A)) \<le> close_votes ?A ?st (cr_position r) 90)" by code_simp+
  then obtain r where "cs_result ?st = Some r" by (auto split: option.splits)
  then show ?thesis using close_time_plurality [OF _ f(1), of r "RCLTxSet ex_sha"] f(2) by auto
qed

end
