(* ===== verification/LedgerTrie.thy ===== *)
theory LedgerTrie
  imports Rippled_Prelude
begin

text \<open>
  The ancestry trie of validated ledgers, \<^verbatim>\<open>include/xrpl/consensus/LedgerTrie.h\<close>: spans of
  ancestry, nodes with tip and branch support, and the trie with its per-sequence counts.

  The template parameter \<^verbatim>\<open>Ledger\<close> is the record \<open>ledger_ops\<close> of the operations the trie calls.
  A node owns its children; a \<^verbatim>\<open>Node*\<close> is the path of child indices that leads to it, so that
  the parent pointer is the path without its last index. Sequence numbers and supports are \<open>nat\<close>:
  they count ledgers and validators and stay far below their 32-bit bounds. The partial sort of the
  children inside \<^verbatim>\<open>getPreferred\<close> only selects the two best children; the order in which it leaves
  the others is not fixed by the library and is not modelled.
\<close>

section \<open>Ledgers, spans and nodes\<close>

record ('l, 'id) ledger_ops =
  lo_seq :: "'l \<Rightarrow> nat"
  lo_id :: "'l \<Rightarrow> 'id"
  lo_at :: "'l \<Rightarrow> nat \<Rightarrow> 'id"
  lo_mismatch :: "'l \<Rightarrow> 'l \<Rightarrow> nat"
  lo_genesis :: 'l

record ('l, 'id) span_tip =
  st_seq :: nat
  st_id :: 'id
  st_ledger :: 'l

definition st_ancestor :: "('l, 'id) ledger_ops \<Rightarrow> ('l, 'id) span_tip \<Rightarrow> nat \<Rightarrow> 'id" where
  "st_ancestor L t s = lo_at L (st_ledger t) s"

record 'l span =
  sp_start :: nat
  sp_end :: nat
  sp_ledger :: 'l

definition span_genesis :: "('l, 'id) ledger_ops \<Rightarrow> 'l span" where
  "span_genesis L = \<lparr>sp_start = 0, sp_end = 1, sp_ledger = lo_genesis L\<rparr>"

definition span_of :: "('l, 'id) ledger_ops \<Rightarrow> 'l \<Rightarrow> 'l span" where
  "span_of L l = \<lparr>sp_start = 0, sp_end = lo_seq L l + 1, sp_ledger = l\<rparr>"

definition span_clamp :: "'l span \<Rightarrow> nat \<Rightarrow> nat" where
  "span_clamp s v = min (max (sp_start s) v) (sp_end s)"

definition span_sub :: "'l span \<Rightarrow> nat \<Rightarrow> nat \<Rightarrow> 'l span option" where
  "span_sub s from to =
     (let newFrom = span_clamp s from; newTo = span_clamp s to
      in if newFrom < newTo then Some \<lparr>sp_start = newFrom, sp_end = newTo, sp_ledger = sp_ledger s\<rparr>
         else None)"

definition span_from :: "'l span \<Rightarrow> nat \<Rightarrow> 'l span option" where
  "span_from s spot = span_sub s spot (sp_end s)"

definition span_before :: "'l span \<Rightarrow> nat \<Rightarrow> 'l span option" where
  "span_before s spot = span_sub s (sp_start s) spot"

definition span_startID :: "('l, 'id) ledger_ops \<Rightarrow> 'l span \<Rightarrow> 'id" where
  "span_startID L s = lo_at L (sp_ledger s) (sp_start s)"

definition span_diff :: "('l, 'id) ledger_ops \<Rightarrow> 'l span \<Rightarrow> 'l \<Rightarrow> nat" where
  "span_diff L s l = span_clamp s (lo_mismatch L (sp_ledger s) l)"

definition span_tipOf :: "('l, 'id) ledger_ops \<Rightarrow> 'l span \<Rightarrow> ('l, 'id) span_tip" where
  "span_tipOf L s =
     \<lparr>st_seq = sp_end s - 1, st_id = lo_at L (sp_ledger s) (sp_end s - 1), st_ledger = sp_ledger s\<rparr>"

definition span_merge :: "'l span \<Rightarrow> 'l span \<Rightarrow> 'l span" where
  "span_merge a b =
     (if sp_end a < sp_end b
      then \<lparr>sp_start = min (sp_start a) (sp_start b), sp_end = sp_end b, sp_ledger = sp_ledger b\<rparr>
      else \<lparr>sp_start = min (sp_start a) (sp_start b), sp_end = sp_end a, sp_ledger = sp_ledger a\<rparr>)"

datatype 'l node =
  Node (nd_span: "'l span") (nd_tip: nat) (nd_branch: nat) (nd_children: "'l node list")

text \<open>\<^verbatim>\<open>Node::erase\<close>: the removed child is swapped with the last one and popped.\<close>

definition node_erase :: "nat \<Rightarrow> 'l node list \<Rightarrow> 'l node list" where
  "node_erase i cs = butlast (cs[i := last cs])"

record 'l trie =
  lt_root :: "'l node"
  lt_seqSupport :: "(nat \<times> nat) list"

definition LedgerTrie_new :: "('l, 'id) ledger_ops \<Rightarrow> 'l trie" where
  "LedgerTrie_new L = \<lparr>lt_root = Node (span_genesis L) 0 0 [], lt_seqSupport = []\<rparr>"

section \<open>Search\<close>

fun find_node :: "('l, 'id) ledger_ops \<Rightarrow> 'l \<Rightarrow> nat \<Rightarrow> 'l node \<Rightarrow> nat list \<times> nat"
  and find_children :: "('l, 'id) ledger_ops \<Rightarrow> 'l \<Rightarrow> nat \<Rightarrow> nat \<Rightarrow> 'l node list \<Rightarrow> nat list \<times> nat" where
  "find_node L l pos (Node s t b cs) =
     (if pos = sp_end s then find_children L l pos 0 cs else ([], pos))"
| "find_children L l pos i [] = ([], pos)"
| "find_children L l pos i (c # cs) =
     (let childPos = span_diff L (nd_span c) l
      in if pos < childPos
         then (case find_node L l childPos c of (path, p) \<Rightarrow> (i # path, p))
         else find_children L l pos (Suc i) cs)"

definition trie_find :: "('l, 'id) ledger_ops \<Rightarrow> 'l trie \<Rightarrow> 'l \<Rightarrow> nat list \<times> nat" where
  "trie_find L T l = find_node L l (span_diff L (nd_span (lt_root T)) l) (lt_root T)"

fun find_id_node :: "('l, 'id) ledger_ops \<Rightarrow> 'id \<Rightarrow> 'l node \<Rightarrow> nat list option"
  and find_id_children :: "('l, 'id) ledger_ops \<Rightarrow> 'id \<Rightarrow> nat \<Rightarrow> 'l node list \<Rightarrow> nat list option" where
  "find_id_node L x (Node s t b cs) =
     (if x = st_id (span_tipOf L s) then Some [] else find_id_children L x 0 cs)"
| "find_id_children L x i [] = None"
| "find_id_children L x i (c # cs) =
     (case find_id_node L x c of
        Some path \<Rightarrow> Some (i # path)
      | None \<Rightarrow> find_id_children L x (Suc i) cs)"

definition findByLedgerID :: "('l, 'id) ledger_ops \<Rightarrow> 'l trie \<Rightarrow> 'l \<Rightarrow> nat list option" where
  "findByLedgerID L T l = find_id_node L (lo_id L l) (lt_root T)"

fun node_at :: "'l node \<Rightarrow> nat list \<Rightarrow> 'l node option" where
  "node_at n [] = Some n"
| "node_at (Node s t b cs) (i # p) = (if i < length cs then node_at (cs ! i) p else None)"

section \<open>Insertion\<close>

text \<open>
  The changes at the found node: it is cut at \<open>diffSeq\<close> when a suffix of its span is not shared,
  a leaf for the rest of the ledger is added when there is one, and the support is counted at the
  new leaf or at the node itself.
\<close>

definition insert_loc :: "('l, 'id) ledger_ops \<Rightarrow> 'l \<Rightarrow> nat \<Rightarrow> nat \<Rightarrow> 'l node \<Rightarrow> 'l node" where
  "insert_loc L l count diffSeq loc =
     (let prefix = span_before (nd_span loc) diffSeq;
          oldSuffix = span_from (nd_span loc) diffSeq;
          newSuffix = span_from (span_of L l) diffSeq;
          loc1 = (case oldSuffix of
                    None \<Rightarrow> loc
                  | Some os \<Rightarrow>
                      Node (case prefix of Some p \<Rightarrow> p | None \<Rightarrow> nd_span loc) 0 (nd_branch loc)
                        [Node os (nd_tip loc) (nd_branch loc) (nd_children loc)])
      in case newSuffix of
           Some ns \<Rightarrow>
             Node (nd_span loc1) (nd_tip loc1) (nd_branch loc1 + count)
               (nd_children loc1 @ [Node ns count count []])
         | None \<Rightarrow>
             Node (nd_span loc1) (nd_tip loc1 + count) (nd_branch loc1 + count) (nd_children loc1))"

text \<open>The walk along the parent pointers that raises the branch support of every ancestor.\<close>

fun insert_path :: "('l, 'id) ledger_ops \<Rightarrow> 'l \<Rightarrow> nat \<Rightarrow> nat \<Rightarrow> nat list \<Rightarrow> 'l node \<Rightarrow> 'l node" where
  "insert_path L l count diffSeq [] n = insert_loc L l count diffSeq n"
| "insert_path L l count diffSeq (i # p) (Node s t b cs) =
     Node s t (b + count) (cs[i := insert_path L l count diffSeq p (cs ! i)])"

fun seq_add :: "nat \<Rightarrow> nat \<Rightarrow> (nat \<times> nat) list \<Rightarrow> (nat \<times> nat) list" where
  "seq_add s c [] = [(s, c)]"
| "seq_add s c ((k, v) # m) =
     (if s = k then (k, v + c) # m
      else if s < k then (s, c) # (k, v) # m
      else (k, v) # seq_add s c m)"

definition trie_insert :: "('l, 'id) ledger_ops \<Rightarrow> 'l \<Rightarrow> nat \<Rightarrow> 'l trie \<Rightarrow> 'l trie" where
  "trie_insert L l count T =
     (case trie_find L T l of (loc, diffSeq) \<Rightarrow>
        T\<lparr>lt_root := insert_path L l count diffSeq loc (lt_root T),
          lt_seqSupport := seq_add (lo_seq L l) count (lt_seqSupport T)\<rparr>)"

section \<open>Removal\<close>

text \<open>
  The branch support is lowered on the whole path. Going up from the node, a node without tip
  support is erased when it has no children and merged with its child when it has one; the flag says
  that the loop goes on with the parent. The root is never erased.
\<close>

fun remove_path :: "nat \<Rightarrow> nat list \<Rightarrow> 'l node \<Rightarrow> 'l node \<times> bool" where
  "remove_path c [] (Node s t b cs) = (Node s (t - c) (b - c) cs, True)"
| "remove_path c (i # p) (Node s t b cs) =
     (case remove_path c p (cs ! i) of (loc, go) \<Rightarrow>
        if go \<and> nd_tip loc = 0 then
          (case nd_children loc of
             [] \<Rightarrow> (Node s t (b - c) (node_erase i cs), True)
           | [child] \<Rightarrow>
               (Node s t (b - c)
                  (cs[i := Node (span_merge (nd_span loc) (nd_span child))
                             (nd_tip child) (nd_branch child) (nd_children child)]), True)
           | _ \<Rightarrow> (Node s t (b - c) (cs[i := loc]), False))
        else (Node s t (b - c) (cs[i := loc]), False))"

fun seq_sub :: "nat \<Rightarrow> nat \<Rightarrow> (nat \<times> nat) list \<Rightarrow> (nat \<times> nat) list" where
  "seq_sub s c [] = []"
| "seq_sub s c ((k, v) # m) =
     (if s = k then (if v - c = 0 then m else (k, v - c) # m) else (k, v) # seq_sub s c m)"

definition trie_remove :: "('l, 'id) ledger_ops \<Rightarrow> 'l \<Rightarrow> nat \<Rightarrow> 'l trie \<Rightarrow> 'l trie \<times> bool" where
  "trie_remove L l count T =
     (case findByLedgerID L T l of
        None \<Rightarrow> (T, False)
      | Some path \<Rightarrow>
          (case node_at (lt_root T) path of
             None \<Rightarrow> (T, False)
           | Some loc \<Rightarrow>
               if nd_tip loc = 0 then (T, False)
               else let c = min count (nd_tip loc)
                    in (T\<lparr>lt_root := fst (remove_path c path (lt_root T)),
                          lt_seqSupport := seq_sub (lo_seq L l) c (lt_seqSupport T)\<rparr>, True)))"

section \<open>Support queries\<close>

definition trie_tipSupport :: "('l, 'id) ledger_ops \<Rightarrow> 'l trie \<Rightarrow> 'l \<Rightarrow> nat" where
  "trie_tipSupport L T l =
     (case findByLedgerID L T l of
        Some path \<Rightarrow> (case node_at (lt_root T) path of Some loc \<Rightarrow> nd_tip loc | None \<Rightarrow> 0)
      | None \<Rightarrow> 0)"

definition trie_branchSupport :: "('l, 'id) ledger_ops \<Rightarrow> 'l trie \<Rightarrow> 'l \<Rightarrow> nat" where
  "trie_branchSupport L T l =
     (case findByLedgerID L T l of
        Some path \<Rightarrow> (case node_at (lt_root T) path of Some loc \<Rightarrow> nd_branch loc | None \<Rightarrow> 0)
      | None \<Rightarrow>
          (case trie_find L T l of (path, diffSeq) \<Rightarrow>
             (case node_at (lt_root T) path of
                Some loc \<Rightarrow>
                  if lo_seq L l < diffSeq \<and> lo_seq L l < sp_end (nd_span loc) then nd_branch loc else 0
              | None \<Rightarrow> 0)))"

definition trie_empty :: "'l trie \<Rightarrow> bool" where
  "trie_empty T \<longleftrightarrow> nd_branch (lt_root T) = 0"

section \<open>The preferred ledger\<close>

fun take_uncommitted :: "nat \<Rightarrow> nat \<Rightarrow> (nat \<times> nat) list \<Rightarrow> nat \<times> (nat \<times> nat) list" where
  "take_uncommitted bound uncommitted [] = (uncommitted, [])"
| "take_uncommitted bound uncommitted ((k, v) # its) =
     (if k < bound then take_uncommitted bound (uncommitted + v) its
      else (uncommitted, (k, v) # its))"

fun span_walk :: "nat \<Rightarrow> nat \<Rightarrow> nat \<Rightarrow> nat \<Rightarrow> (nat \<times> nat) list \<Rightarrow> nat \<times> nat \<times> (nat \<times> nat) list" where
  "span_walk endSeq branch nextSeq uncommitted [] =
     (if nextSeq < endSeq \<and> uncommitted < branch then (endSeq, uncommitted, [])
      else (nextSeq, uncommitted, []))"
| "span_walk endSeq branch nextSeq uncommitted ((k, v) # its) =
     (if nextSeq < endSeq \<and> uncommitted < branch
      then (if k < endSeq then span_walk endSeq branch (k + 1) (uncommitted + v) its
            else (endSeq, uncommitted, (k, v) # its))
      else (nextSeq, uncommitted, (k, v) # its))"

definition child_less :: "('l, 'id::linorder) ledger_ops \<Rightarrow> 'l node \<Rightarrow> 'l node \<Rightarrow> bool" where
  "child_less L a b \<longleftrightarrow> nd_branch a < nd_branch b \<or>
     nd_branch a = nd_branch b \<and> span_startID L (nd_span a) < span_startID L (nd_span b)"

text \<open>The first two children after the partial sort.\<close>

fun best_two :: "('l, 'id::linorder) ledger_ops \<Rightarrow> 'l node list \<Rightarrow> ('l node \<times> 'l node option) option" where
  "best_two L [] = None"
| "best_two L (c # cs) =
     (case best_two L cs of
        None \<Rightarrow> Some (c, None)
      | Some (b, second) \<Rightarrow>
          if child_less L b c then Some (c, Some b)
          else (case second of
                  None \<Rightarrow> Some (b, Some c)
                | Some s \<Rightarrow> Some (b, Some (if child_less L s c then c else s))))"

definition best_margin :: "('l, 'id::linorder) ledger_ops \<Rightarrow> 'l node \<Rightarrow> 'l node option \<Rightarrow> nat" where
  "best_margin L best second =
     (case second of
        None \<Rightarrow> nd_branch best
      | Some s \<Rightarrow>
          nd_branch best - nd_branch s +
            (if span_startID L (nd_span s) < span_startID L (nd_span best) then 1 else 0))"

lemma best_two_mem: "best_two L cs = Some (b, s) \<Longrightarrow> b \<in> set cs"
  by (induction cs arbitrary: b s) (auto split: option.splits if_splits prod.splits)

lemma size_child [termination_simp]: "c \<in> set cs \<Longrightarrow> size c < Suc (size_list size cs)"
  by (induction cs) auto

lemma best_two_size [termination_simp]:
  "best_two L cs = Some (b, s) \<Longrightarrow> size b < Suc (size_list size cs)"
  using best_two_mem size_child by metis

fun pref_node :: "('l, 'id::linorder) ledger_ops \<Rightarrow> nat \<Rightarrow> 'l node \<Rightarrow> nat \<Rightarrow> (nat \<times> nat) list \<Rightarrow> ('l, 'id) span_tip" where
  "pref_node L largestIssued (Node s t b cs) uncommitted its =
     (case take_uncommitted (max (sp_start s + 1) largestIssued) uncommitted its of (unc1, its1) \<Rightarrow>
      (case span_walk (sp_end s) b (sp_start s + 1) unc1 its1 of (nextSeq, unc2, its2) \<Rightarrow>
       if nextSeq < sp_end s
       then (case span_before s nextSeq of Some s' \<Rightarrow> span_tipOf L s' | None \<Rightarrow> span_tipOf L s)
       else (case best_two L cs of
               None \<Rightarrow> span_tipOf L s
             | Some (best, second) \<Rightarrow>
                 if unc2 < best_margin L best second \<or> unc2 = 0
                 then pref_node L largestIssued best unc2 its2
                 else span_tipOf L s)))"

definition trie_getPreferred ::
  "('l, 'id::linorder) ledger_ops \<Rightarrow> nat \<Rightarrow> 'l trie \<Rightarrow> ('l, 'id) span_tip option" where
  "trie_getPreferred L largestIssued T =
     (if trie_empty T then None
      else Some (pref_node L largestIssued (lt_root T) 0 (lt_seqSupport T)))"

section \<open>The invariant check of the code\<close>

text \<open>
  The loop of \<^verbatim>\<open>checkInvariants\<close> over its stack of nodes; the flag marks the root. The test of the
  parent pointers has no counterpart: a child of the model has one owner.
\<close>

definition nodes_size :: "(bool \<times> 'l node) list \<Rightarrow> nat" where
  "nodes_size st = sum_list (map (\<lambda>(_, n). Suc (size n)) st)"

lemma nodes_size_push:
  "nodes_size (rev (map (Pair False) cs) @ st) < nodes_size ((r, Node s t b cs) # st)"
proof -
  have "sum_list (map (\<lambda>n. Suc (size n)) cs) \<le> size_list size cs"
    by (induction cs) auto
  moreover have "nodes_size (rev (map (Pair False) cs)) = sum_list (map (\<lambda>n. Suc (size n)) cs)"
    by (simp add: nodes_size_def rev_map [symmetric] sum_list_rev comp_def flip: map_map)
      (simp add: comp_def)
  ultimately show ?thesis by (simp add: nodes_size_def)
qed

function check_loop :: "(bool \<times> 'l node) list \<Rightarrow> (nat \<times> nat) list \<Rightarrow> (nat \<times> nat) list option" where
  "check_loop [] expected = Some expected"
| "check_loop ((isRoot, Node s t b cs) # st) expected =
     (if \<not> isRoot \<and> t = 0 \<and> length cs < 2 then None
      else let expected' = (if t \<noteq> 0 then seq_add (sp_end s - 1) t expected else expected)
           in if t + sum_list (map nd_branch cs) \<noteq> b then None
              else check_loop (rev (map (Pair False) cs) @ st) expected')"
  by pat_completeness auto
termination
  by (relation "measure (\<lambda>(st, _). nodes_size st)") (simp_all add: nodes_size_push)

definition trie_checkInvariants :: "'l trie \<Rightarrow> bool" where
  "trie_checkInvariants T =
     (case check_loop [(True, lt_root T)] [] of
        None \<Rightarrow> False
      | Some expected \<Rightarrow> expected = lt_seqSupport T)"

end
