(* ===== verification/LedgerTrie_Correct.thy ===== *)
theory LedgerTrie_Correct
  imports LedgerTrie "HOL-Library.Multiset" "HOL-Library.Sublist"
begin

text \<open>
  Correctness of the ledger trie. A ledger stands for its history, the list of its ancestors from the
  genesis ledger to itself; a trie stands for the multiset of the histories it supports. The
  interface \<open>ledger_history\<close> is what the trie asks of its ledger type: unique histories, and a
  \<^verbatim>\<open>mismatch\<close> that finds the end of the common part. Inside it the operations of the trie are shown
  to implement the operations on the multiset.
\<close>

section \<open>Common prefixes\<close>

fun lcp_len :: "'a list \<Rightarrow> 'a list \<Rightarrow> nat" where
  "lcp_len (x # xs) (y # ys) = (if x = y then Suc (lcp_len xs ys) else 0)"
| "lcp_len _ _ = 0"

lemma le_lcp_len_iff:
  "k \<le> lcp_len xs ys \<longleftrightarrow> k \<le> length xs \<and> k \<le> length ys \<and> take k xs = take k ys"
proof (induction xs ys arbitrary: k rule: lcp_len.induct)
  case (1 x xs y ys)
  then show ?case by (cases k) auto
qed auto

lemma lcp_len_le: "lcp_len xs ys \<le> length xs" "lcp_len xs ys \<le> length ys"
  using le_lcp_len_iff [of "lcp_len xs ys" xs ys] by auto

lemma take_lcp_len: "k \<le> lcp_len xs ys \<Longrightarrow> take k xs = take k ys"
  using le_lcp_len_iff by blast

lemma less_lcp_len_iff:
  "k \<le> length xs \<Longrightarrow> k \<le> length ys \<Longrightarrow> take k xs = take k ys \<Longrightarrow>
   k < lcp_len xs ys \<longleftrightarrow> k < length xs \<and> k < length ys \<and> xs ! k = ys ! k"
  by (auto simp: Suc_le_eq [symmetric] le_lcp_len_iff take_Suc_conv_app_nth)

lemma nth_lcp_len:
  assumes "lcp_len xs ys < length xs" "lcp_len xs ys < length ys"
  shows "xs ! lcp_len xs ys \<noteq> ys ! lcp_len xs ys"
  using less_lcp_len_iff [of "lcp_len xs ys" xs ys] assms by (auto simp: take_lcp_len)

lemma lcp_len_eqI:
  "k \<le> length xs \<Longrightarrow> k \<le> length ys \<Longrightarrow> take k xs = take k ys \<Longrightarrow>
   (k < length xs \<Longrightarrow> k < length ys \<Longrightarrow> xs ! k \<noteq> ys ! k) \<Longrightarrow> lcp_len xs ys = k"
  using less_lcp_len_iff [of k xs ys] le_lcp_len_iff [of k xs ys] by linarith

lemma take_take_eq: "take n xs = take n ys \<Longrightarrow> k \<le> n \<Longrightarrow> take k xs = take k ys"
  by (metis min.absorb1 take_take)

lemma nth_take_eq: "take n xs = take n ys \<Longrightarrow> k < n \<Longrightarrow> xs ! k = ys ! k"
  by (metis nth_take)

section \<open>Sums over the children\<close>

lemma replicate_mset_plus: "replicate_mset (m + n) x = replicate_mset m x + replicate_mset n x"
  by (induction m) auto

lemma filter_replicate_mset:
  "filter_mset P (replicate_mset k x) = (if P x then replicate_mset k x else {#})"
  by (induction k) auto

lemma mset_exchange: "A + C = B + D \<Longrightarrow> D + R = C \<Longrightarrow> A + R = (B :: 'a multiset)"
  by (auto simp: add_ac)

lemma in_sum_list_mset: "x \<in># sum_list Ms \<longleftrightarrow> (\<exists>M \<in> set Ms. x \<in># M)"
  by (induction Ms) auto

lemma size_sum_list_mset: "size (sum_list (Ms :: 'a multiset list)) = sum_list (map size Ms)"
  by (induction Ms) auto

lemma sum_list_update_add:
  fixes xs :: "'a::comm_monoid_add list"
  shows "i < length xs \<Longrightarrow> sum_list (xs[i := y]) + xs ! i = sum_list xs + y"
  by (induction xs arbitrary: i) (auto split: nat.split simp: add_ac)

lemma mset_node_erase:
  assumes "i < length cs"
  shows "add_mset (cs ! i) (mset (node_erase i cs)) = mset cs"
proof -
  have ne: "cs \<noteq> []" using assms by auto
  have "mset (cs[i := last cs]) = add_mset (last cs) (mset cs - {#cs ! i#})"
    using assms by (simp add: mset_update)
  moreover have "last (cs[i := last cs]) = last cs"
    using ne by (simp add: last_list_update)
  moreover have "mset ds = add_mset (last ds) (mset (butlast ds))" if "ds \<noteq> []" for ds :: "'a node list"
    using that by (induction ds) auto
  then have "mset (cs[i := last cs]) = add_mset (last (cs[i := last cs])) (mset (node_erase i cs))"
    unfolding node_erase_def using ne by simp
  ultimately have "mset (node_erase i cs) = mset cs - {#cs ! i#}" by simp
  then show ?thesis using assms by simp
qed

section \<open>The invariant and the abstraction\<close>

definition node_hist :: "('l \<Rightarrow> 'h list) \<Rightarrow> 'l node \<Rightarrow> 'h list" where
  "node_hist hist n = take (sp_end (nd_span n)) (hist (sp_ledger (nd_span n)))"

fun node_abs :: "('l \<Rightarrow> 'h list) \<Rightarrow> 'l node \<Rightarrow> 'h list multiset" where
  "node_abs hist (Node s t b cs) =
     replicate_mset t (take (sp_end s) (hist (sp_ledger s))) + sum_list (map (node_abs hist) cs)"

definition span_inv ::
  "('l \<Rightarrow> 'h list) \<Rightarrow> ('l \<Rightarrow> bool) \<Rightarrow> (nat \<Rightarrow> bool) \<Rightarrow> 'h list \<Rightarrow> 'l span \<Rightarrow> bool" where
  "span_inv hist valid cutp p s \<longleftrightarrow>
     valid (sp_ledger s) \<and> sp_start s = length p \<and> sp_start s < sp_end s \<and>
     sp_end s \<le> length (hist (sp_ledger s)) \<and> take (sp_start s) (hist (sp_ledger s)) = p \<and>
     cutp (sp_end s - 1)"

definition node_compressed :: "'l node \<Rightarrow> bool" where
  "node_compressed n \<longleftrightarrow> (nd_tip n = 0 \<longrightarrow> 2 \<le> length (nd_children n))"

fun node_inv ::
  "('l \<Rightarrow> 'h list) \<Rightarrow> ('l \<Rightarrow> bool) \<Rightarrow> (nat \<Rightarrow> bool) \<Rightarrow> 'h list \<Rightarrow> 'l node \<Rightarrow> bool" where
  "node_inv hist valid cutp p (Node s t b cs) \<longleftrightarrow>
     span_inv hist valid cutp p s \<and> b = t + sum_list (map nd_branch cs) \<and>
     distinct (map (\<lambda>c. hist (sp_ledger (nd_span c)) ! sp_end s) cs) \<and>
     (\<forall>c \<in> set cs. node_inv hist valid cutp (take (sp_end s) (hist (sp_ledger s))) c \<and>
        node_compressed c)"

definition seq_inv :: "'h list multiset \<Rightarrow> (nat \<times> nat) list \<Rightarrow> bool" where
  "seq_inv M m \<longleftrightarrow> sorted_wrt (<) (map fst m) \<and>
     (\<forall>s. case map_of m s of
            None \<Rightarrow> size (filter_mset (\<lambda>x. length x = Suc s) M) = 0
          | Some v \<Rightarrow> 0 < v \<and> v = size (filter_mset (\<lambda>x. length x = Suc s) M))"

definition trie_abs :: "('l \<Rightarrow> 'h list) \<Rightarrow> 'l trie \<Rightarrow> 'h list multiset" where
  "trie_abs hist T = node_abs hist (lt_root T)"

definition trie_inv ::
  "('l, 'id) ledger_ops \<Rightarrow> ('l \<Rightarrow> 'h list) \<Rightarrow> ('l \<Rightarrow> bool) \<Rightarrow> (nat \<Rightarrow> bool) \<Rightarrow> 'l trie \<Rightarrow> bool" where
  "trie_inv L hist valid cutp T \<longleftrightarrow>
     node_inv hist valid cutp [] (lt_root T) \<and> nd_span (lt_root T) = span_genesis L \<and>
     seq_inv (trie_abs hist T) (lt_seqSupport T)"

lemma node_inv_span: "node_inv hist valid cutp p n \<Longrightarrow> span_inv hist valid cutp p (nd_span n)"
  by (cases n) auto

lemma span_inv_hist:
  assumes "span_inv hist valid cutp p (nd_span n)"
  shows "length (node_hist hist n) = sp_end (nd_span n)"
    and "strict_prefix p (node_hist hist n)"
    and "take (length p) (node_hist hist n) = p"
proof -
  let ?H = "hist (sp_ledger (nd_span n))"
  show len: "length (node_hist hist n) = sp_end (nd_span n)"
    using assms by (simp add: span_inv_def node_hist_def)
  show t: "take (length p) (node_hist hist n) = p"
    using assms by (auto simp: span_inv_def node_hist_def min_def)
  have "prefix p (node_hist hist n)" by (metis t take_is_prefix)
  moreover have "p \<noteq> node_hist hist n" using len assms by (auto simp: span_inv_def)
  ultimately show "strict_prefix p (node_hist hist n)" by (simp add: prefix_order.less_le)
qed

lemma node_abs_prefix:
  "node_inv hist valid cutp p n \<Longrightarrow> x \<in># node_abs hist n \<Longrightarrow> prefix (node_hist hist n) x"
proof (induction n arbitrary: p)
  case (Node s t b cs)
  from Node.prems(2) consider "x = take (sp_end s) (hist (sp_ledger s))"
    | c where "c \<in> set cs" "x \<in># node_abs hist c"
    by (auto simp: in_sum_list_mset split: if_splits)
  then show ?case
  proof cases
    case (2 c)
    then have c: "node_inv hist valid cutp (take (sp_end s) (hist (sp_ledger s))) c"
      using Node.prems(1) by simp
    from Node.IH [OF 2(1) c 2(2)] span_inv_hist(2) [OF node_inv_span [OF c]]
    show ?thesis by (simp add: node_hist_def prefix_order.less_le) (metis prefix_order.trans)
  qed (simp add: node_hist_def)
qed

lemma node_branch_size:
  "node_inv hist valid cutp p n \<Longrightarrow> nd_branch n = size (node_abs hist n)"
proof (induction n arbitrary: p)
  case (Node s t b cs)
  then have "map nd_branch cs = map (\<lambda>c. size (node_abs hist c)) cs" by auto
  with Node.prems show ?case by (simp add: size_sum_list_mset comp_def)
qed

lemma child_span:
  assumes s: "span_inv hist valid cutp p s"
    and c: "span_inv hist valid cutp (take (sp_end s) (hist (sp_ledger s))) s'"
  shows "sp_start s' = sp_end s" "sp_end s < sp_end s'"
    "take (sp_end s) (hist (sp_ledger s')) = take (sp_end s) (hist (sp_ledger s))"
proof -
  have "length (take (sp_end s) (hist (sp_ledger s))) = sp_end s" using s by (simp add: span_inv_def)
  then show "sp_start s' = sp_end s" "sp_end s < sp_end s'"
    "take (sp_end s) (hist (sp_ledger s')) = take (sp_end s) (hist (sp_ledger s))"
    using c unfolding span_inv_def by metis+
qed

lemma node_inv_update:
  assumes n: "node_inv hist valid cutp p (Node s t b cs)" and i: "i < length cs"
    and c: "node_inv hist valid cutp (take (sp_end s) (hist (sp_ledger s))) c" "node_compressed c"
    and h: "hist (sp_ledger (nd_span c)) ! sp_end s = hist (sp_ledger (nd_span (cs ! i))) ! sp_end s"
    and b: "b' + size (node_abs hist (cs ! i)) = b + size (node_abs hist c)"
  shows "node_inv hist valid cutp p (Node s t b' (cs[i := c]))"
    and "node_abs hist (Node s t b' (cs[i := c])) + node_abs hist (cs ! i) =
      node_abs hist (Node s t b cs) + node_abs hist c"
proof -
  have br: "nd_branch c = size (node_abs hist c)" "nd_branch (cs ! i) = size (node_abs hist (cs ! i))"
    using node_branch_size n i c(1) by (metis node_inv.simps nth_mem)+
  have "sum_list (map nd_branch (cs[i := c])) + nd_branch (cs ! i) = sum_list (map nd_branch cs) + nd_branch c"
    using sum_list_update_add [of i "map nd_branch cs" "nd_branch c"] i by (simp add: map_update)
  then have "b' = t + sum_list (map nd_branch (cs[i := c]))" using b br n by simp
  moreover have "map (\<lambda>c. hist (sp_ledger (nd_span c)) ! sp_end s) (cs[i := c]) =
    map (\<lambda>c. hist (sp_ledger (nd_span c)) ! sp_end s) cs"
    using i h by (simp add: map_update list_update_same_conv)
  moreover have "\<forall>d \<in> set (cs[i := c]). node_inv hist valid cutp (take (sp_end s) (hist (sp_ledger s))) d \<and>
      node_compressed d"
    using n c set_update_subset_insert [of cs i c] by auto
  ultimately show "node_inv hist valid cutp p (Node s t b' (cs[i := c]))" using n by simp
  show "node_abs hist (Node s t b' (cs[i := c])) + node_abs hist (cs ! i) =
      node_abs hist (Node s t b cs) + node_abs hist c"
    using sum_list_update_add [of i "map (node_abs hist) cs" "node_abs hist c"] i
    by (simp add: map_update add_ac)
qed

lemma node_inv_erase:
  assumes n: "node_inv hist valid cutp p (Node s t b cs)" and i: "i < length cs"
    and b: "b' + size (node_abs hist (cs ! i)) = b"
  shows "node_inv hist valid cutp p (Node s t b' (node_erase i cs))"
    and "node_abs hist (Node s t b' (node_erase i cs)) + node_abs hist (cs ! i) =
      node_abs hist (Node s t b cs)"
proof -
  note m = mset_node_erase [OF i]
  have sum: "sum_list (map f (node_erase i cs)) + f (cs ! i) = sum_list (map f cs)"
    for f :: "'a node \<Rightarrow> 'c::comm_monoid_add"
    using arg_cong [OF m, of "\<lambda>M. sum_mset (image_mset f M)"]
    by (simp add: sum_mset_sum_list add_ac flip: mset_map)
  have sub: "set (node_erase i cs) \<subseteq> set cs"
    using arg_cong [OF m, of set_mset] by auto
  have "add_mset (f (cs ! i)) (mset (map f (node_erase i cs))) = mset (map f cs)"
    for f :: "'a node \<Rightarrow> 'b" using arg_cong [OF m, of "image_mset f"] by simp
  then have dist: "distinct (map f cs) \<Longrightarrow> distinct (map f (node_erase i cs))" for f :: "'a node \<Rightarrow> 'b"
    by (metis distinct.simps(2) mset.simps(2) mset_eq_imp_distinct_iff)
  have "nd_branch (cs ! i) = size (node_abs hist (cs ! i))"
    using node_branch_size n i by (metis node_inv.simps nth_mem)
  then have "b' = t + sum_list (map nd_branch (node_erase i cs))" using b n sum [of nd_branch] by simp
  then show "node_inv hist valid cutp p (Node s t b' (node_erase i cs))" using n dist sub by auto
  show "node_abs hist (Node s t b' (node_erase i cs)) + node_abs hist (cs ! i) = node_abs hist (Node s t b cs)"
    using sum [of "node_abs hist"] by (simp add: add_ac)
qed

text \<open>A node without tip support and its only child merge into one node of the parent.\<close>

lemma node_inv_merge:
  assumes "node_inv hist valid cutp p (Node s 0 b [g])"
  shows "node_inv hist valid cutp p (Node (span_merge s (nd_span g)) (nd_tip g) (nd_branch g) (nd_children g))"
    and "node_compressed (Node (span_merge s (nd_span g)) (nd_tip g) (nd_branch g) (nd_children g))"
    and "node_abs hist (Node (span_merge s (nd_span g)) (nd_tip g) (nd_branch g) (nd_children g)) =
      node_abs hist (Node s 0 b [g])"
    and "k < sp_end s \<Longrightarrow>
      hist (sp_ledger (span_merge s (nd_span g))) ! k = hist (sp_ledger s) ! k"
proof -
  obtain s' t' b' cs' where g: "g = Node s' t' b' cs'" by (cases g)
  let ?N = "take (sp_end s) (hist (sp_ledger s))"
  have s: "span_inv hist valid cutp p s" and s': "span_inv hist valid cutp ?N s'"
    using assms by (auto simp: g)
  note st = child_span [OF s s']
  have mg: "span_merge s s' = \<lparr>sp_start = sp_start s, sp_end = sp_end s', sp_ledger = sp_ledger s'\<rparr>"
    using s st by (auto simp: span_merge_def span_inv_def)
  have "take (sp_start s) (hist (sp_ledger s')) = p"
    using take_take_eq [OF st(3), of "sp_start s"] s by (auto simp: span_inv_def)
  then have ms: "span_inv hist valid cutp p (span_merge s s')"
    using s s' st by (auto simp: mg span_inv_def)
  show "node_inv hist valid cutp p (Node (span_merge s (nd_span g)) (nd_tip g) (nd_branch g) (nd_children g))"
    using assms ms by (simp add: g mg)
  show "node_compressed (Node (span_merge s (nd_span g)) (nd_tip g) (nd_branch g) (nd_children g))"
    using assms by (simp add: g node_compressed_def)
  show "node_abs hist (Node (span_merge s (nd_span g)) (nd_tip g) (nd_branch g) (nd_children g)) =
      node_abs hist (Node s 0 b [g])"
    by (simp add: g mg)
  show "k < sp_end s \<Longrightarrow> hist (sp_ledger (span_merge s (nd_span g))) ! k = hist (sp_ledger s) ! k"
    using nth_take_eq [OF st(3)] by (simp add: g mg)
qed

lemma remove_path_correct:
  assumes "node_inv hist valid cutp p n" "node_at n path = Some m" "node_hist hist m = h"
    and "c \<le> nd_tip m" "remove_path c path n = (n', go)"
  shows "node_inv hist valid cutp p n' \<and> node_abs hist n' + replicate_mset c h = node_abs hist n \<and>
    nd_span n' = nd_span n \<and>
    (node_compressed n \<longrightarrow> go \<and> nd_tip n' = 0 \<or> node_compressed n')"
  using assms
proof (induction path arbitrary: n p n' go)
  case Nil
  then obtain s t b cs where nn: "n = Node s t b cs" "m = n" by (cases n) auto
  with Nil have "c \<le> t" "n' = Node s (t - c) (b - c) cs" "go" by auto
  moreover from this have "replicate_mset (t - c) h + replicate_mset c h = replicate_mset t h"
    by (simp flip: replicate_mset_plus)
  ultimately show ?case using Nil nn by (auto simp: node_hist_def node_compressed_def add_ac)
next
  case (Cons i path)
  obtain s t b cs where nn: "n = Node s t b cs" by (cases n)
  let ?N = "take (sp_end s) (hist (sp_ledger s))"
  have i: "i < length cs" "node_at (cs ! i) path = Some m" using Cons.prems by (auto simp: nn split: if_splits)
  then have ci: "node_inv hist valid cutp ?N (cs ! i)" "node_compressed (cs ! i)"
    using Cons.prems by (auto simp: nn)
  obtain loc gl where rl: "remove_path c path (cs ! i) = (loc, gl)" by fastforce
  from Cons.IH [OF ci(1) i(2) Cons.prems(3,4) rl] ci(2)
  have loc: "node_inv hist valid cutp ?N loc" "node_abs hist loc + replicate_mset c h = node_abs hist (cs ! i)"
    "nd_span loc = nd_span (cs ! i)" "gl \<and> nd_tip loc = 0 \<or> node_compressed loc" by auto
  have le: "sp_end s < sp_end (nd_span loc)"
    using child_span(2) [OF _ node_inv_span [OF loc(1)], of p] Cons.prems(1) by (simp add: nn)
  have sz: "size (node_abs hist loc) + c = size (node_abs hist (cs ! i))"
    using arg_cong [OF loc(2), of size] by simp
  have "size (node_abs hist (cs ! i)) \<le> b"
    using node_branch_size [OF Cons.prems(1)] i(1) member_le_sum_list [of "size (node_abs hist (cs ! i))"
        "map size (map (node_abs hist) cs)"] by (auto simp: nn size_sum_list_mset)
  with sz have cb: "c \<le> b" "b - c + size (node_abs hist (cs ! i)) = b + size (node_abs hist loc)" by linarith+
  note prem = Cons.prems(1) [unfolded nn]
  consider (erase) "gl" "nd_tip loc = 0" "nd_children loc = []"
    | (merge) g where "gl" "nd_tip loc = 0" "nd_children loc = [g]"
    | (keep) "node_compressed loc" "remove_path c (i # path) n = (Node s t (b - c) (cs[i := loc]), False)"
    using loc(4) rl by (cases "nd_children loc" rule: remdups_adj.cases)
      (auto simp: nn node_compressed_def split: if_splits)
  then show ?case
  proof cases
    case erase
    then have "node_abs hist loc = {#}" by (cases loc) simp
    then have "node_inv hist valid cutp p (Node s t (b - c) (node_erase i cs))"
      "node_abs hist (Node s t (b - c) (node_erase i cs)) + replicate_mset c h = node_abs hist n"
      using node_inv_erase [OF prem i(1), of "b - c"] cb sz loc(2) by (simp_all add: nn)
    moreover have "n' = Node s t (b - c) (node_erase i cs)" "go"
      using erase Cons.prems(5) by (auto simp: nn rl)
    ultimately show ?thesis by (auto simp: nn node_compressed_def)
  next
    case (merge g)
    then obtain bl where locn: "loc = Node (nd_span loc) 0 bl [g]" by (cases loc) auto
    let ?g = "Node (span_merge (nd_span loc) (nd_span g)) (nd_tip g) (nd_branch g) (nd_children g)"
    have "node_inv hist valid cutp ?N (Node (nd_span loc) 0 bl [g])"
      by (rule subst [OF locn, of "node_inv hist valid cutp ?N"]) (rule loc(1))
    note mg = node_inv_merge [OF this]
    have "node_abs hist ?g = node_abs hist loc"
      using mg(3) arg_cong [OF locn, of "node_abs hist"] by argo
    moreover have "hist (sp_ledger (nd_span ?g)) ! sp_end s = hist (sp_ledger (nd_span (cs ! i))) ! sp_end s"
      using mg(4) [OF le] loc(3) by simp
    ultimately have "node_inv hist valid cutp p (Node s t (b - c) (cs[i := ?g]))"
      "node_abs hist (Node s t (b - c) (cs[i := ?g])) + node_abs hist (cs ! i) =
       node_abs hist (Node s t b cs) + node_abs hist loc"
      using node_inv_update [OF prem i(1) mg(1,2), of "b - c"] cb(2) by metis+
    moreover have "n' = Node s t (b - c) (cs[i := ?g])"
      using merge Cons.prems(5) by (auto simp: nn rl)
    ultimately show ?thesis using mset_exchange [OF _ loc(2)] by (simp add: nn node_compressed_def)
  next
    case keep
    have "node_inv hist valid cutp p (Node s t (b - c) (cs[i := loc]))"
      "node_abs hist (Node s t (b - c) (cs[i := loc])) + node_abs hist (cs ! i) =
       node_abs hist (Node s t b cs) + node_abs hist loc"
      using node_inv_update [OF prem i(1) loc(1) keep(1), of "b - c"] cb loc(3) by simp_all
    moreover have "n' = Node s t (b - c) (cs[i := loc])" using keep Cons.prems(5) by auto
    ultimately show ?thesis using mset_exchange [OF _ loc(2)] by (simp add: nn node_compressed_def)
  qed
qed

text \<open>The histories that extend the history of one child are all supported below this child.\<close>

lemma sum_list_single:
  "j < length xs \<Longrightarrow> (\<And>i. i < length xs \<Longrightarrow> i \<noteq> j \<Longrightarrow> xs ! i = 0) \<Longrightarrow>
   sum_list xs = (xs ! j :: 'a::comm_monoid_add)"
proof (induction xs arbitrary: j)
  case (Cons x xs)
  show ?case
  proof (cases j)
    case 0
    have "\<forall>y \<in> set xs. y = 0" using Cons.prems(2) [of "Suc _"] 0 by (auto simp: in_set_conv_nth)
    then have "sum_list xs = 0" by (induction xs) auto
    then show ?thesis using 0 by simp
  next
    case (Suc k)
    then show ?thesis using Cons.IH [of k] Cons.prems(1) Cons.prems(2) [of "Suc _"] Cons.prems(2) [of 0] by simp
  qed
qed simp

lemma filter_sum_list_mset: "filter_mset P (sum_list Ms) = sum_list (map (filter_mset P) Ms)"
  by (induction Ms) auto

lemma prefix_child:
  assumes n: "node_inv hist valid cutp p (Node s t b cs)" and c: "c \<in> set cs"
    and h: "prefix (node_hist hist c) h"
  shows "sp_end s < length h" "h ! sp_end s = hist (sp_ledger (nd_span c)) ! sp_end s"
    "take (sp_end s) h = take (sp_end s) (hist (sp_ledger s))"
proof -
  have cs: "span_inv hist valid cutp (take (sp_end s) (hist (sp_ledger s))) (nd_span c)"
    using n c by (auto dest: node_inv_span)
  note k = child_span [OF _ cs] span_inv_hist [OF cs]
  have s: "span_inv hist valid cutp p s" using n by simp
  obtain r where r: "h = node_hist hist c @ r" using h by (auto simp: prefix_def)
  show "sp_end s < length h" using k(2) [OF s] k(4) r by simp
  show "h ! sp_end s = hist (sp_ledger (nd_span c)) ! sp_end s"
    using k(2) [OF s] k(4) by (simp add: r nth_append node_hist_def)
  show "take (sp_end s) h = take (sp_end s) (hist (sp_ledger s))"
    using k(2,3) [OF s] k(4) by (simp add: r node_hist_def min_def)
qed

lemma filter_child:
  assumes n: "node_inv hist valid cutp p (Node s t b cs)" and j: "j < length cs"
    and h: "sp_end s < length h" "h ! sp_end s = hist (sp_ledger (nd_span (cs ! j))) ! sp_end s"
  shows "filter_mset (prefix h) (node_abs hist (Node s t b cs)) = filter_mset (prefix h) (node_abs hist (cs ! j))"
proof -
  have "\<not> prefix h (take (sp_end s) (hist (sp_ledger s)))"
    using h(1) prefix_length_le by fastforce
  moreover have "filter_mset (prefix h) (node_abs hist (cs ! i)) = {#}" if i: "i < length cs" "i \<noteq> j" for i
  proof (rule ccontr)
    assume "\<not> ?thesis"
    then obtain x where x: "x \<in># node_abs hist (cs ! i)" "prefix h x" by (auto elim: multiset_nonemptyE)
    have "prefix (node_hist hist (cs ! i)) x" using node_abs_prefix [OF _ x(1)] n i nth_mem by fastforce
    from prefix_child(2) [OF n nth_mem [OF i(1)] this]
    have "hist (sp_ledger (nd_span (cs ! i))) ! sp_end s = hist (sp_ledger (nd_span (cs ! j))) ! sp_end s"
      using h x(2) by (auto simp: prefix_def nth_append)
    then show False using n i j by (auto simp: distinct_conv_nth)
  qed
  then have "sum_list (map (filter_mset (prefix h)) (map (node_abs hist) cs)) = filter_mset (prefix h) (node_abs hist (cs ! j))"
    using sum_list_single [of j "map (filter_mset (prefix h)) (map (node_abs hist) cs)"] j by simp
  ultimately show ?thesis by (simp add: filter_replicate_mset filter_sum_list_mset)
qed

section \<open>The support per sequence number\<close>

lemma seq_add_keys: "fst ` set (seq_add s c m) = insert s (fst ` set m)"
  by (induction s c m rule: seq_add.induct) auto

lemma seq_add_sorted: "sorted_wrt (<) (map fst m) \<Longrightarrow> sorted_wrt (<) (map fst (seq_add s c m))"
  using seq_add_keys by (induction s c m rule: seq_add.induct) (force simp: image_iff)+

lemma map_of_keys: "sorted_wrt (<) ((k::nat) # map fst m) \<Longrightarrow> s \<le> k \<Longrightarrow> map_of m s = None"
  by (fastforce simp: map_of_eq_None_iff)

lemma map_of_seq_add:
  "sorted_wrt (<) (map fst m) \<Longrightarrow>
   map_of (seq_add s c m) = (map_of m)(s \<mapsto> (case map_of m s of None \<Rightarrow> c | Some v \<Rightarrow> v + c))"
  by (induction s c m rule: seq_add.induct) (auto simp: map_of_keys fun_upd_twist)

lemma seq_sub_keys: "fst ` set (seq_sub s c m) \<subseteq> fst ` set m"
  by (induction s c m rule: seq_sub.induct) auto

lemma seq_sub_sorted: "sorted_wrt (<) (map fst m) \<Longrightarrow> sorted_wrt (<) (map fst (seq_sub s c m))"
proof (induction s c m rule: seq_sub.induct)
  case (2 s c k v m)
  then show ?case using seq_sub_keys [of s c m] by (auto simp: image_subset_iff) (metis fst_conv image_iff)
qed simp

lemma map_of_seq_sub:
  "sorted_wrt (<) (map fst m) \<Longrightarrow> map_of m s = Some v \<Longrightarrow>
   map_of (seq_sub s c m) = (map_of m)(s := (if v - c = 0 then None else Some (v - c)))"
proof (induction s c m rule: seq_sub.induct)
  case (2 s c k v' m)
  then show ?case using map_of_keys [of k m k] by (auto simp: fun_eq_iff)
qed simp

lemma seq_invD:
  "seq_inv M m \<Longrightarrow> case map_of m s of
      None \<Rightarrow> size (filter_mset (\<lambda>x. length x = Suc s) M) = 0
    | Some v \<Rightarrow> 0 < v \<and> v = size (filter_mset (\<lambda>x. length x = Suc s) M)"
  by (simp add: seq_inv_def)

lemma seq_inv_add:
  assumes "seq_inv M m" "0 < k" "length h = Suc s"
  shows "seq_inv (M + replicate_mset k h) (seq_add s k m)"
proof -
  have so: "sorted_wrt (<) (map fst m)" using assms by (simp add: seq_inv_def)
  have "case map_of (seq_add s k m) x of
        None \<Rightarrow> size (filter_mset (\<lambda>x'. length x' = Suc x) (M + replicate_mset k h)) = 0
      | Some v \<Rightarrow> 0 < v \<and> v = size (filter_mset (\<lambda>x'. length x' = Suc x) (M + replicate_mset k h))" for x
    using assms(2,3) seq_invD [OF assms(1), of x] so
    by (cases "x = s") (auto simp: map_of_seq_add filter_replicate_mset split: option.splits)
  then show ?thesis using so by (simp add: seq_inv_def seq_add_sorted)
qed

lemma seq_inv_sub:
  assumes "seq_inv (M + replicate_mset k h) m" "0 < k" "length h = Suc s"
  shows "seq_inv M (seq_sub s k m)"
proof -
  have so: "sorted_wrt (<) (map fst m)" using assms by (simp add: seq_inv_def)
  have "case map_of m s of None \<Rightarrow> False | Some v \<Rightarrow> v = size (filter_mset (\<lambda>x. length x = Suc s) M) + k"
    using seq_invD [OF assms(1), of s] assms(2,3)
    by (auto simp: filter_replicate_mset split: option.splits)
  then obtain v where v: "map_of m s = Some v" "v = size (filter_mset (\<lambda>x. length x = Suc s) M) + k"
    by (auto split: option.splits)
  have "case map_of (seq_sub s k m) x of
        None \<Rightarrow> size (filter_mset (\<lambda>x'. length x' = Suc x) M) = 0
      | Some v \<Rightarrow> 0 < v \<and> v = size (filter_mset (\<lambda>x'. length x' = Suc x) M)" for x
    using assms(2,3) seq_invD [OF assms(1), of x] v
    by (cases "x = s")
      (auto simp: map_of_seq_sub [OF so v(1)] filter_replicate_mset split: option.splits
        simp del: size_eq_0_iff_empty)
  then show ?thesis using so by (simp add: seq_inv_def seq_sub_sorted)
qed

section \<open>Ledgers with unique histories\<close>

lemma find_children_cases:
  assumes "find_children L l pos i cs = (path, q)"
  obtains (none) "path = []" "q = pos" "\<forall>c \<in> set cs. span_diff L (nd_span c) l \<le> pos"
  | (some) j p where "j < length cs" "path = (i + j) # p" "pos < span_diff L (nd_span (cs ! j)) l"
      "find_node L l (span_diff L (nd_span (cs ! j)) l) (cs ! j) = (p, q)"
  using assms
proof (induction cs arbitrary: i thesis)
  case (Cons c cs)
  show ?case
  proof (cases "pos < span_diff L (nd_span c) l")
    case True
    with Cons.prems(3) show ?thesis
      by (auto simp: Let_def split: prod.splits intro!: Cons.prems(2) [of 0])
  next
    case False
    with Cons.prems(3) have rest: "find_children L l pos (Suc i) cs = (path, q)" by simp
    show ?thesis
    proof (rule Cons.IH [OF _ _ rest])
      assume "path = []" "q = pos" "\<forall>c \<in> set cs. span_diff L (nd_span c) l \<le> pos"
      with False show thesis by (intro Cons.prems(1)) auto
    next
      fix j p
      assume "j < length cs" "path = (Suc i + j) # p" "pos < span_diff L (nd_span (cs ! j)) l"
        "find_node L l (span_diff L (nd_span (cs ! j)) l) (cs ! j) = (p, q)"
      then show thesis by (intro Cons.prems(2) [of "Suc j" p]) auto
    qed
  qed
qed simp

locale ledger_history =
  fixes L :: "('l, 'h::linorder) ledger_ops"
    and valid :: "'l \<Rightarrow> bool"
    and hist :: "'l \<Rightarrow> 'h list"
    and cutp :: "nat \<Rightarrow> bool"
  assumes genesis_valid: "valid (lo_genesis L)"
    and genesis_seq: "lo_seq L (lo_genesis L) = 0"
    and hist_length: "valid a \<Longrightarrow> length (hist a) = Suc (lo_seq L a)"
    and common_root: "valid a \<Longrightarrow> hist a ! 0 = hist (lo_genesis L) ! 0"
    and mismatch_lcp: "valid a \<Longrightarrow> valid b \<Longrightarrow> lo_mismatch L a b = lcp_len (hist a) (hist b)"
    and cut_mismatch: "valid a \<Longrightarrow> valid b \<Longrightarrow> cutp (lo_mismatch L a b - 1)"
    and cut_self: "valid a \<Longrightarrow> cutp (lo_seq L a)"
    and id_at: "valid a \<Longrightarrow> valid b \<Longrightarrow> cutp s \<Longrightarrow> s \<le> lo_seq L b \<Longrightarrow>
      lo_at L b s = lo_id L a \<longleftrightarrow> take (Suc s) (hist b) = hist a"
    and at_branch: "valid a \<Longrightarrow> valid b \<Longrightarrow> lo_mismatch L a b = s \<Longrightarrow> s \<le> lo_seq L a \<Longrightarrow>
      s \<le> lo_seq L b \<Longrightarrow> lo_at L a s = hist a ! s"
begin

lemma span_diff_eq:
  assumes "span_inv hist valid cutp p s" "valid l"
  shows "span_diff L s l = min (max (length p) (lcp_len (hist (sp_ledger s)) (hist l))) (sp_end s)"
  using assms by (simp add: span_diff_def span_clamp_def span_inv_def mismatch_lcp)

lemma span_diff_gt_iff:
  assumes s: "span_inv hist valid cutp p s" and l: "valid l" and p: "prefix p (hist l)"
  shows "length p < span_diff L s l \<longleftrightarrow>
    length p < length (hist l) \<and> hist (sp_ledger s) ! length p = hist l ! length p"
proof -
  have "take (length p) (hist l) = p" using p by (auto simp: prefix_def)
  then have "length p < lcp_len (hist (sp_ledger s)) (hist l) \<longleftrightarrow>
    length p < length (hist l) \<and> hist (sp_ledger s) ! length p = hist l ! length p"
    using s p by (subst less_lcp_len_iff) (auto simp: span_inv_def dest: prefix_length_le)
  then show ?thesis using s by (auto simp: span_diff_eq [OF s l] span_inv_def)
qed

text \<open>What an insertion below a node keeps: its place in the parent and the compression.\<close>

lemma insert_loc_split:
  assumes n: "node_inv hist valid cutp p n" and c: "node_compressed n" and l: "valid l" and pos: "0 < k"
    and q: "q = span_diff L (nd_span n) l" "length p < q" "q < sp_end (nd_span n)"
  shows "node_inv hist valid cutp p (insert_loc L l k q n) \<and>
    node_abs hist (insert_loc L l k q n) = node_abs hist n + replicate_mset k (hist l) \<and>
    node_compressed (insert_loc L l k q n) \<and>
    sp_ledger (nd_span (insert_loc L l k q n)) = sp_ledger (nd_span n)"
proof -
  obtain s t b cs where nn: "n = Node s t b cs" by (cases n)
  define H where "H = hist (sp_ledger s)"
  have s: "span_inv hist valid cutp p s" using n nn by simp
  then have si: "sp_start s = length p" "sp_end s \<le> length H" "take (length p) H = p"
    "valid (sp_ledger s)" "cutp (sp_end s - 1)" by (auto simp: span_inv_def H_def)
  have ql: "q = lcp_len H (hist l)" using q by (auto simp: nn span_diff_eq [OF s l] H_def min_def max_def split: if_splits)
  have qh: "q \<le> length (hist l)" "take q H = take q (hist l)"
    by (simp_all add: ql lcp_len_le take_lcp_len)
  have cq: "cutp (q - 1)"
    using cut_mismatch [OF si(4) l] by (simp add: mismatch_lcp [OF si(4) l] ql H_def)
  have old: "span_from s q = Some \<lparr>sp_start = q, sp_end = sp_end s, sp_ledger = sp_ledger s\<rparr>"
    and pre: "span_before s q = Some \<lparr>sp_start = length p, sp_end = q, sp_ledger = sp_ledger s\<rparr>"
    using q si by (auto simp: nn span_from_def span_before_def span_sub_def span_clamp_def)
  have new: "span_from (span_of L l) q =
    (if q < length (hist l) then Some \<lparr>sp_start = q, sp_end = length (hist l), sp_ledger = l\<rparr> else None)"
    using qh hist_length [OF l] by (auto simp: span_from_def span_sub_def span_clamp_def span_of_def)
  have os: "node_inv hist valid cutp (take q H) (Node \<lparr>sp_start = q, sp_end = sp_end s, sp_ledger = sp_ledger s\<rparr> t b cs)"
    using n q si by (simp add: nn span_inv_def H_def [symmetric])
  show ?thesis
  proof (cases "q < length (hist l)")
    case True
    have "H ! q \<noteq> hist l ! q" using nth_lcp_len [of H "hist l"] True q si by (simp add: ql [symmetric] nn)
    moreover have "span_inv hist valid cutp (take q H) \<lparr>sp_start = q, sp_end = length (hist l), sp_ledger = l\<rparr>"
      using True l qh cut_self [OF l] hist_length [OF l] by (simp add: span_inv_def)
    moreover have "insert_loc L l k q n = Node \<lparr>sp_start = length p, sp_end = q, sp_ledger = sp_ledger s\<rparr> 0 (b + k)
      [Node \<lparr>sp_start = q, sp_end = sp_end s, sp_ledger = sp_ledger s\<rparr> t b cs,
       Node \<lparr>sp_start = q, sp_end = length (hist l), sp_ledger = l\<rparr> k k []]"
      using True by (simp add: insert_loc_def nn old pre new Let_def)
    ultimately show ?thesis
      using n c os True q(2,3) si cq pos
      by (simp add: nn span_inv_def H_def [symmetric] node_compressed_def add_ac)
  next
    case False
    then have "take q H = hist l" using qh by simp
    moreover have "insert_loc L l k q n = Node \<lparr>sp_start = length p, sp_end = q, sp_ledger = sp_ledger s\<rparr> k (b + k)
      [Node \<lparr>sp_start = q, sp_end = sp_end s, sp_ledger = sp_ledger s\<rparr> t b cs]"
      using False by (simp add: insert_loc_def nn old pre new Let_def)
    ultimately show ?thesis
      using n c os q(2,3) si cq pos
      by (simp add: nn span_inv_def H_def [symmetric] node_compressed_def add_ac)
  qed
qed

lemma insert_loc_whole:
  assumes n: "node_inv hist valid cutp p n" and l: "valid l" and pos: "0 < k"
    and pre: "prefix (node_hist hist n) (hist l)"
    and fresh: "\<forall>c \<in> set (nd_children n). span_diff L (nd_span c) l \<le> sp_end (nd_span n)"
    and q: "q = sp_end (nd_span n)"
  shows "node_inv hist valid cutp p (insert_loc L l k q n) \<and>
    node_abs hist (insert_loc L l k q n) = node_abs hist n + replicate_mset k (hist l) \<and>
    (node_compressed n \<longrightarrow> node_compressed (insert_loc L l k q n)) \<and>
    nd_span (insert_loc L l k q n) = nd_span n"
proof -
  obtain s t b cs where nn: "n = Node s t b cs" by (cases n)
  have s: "span_inv hist valid cutp p s" using n nn by simp
  define N where "N = take (sp_end s) (hist (sp_ledger s))"
  have N: "node_hist hist n = N" "length N = q"
    using s q by (auto simp: N_def nn node_hist_def span_inv_def)
  have qh: "q \<le> length (hist l)" using pre N prefix_length_le by metis
  have tq: "take q (hist l) = N" using pre N by (auto simp: prefix_def)
  have old: "span_from s q = None" using s q
    by (auto simp: nn span_from_def span_sub_def span_clamp_def span_inv_def)
  have new: "span_from (span_of L l) q =
    (if q < length (hist l) then Some \<lparr>sp_start = q, sp_end = length (hist l), sp_ledger = l\<rparr> else None)"
    using qh hist_length [OF l] by (auto simp: span_from_def span_sub_def span_clamp_def span_of_def)
  show ?thesis
  proof (cases "q < length (hist l)")
    case True
    have leaf: "span_inv hist valid cutp N \<lparr>sp_start = q, sp_end = length (hist l), sp_ledger = l\<rparr>"
      using True l tq N(2) cut_self [OF l] hist_length [OF l] by (auto simp: span_inv_def)
    have "hist (sp_ledger (nd_span c)) ! q \<noteq> hist l ! q" if "c \<in> set cs" for c
    proof -
      have "span_inv hist valid cutp N (nd_span c)" using that n nn by (auto simp: N_def dest: node_inv_span)
      from span_diff_gt_iff [OF this l] pre N fresh that True q show ?thesis by (auto simp: nn not_le)
    qed
    then have "hist l ! q \<notin> (\<lambda>c. hist (sp_ledger (nd_span c)) ! sp_end s) ` set cs"
      using q by (metis (no_types, lifting) imageE nn node.sel(1))
    moreover have "insert_loc L l k q n = Node s t (b + k)
      (cs @ [Node \<lparr>sp_start = q, sp_end = length (hist l), sp_ledger = l\<rparr> k k []])"
      using True by (simp add: insert_loc_def nn old new Let_def)
    ultimately show ?thesis using n leaf q pos
      by (simp add: nn N_def [symmetric] node_compressed_def add_ac) linarith
  next
    case False
    then have "N = hist l" using tq by simp
    moreover have "insert_loc L l k q n = Node s (t + k) (b + k) cs"
      using False by (simp add: insert_loc_def nn old new Let_def)
    ultimately show ?thesis using n pos
      by (simp add: nn N_def [symmetric] node_compressed_def add_ac replicate_mset_plus)
  qed
qed

lemma insert_path_correct:
  assumes "node_inv hist valid cutp p n" "valid l" "0 < k" "prefix p (hist l)"
    and "length p < span_diff L (nd_span n) l"
    and "node_compressed n \<or> span_diff L (nd_span n) l = sp_end (nd_span n)"
    and "find_node L l (span_diff L (nd_span n) l) n = (path, q)"
  shows "node_inv hist valid cutp p (insert_path L l k q path n) \<and>
    node_abs hist (insert_path L l k q path n) = node_abs hist n + replicate_mset k (hist l) \<and>
    (node_compressed n \<longrightarrow> node_compressed (insert_path L l k q path n)) \<and>
    sp_ledger (nd_span (insert_path L l k q path n)) = sp_ledger (nd_span n) \<and>
    (span_diff L (nd_span n) l = sp_end (nd_span n) \<longrightarrow> nd_span (insert_path L l k q path n) = nd_span n)"
  using assms
proof (induction n arbitrary: p path)
  case (Node s t b cs)
  note prems = Node.prems
  let ?d = "span_diff L s l"
  have s: "span_inv hist valid cutp p s" using prems by simp
  have dle: "?d \<le> sp_end s" using s by (auto simp: span_diff_def span_clamp_def)
  show ?case
  proof (cases "?d = sp_end s")
    case False
    with prems have "path = []" "q = ?d" by auto
    with False prems dle show ?thesis
      using insert_loc_split [of p "Node s t b cs" l k q] by auto
  next
    case True
    with prems have fc: "find_children L l ?d 0 cs = (path, q)" by simp
    define N where "N = take (sp_end s) (hist (sp_ledger s))"
    have "sp_end s \<le> lcp_len (hist (sp_ledger s)) (hist l)"
      using True prems(5) s by (auto simp: span_diff_eq [OF s prems(2)] min_def max_def split: if_splits)
    then have N: "prefix N (hist l)" "length N = sp_end s" "node_hist hist (Node s t b cs) = N"
      using s by (auto simp: N_def node_hist_def span_inv_def le_lcp_len_iff take_is_prefix)
    show ?thesis
      using fc
    proof (cases rule: find_children_cases)
      case none
      then show ?thesis
        using insert_loc_whole [of p "Node s t b cs" l k q] prems True N by simp
    next
      case (some j p')
      have ci: "node_inv hist valid cutp N (cs ! j)" "node_compressed (cs ! j)"
        using prems(1) some(1) by (auto simp: N_def)
      let ?c' = "insert_path L l k q p' (cs ! j)"
      have IH: "node_inv hist valid cutp N ?c' \<and>
        node_abs hist ?c' = node_abs hist (cs ! j) + replicate_mset k (hist l) \<and>
        node_compressed ?c' \<and> sp_ledger (nd_span ?c') = sp_ledger (nd_span (cs ! j))"
        using Node.IH [OF nth_mem [OF some(1)] ci(1) prems(2,3) N(1) _ _ some(4)] some(3) ci(2) True N(2)
        by simp
      have "node_inv hist valid cutp p (Node s t (b + k) (cs[j := ?c']))"
        "node_abs hist (Node s t (b + k) (cs[j := ?c'])) + node_abs hist (cs ! j) =
         node_abs hist (Node s t b cs) + node_abs hist ?c'"
        using node_inv_update [OF prems(1) some(1), of ?c' "b + k"] IH by (simp_all add: N_def)
      with IH some(2) show ?thesis by (simp add: node_compressed_def add_ac)
    qed
  qed
qed

lemma tip_id_iff:
  assumes "span_inv hist valid cutp p s" "valid l"
  shows "lo_id L l = st_id (span_tipOf L s) \<longleftrightarrow> take (sp_end s) (hist (sp_ledger s)) = hist l"
  using assms id_at [of l "sp_ledger s" "sp_end s - 1"] hist_length [of "sp_ledger s"]
  by (auto simp: span_inv_def span_tipOf_def)

lemma find_id_children_Some:
  "find_id_children L x i cs = Some path \<Longrightarrow>
   \<exists>j < length cs. \<exists>p. path = (i + j) # p \<and> find_id_node L x (cs ! j) = Some p"
proof (induction cs arbitrary: i)
  case (Cons c cs)
  show ?case
  proof (cases "find_id_node L x c")
    case None
    with Cons.prems have "find_id_children L x (Suc i) cs = Some path" by simp
    from Cons.IH [OF this] obtain j p where "j < length cs" "path = (Suc i + j) # p"
      "find_id_node L x (cs ! j) = Some p" by blast
    then show ?thesis by (intro exI [of _ "Suc j"]) auto
  next
    case (Some p)
    with Cons.prems show ?thesis by (intro exI [of _ 0]) auto
  qed
qed simp

lemma find_id_children_None:
  "find_id_children L x i cs = None \<Longrightarrow> c \<in> set cs \<Longrightarrow> find_id_node L x c = None"
  by (induction cs arbitrary: i) (auto split: option.splits)

lemma find_id_node_Some:
  assumes "node_inv hist valid cutp p n" "valid l" "find_id_node L (lo_id L l) n = Some path"
  shows "\<exists>m. node_at n path = Some m \<and> node_hist hist m = hist l \<and> prefix (node_hist hist n) (hist l) \<and>
    filter_mset (prefix (hist l)) (node_abs hist n) = node_abs hist m \<and>
    count (node_abs hist n) (hist l) = nd_tip m \<and> nd_branch m = size (node_abs hist m)"
  using assms
proof (induction n arbitrary: p path)
  case (Node s t b cs)
  note prems = Node.prems
  let ?N = "take (sp_end s) (hist (sp_ledger s))"
  have s: "span_inv hist valid cutp p s" using prems by simp
  show ?case
  proof (cases "?N = hist l")
    case True
    then have "path = []" using prems tip_id_iff [OF s prems(2)] by simp
    moreover have pre: "prefix (hist l) x" if "x \<in># node_abs hist (Node s t b cs)" for x
      using node_abs_prefix [OF prems(1) that] by (simp add: node_hist_def True)
    then have "filter_mset (prefix (hist l)) (node_abs hist (Node s t b cs)) = node_abs hist (Node s t b cs)"
      using filter_mset_cong [of _ _ "prefix (hist l)" "\<lambda>_. True"] by fastforce
    moreover have "hist l \<notin># node_abs hist c" if c: "c \<in> set cs" for c
    proof
      assume "hist l \<in># node_abs hist c"
      from prefix_child(1) [OF prems(1) c node_abs_prefix [OF _ this]] prems(1) c
      have "sp_end s < length (hist l)" by auto
      then show False using arg_cong [OF True, of length] by simp
    qed
    then have "count (node_abs hist (Node s t b cs)) (hist l) = t"
      by (auto simp: True count_eq_zero_iff in_sum_list_mset)
    moreover have "b = size (node_abs hist (Node s t b cs))" using node_branch_size [OF prems(1)] by simp
    ultimately show ?thesis by (intro exI [of _ "Node s t b cs"]) (simp add: node_hist_def True)
  next
    case False
    then have "find_id_children L (lo_id L l) 0 cs = Some path"
      using prems tip_id_iff [OF s prems(2)] by simp
    from find_id_children_Some [OF this] obtain j p' where j: "j < length cs" "path = j # p'"
      "find_id_node L (lo_id L l) (cs ! j) = Some p'" by auto
    have cj: "node_inv hist valid cutp ?N (cs ! j)" using prems(1) j(1) by simp
    from Node.IH [OF nth_mem [OF j(1)] cj prems(2) j(3)] obtain m where
      m: "node_at (cs ! j) p' = Some m" "node_hist hist m = hist l" "prefix (node_hist hist (cs ! j)) (hist l)"
      "filter_mset (prefix (hist l)) (node_abs hist (cs ! j)) = node_abs hist m"
      "count (node_abs hist (cs ! j)) (hist l) = nd_tip m" "nd_branch m = size (node_abs hist m)" by blast
    note f = filter_child [OF prems(1) j(1) prefix_child(1,2) [OF prems(1) nth_mem [OF j(1)] m(3)]]
    have "count (node_abs hist (Node s t b cs)) (hist l) = count (node_abs hist (cs ! j)) (hist l)"
      using arg_cong [OF f, of "\<lambda>M. count M (hist l)"] by (simp del: node_abs.simps)
    moreover have "prefix (node_hist hist (Node s t b cs)) (hist l)"
      using prefix_child(3) [OF prems(1) nth_mem [OF j(1)] m(3)]
      by (metis node.sel(1) node_hist_def take_is_prefix)
    ultimately show ?thesis using j m f by (intro exI [of _ m]) (simp del: node_abs.simps)
  qed
qed

lemma find_id_node_None:
  assumes "node_inv hist valid cutp p n" "valid l" "find_id_node L (lo_id L l) n = None"
  shows "hist l \<notin># node_abs hist n"
  using assms
proof (induction n arbitrary: p)
  case (Node s t b cs)
  have s: "span_inv hist valid cutp p s" using Node.prems by simp
  have "take (sp_end s) (hist (sp_ledger s)) \<noteq> hist l" and fc: "find_id_children L (lo_id L l) 0 cs = None"
    using Node.prems tip_id_iff [OF s Node.prems(2)] by (auto split: if_splits)
  moreover have "hist l \<notin># node_abs hist c" if "c \<in> set cs" for c
    using Node.IH [OF that _ Node.prems(2) find_id_children_None [OF fc that]] Node.prems(1) that by auto
  ultimately show ?case by (auto simp: in_sum_list_mset)
qed

lemma trie_insert_correct:
  assumes T: "trie_inv L hist valid cutp T" and l: "valid l" and k: "0 < k"
  shows "trie_inv L hist valid cutp (trie_insert L l k T)"
    and "trie_abs hist (trie_insert L l k T) = trie_abs hist T + replicate_mset k (hist l)"
proof -
  let ?r = "lt_root T"
  have r: "node_inv hist valid cutp [] ?r" "nd_span ?r = span_genesis L"
    "seq_inv (trie_abs hist T) (lt_seqSupport T)" using T by (auto simp: trie_inv_def)
  have s: "span_inv hist valid cutp [] (nd_span ?r)" by (rule node_inv_span [OF r(1)])
  have "0 < span_diff L (nd_span ?r) l"
    using span_diff_gt_iff [OF s l] common_root [OF l] hist_length [OF l] r(2) by (simp add: span_genesis_def)
  moreover have "span_diff L (nd_span ?r) l \<le> 1" by (simp add: span_diff_def span_clamp_def r(2) span_genesis_def)
  ultimately have d: "span_diff L (nd_span ?r) l = sp_end (nd_span ?r)" by (simp add: r(2) span_genesis_def)
  obtain path q where f: "find_node L l (span_diff L (nd_span ?r) l) ?r = (path, q)" by fastforce
  note ins = insert_path_correct [OF r(1) l k _ _ _ f]
  have "seq_inv (trie_abs hist T + replicate_mset k (hist l)) (seq_add (lo_seq L l) k (lt_seqSupport T))"
    by (rule seq_inv_add [OF r(3) k]) (rule hist_length [OF l])
  with ins d f r(2) show "trie_inv L hist valid cutp (trie_insert L l k T)"
    "trie_abs hist (trie_insert L l k T) = trie_abs hist T + replicate_mset k (hist l)"
    by (auto simp: trie_inv_def trie_insert_def trie_find_def trie_abs_def span_genesis_def)
qed

lemma trie_remove_correct:
  assumes T: "trie_inv L hist valid cutp T" and l: "valid l" and k: "0 < k"
    and rm: "trie_remove L l k T = (T', ok)"
  shows "trie_inv L hist valid cutp T' \<and>
    trie_abs hist T' = trie_abs hist T - replicate_mset k (hist l) \<and>
    (ok \<longleftrightarrow> hist l \<in># trie_abs hist T)"
proof -
  let ?r = "lt_root T"
  have r: "node_inv hist valid cutp [] ?r" "nd_span ?r = span_genesis L"
    "seq_inv (trie_abs hist T) (lt_seqSupport T)" using T by (auto simp: trie_inv_def)
  show ?thesis
  proof (cases "hist l \<in># trie_abs hist T")
    case False
    then have none: "trie_abs hist T - replicate_mset k (hist l) = trie_abs hist T"
      by (auto intro!: multiset_eqI simp: not_in_iff)
    have "trie_remove L l k T = (T, False)"
    proof (cases "findByLedgerID L T l")
      case (Some path)
      with find_id_node_Some [OF r(1) l, of path] False show ?thesis
        by (auto simp: trie_remove_def findByLedgerID_def trie_abs_def not_in_iff)
    qed (simp add: trie_remove_def)
    then show ?thesis using rm T False none by simp
  next
    case True
    then obtain path where fid: "findByLedgerID L T l = Some path"
      using find_id_node_None [OF r(1) l] by (cases "findByLedgerID L T l") (auto simp: trie_abs_def findByLedgerID_def)
    then obtain m where m: "node_at ?r path = Some m" "node_hist hist m = hist l"
      "count (trie_abs hist T) (hist l) = nd_tip m"
      using find_id_node_Some [OF r(1) l] by (fastforce simp: findByLedgerID_def trie_abs_def)
    define c where "c = min k (nd_tip m)"
    have c: "0 < c" "c \<le> nd_tip m" using True k m(3) count_greater_zero_iff [of "trie_abs hist T" "hist l"] by (auto simp: c_def)
    obtain n' go where rp: "remove_path c path ?r = (n', go)" by fastforce
    note rc = remove_path_correct [OF r(1) m(1,2) c(2) rp]
    have T': "T' = T\<lparr>lt_root := n', lt_seqSupport := seq_sub (lo_seq L l) c (lt_seqSupport T)\<rparr>" "ok"
      using rm fid m(1) c rp by (auto simp: trie_remove_def c_def [symmetric] Let_def)
    have "seq_inv (node_abs hist n') (seq_sub (lo_seq L l) c (lt_seqSupport T))"
      using seq_inv_sub [OF _ c(1) hist_length [OF l]] r(3) rc by (metis trie_abs_def)
    then have inv: "trie_inv L hist valid cutp T'" using rc r(2) by (simp add: trie_inv_def trie_abs_def T')
    have "node_abs hist n' = trie_abs hist T - replicate_mset c (hist l)"
      using rc by (metis add_diff_cancel_right' trie_abs_def)
    also have "\<dots> = trie_abs hist T - replicate_mset k (hist l)"
      using m(3) by (intro multiset_eqI) (auto simp: c_def)
    finally show ?thesis using inv True T' by (simp add: trie_abs_def)
  qed
qed

lemma trie_tipSupport_correct:
  assumes "trie_inv L hist valid cutp T" "valid l"
  shows "trie_tipSupport L T l = count (trie_abs hist T) (hist l)"
proof -
  have r: "node_inv hist valid cutp [] (lt_root T)" using assms by (simp add: trie_inv_def)
  show ?thesis
  proof (cases "findByLedgerID L T l")
    case None
    then show ?thesis using find_id_node_None [OF r assms(2)]
      by (simp add: trie_tipSupport_def trie_abs_def findByLedgerID_def not_in_iff)
  next
    case (Some path)
    then show ?thesis using find_id_node_Some [OF r assms(2), of path]
      by (auto simp: trie_tipSupport_def trie_abs_def findByLedgerID_def)
  qed
qed

lemma find_node_branch:
  assumes "node_inv hist valid cutp p n" "valid l" "prefix p (hist l)"
    and "length p < span_diff L (nd_span n) l"
    and "find_node L l (span_diff L (nd_span n) l) n = (path, q)"
  shows "\<exists>m. node_at n path = Some m \<and> q \<le> sp_end (nd_span m) \<and> nd_branch m = size (node_abs hist m) \<and>
    filter_mset (prefix (hist l)) (node_abs hist n) = (if length (hist l) \<le> q then node_abs hist m else {#})"
  using assms
proof (induction n arbitrary: p path)
  case (Node s t b cs)
  note prems = Node.prems
  let ?n = "Node s t b cs" and ?d = "span_diff L s l" and ?N = "take (sp_end s) (hist (sp_ledger s))"
  have s: "span_inv hist valid cutp p s" using prems by simp
  have dle: "?d \<le> sp_end s" by (auto simp: span_diff_def span_clamp_def)
  have ext: "\<exists>r. x = ?N @ r" if "x \<in># node_abs hist ?n" for x
    using node_abs_prefix [OF prems(1) that] by (auto simp: node_hist_def prefix_def)
  have lenN: "length ?N = sp_end s" using s by (simp add: span_inv_def)
  have dl: "?d \<le> lcp_len (hist (sp_ledger s)) (hist l)"
    using prems(4) by (auto simp: span_diff_eq [OF s prems(2)])
  have inside: "filter_mset (prefix (hist l)) (node_abs hist ?n) = node_abs hist ?n" if "length (hist l) \<le> ?d"
  proof -
    have "hist l = take (length (hist l)) (hist (sp_ledger s))"
      using take_lcp_len [OF order_trans [OF that dl]] by simp
    then have "prefix (hist l) ?N" using that dle
      by (metis min.absorb1 order_trans take_is_prefix take_take)
    then have "prefix (hist l) x" if "x \<in># node_abs hist ?n" for x
      using ext [OF that] by (auto intro: prefix_order.trans)
    then show ?thesis using filter_mset_cong [of _ _ "prefix (hist l)" "\<lambda>_. True"] by fastforce
  qed
  have br: "b = size (node_abs hist ?n)" using node_branch_size [OF prems(1)] by simp
  show ?case
  proof (cases "?d = sp_end s")
    case False
    with prems have pq: "path = []" "q = ?d" by auto
    have dd: "?d = lcp_len (hist (sp_ledger s)) (hist l)"
      using False prems(4) by (auto simp: span_diff_eq [OF s prems(2)] min_def max_def split: if_splits)
    have dlt: "?d < sp_end s" using False dle by simp
    have "\<not> prefix (hist l) x" if x: "x \<in># node_abs hist ?n" "?d < length (hist l)" for x
    proof
      assume "prefix (hist l) x"
      then have "x ! ?d = hist l ! ?d" using x(2) by (auto simp: prefix_def nth_append)
      moreover have "x ! ?d = hist (sp_ledger s) ! ?d"
        using ext [OF x(1)] dlt lenN by (auto simp: nth_append)
      ultimately show False
        using nth_lcp_len [of "hist (sp_ledger s)" "hist l"] dd dlt x(2) s by (auto simp: span_inv_def)
    qed
    then have "filter_mset (prefix (hist l)) (node_abs hist ?n) = {#}" if "?d < length (hist l)"
      using that filter_mset_cong [of _ _ "prefix (hist l)" "\<lambda>_. False"] by fastforce
    with inside pq dle br show ?thesis by (auto simp del: node_abs.simps)
  next
    case True
    with prems have fc: "find_children L l ?d 0 cs = (path, q)" by simp
    have N: "prefix ?N (hist l)"
      using take_lcp_len [OF dl] True by (metis take_is_prefix)
    then have tN: "take (sp_end s) (hist l) = ?N" using lenN by (auto simp: prefix_def)
    show ?thesis
      using fc
    proof (cases rule: find_children_cases)
      case none
      have "\<not> prefix (hist l) x" if x: "x \<in># node_abs hist ?n" "?d < length (hist l)" for x
      proof
        assume pre: "prefix (hist l) x"
        then have "x \<noteq> ?N" using x(2) True lenN prefix_length_le by fastforce
        then obtain c where c: "c \<in> set cs" "x \<in># node_abs hist c"
          using x(1) by (auto simp: in_sum_list_mset split: if_splits)
        then have ci: "node_inv hist valid cutp ?N c" using prems(1) by simp
        from prefix_child(2) [OF prems(1) c(1) node_abs_prefix [OF ci c(2)]] pre x(2) True
        have "hist (sp_ledger (nd_span c)) ! sp_end s = hist l ! sp_end s"
          by (auto simp: prefix_def nth_append)
        then show False
          using span_diff_gt_iff [OF node_inv_span [OF ci] prems(2) N] none(3) c(1) x(2) True lenN by auto
      qed
      then have "filter_mset (prefix (hist l)) (node_abs hist ?n) = {#}" if "?d < length (hist l)"
        using that filter_mset_cong [of _ _ "prefix (hist l)" "\<lambda>_. False"] by fastforce
      with inside none dle br show ?thesis by (auto simp del: node_abs.simps)
    next
      case (some j p')
      have ci: "node_inv hist valid cutp ?N (cs ! j)" using prems(1) some(1) by auto
      have gt: "length ?N < span_diff L (nd_span (cs ! j)) l" using some(3) True lenN by simp
      from span_diff_gt_iff [OF node_inv_span [OF ci] prems(2) N] gt lenN
      have "sp_end s < length (hist l)" "hist l ! sp_end s = hist (sp_ledger (nd_span (cs ! j))) ! sp_end s" by auto
      note f = filter_child [OF prems(1) some(1) this]
      from Node.IH [OF nth_mem [OF some(1)] ci prems(2) N gt some(4)] some(1,2) f
      show ?thesis by (auto simp del: node_abs.simps)
    qed
  qed
qed

lemma trie_branchSupport_correct:
  assumes T: "trie_inv L hist valid cutp T" and l: "valid l"
  shows "trie_branchSupport L T l = size (filter_mset (prefix (hist l)) (trie_abs hist T))"
proof -
  have r: "node_inv hist valid cutp [] (lt_root T)" "nd_span (lt_root T) = span_genesis L"
    using T by (simp_all add: trie_inv_def)
  show ?thesis
  proof (cases "findByLedgerID L T l")
    case None
    have "0 < span_diff L (nd_span (lt_root T)) l"
      using span_diff_gt_iff [OF node_inv_span [OF r(1)] l] common_root [OF l] hist_length [OF l] r(2)
      by (simp add: span_genesis_def)
    moreover obtain path q where f: "trie_find L T l = (path, q)" by fastforce
    ultimately show ?thesis
      using find_node_branch [OF r(1) l, of path q] None hist_length [OF l]
      by (auto simp: trie_branchSupport_def trie_find_def trie_abs_def)
  next
    case (Some path)
    then show ?thesis using find_id_node_Some [OF r(1) l, of path]
      by (auto simp: trie_branchSupport_def trie_abs_def findByLedgerID_def)
  qed
qed

lemma trie_new_correct:
  "trie_inv L hist valid cutp (LedgerTrie_new L)" "trie_abs hist (LedgerTrie_new L) = {#}"
  using genesis_valid hist_length [OF genesis_valid] cut_self [OF genesis_valid] genesis_seq
  by (auto simp: trie_inv_def trie_abs_def LedgerTrie_new_def span_genesis_def span_inv_def seq_inv_def)

lemma trie_empty_correct:
  "trie_inv L hist valid cutp T \<Longrightarrow> trie_empty T \<longleftrightarrow> trie_abs hist T = {#}"
  using node_branch_size by (fastforce simp: trie_inv_def trie_abs_def trie_empty_def)

end

end
