(* ===== verification/LedgerTrie_Preferred.thy ===== *)
theory LedgerTrie_Preferred
  imports LedgerTrie_Correct
begin

text \<open>
  The preferred ledger. The specification walks the supported histories one sequence number at a
  time: from a prefix it goes on to the next ledger whose support beats every alternative even if all
  uncommitted validators joined that alternative. The walk of the trie over compressed spans and
  per-sequence counts is shown to compute it. The theory also holds the proof that the code's own
  \<^verbatim>\<open>checkInvariants\<close> succeeds on every well-formed trie.
\<close>

section \<open>The invariant check succeeds\<close>

lemma seq_inv_unique:
  assumes a: "seq_inv M a" and b: "seq_inv M b"
  shows "a = b"
proof -
  have det: "map_of m s = (let z = size (filter_mset (\<lambda>x. length x = Suc s) M) in if z = 0 then None else Some z)"
    if "seq_inv M m" for m s
    using seq_invD [OF that, of s] by (auto simp: Let_def split: option.splits simp del: size_eq_0_iff_empty)
  have eq: "map_of a = map_of b" using det [OF a] det [OF b] by (simp add: fun_eq_iff)
  have so: "sorted_wrt (<) (map fst a)" "sorted_wrt (<) (map fst b)" using a b by (auto simp: seq_inv_def)
  have "set (map fst a) = set (map fst b)" using arg_cong [OF eq, of dom] by (simp add: dom_map_of_conv_image_fst)
  then have keys: "map fst a = map fst b" using so strict_sorted_equal by metis
  have rebuild: "m = map (\<lambda>k. (k, the (map_of m k))) (map fst m)" if "sorted_wrt (<) (map fst m)" for m :: "(nat \<times> nat) list"
  proof -
    have "distinct (map fst m)" using that strict_sorted_iff by blast
    then have "map ((\<lambda>k. (k, the (map_of m k))) \<circ> fst) m = m" by (intro map_idI) auto
    then show ?thesis by simp
  qed
  show ?thesis using rebuild [OF so(1)] rebuild [OF so(2)] keys eq by metis
qed

lemma check_loop_correct:
  assumes "\<forall>(r, n) \<in> set st. (\<exists>p. node_inv hist valid cutp p n) \<and> (r \<or> node_compressed n)"
    and "seq_inv M expected"
  shows "\<exists>e. check_loop st expected = Some e \<and>
    seq_inv (M + sum_list (map (\<lambda>(_, n). node_abs hist n) st)) e"
  using assms
proof (induction st expected arbitrary: M rule: check_loop.induct)
  case (2 isRoot s t b cs st expected)
  then obtain p where n: "node_inv hist valid cutp p (Node s t b cs)" and c: "isRoot \<or> node_compressed (Node s t b cs)"
    by auto
  let ?N = "take (sp_end s) (hist (sp_ledger s))"
  define expected' where "expected' = (if t \<noteq> 0 then seq_add (sp_end s - 1) t expected else expected)"
  have "length ?N = Suc (sp_end s - 1)" using n by (auto simp: span_inv_def)
  then have e: "seq_inv (M + replicate_mset t ?N) expected'"
    using seq_inv_add [OF "2.prems"(2)] "2.prems"(2) by (auto simp: expected'_def)
  have "sum_list (map (\<lambda>(_, n). node_abs hist n) (rev (map (Pair False) cs) @ st)) =
    sum_list (map (node_abs hist) cs) + sum_list (map (\<lambda>(_, n). node_abs hist n) st)"
    by (simp add: rev_map [symmetric] sum_list_rev comp_def flip: map_map) (simp add: comp_def)
  moreover have "\<forall>(r, m) \<in> set (rev (map (Pair False) cs) @ st).
    (\<exists>p. node_inv hist valid cutp p m) \<and> (r \<or> node_compressed m)"
    using n "2.prems"(1) by auto
  moreover have g: "\<not> (\<not> isRoot \<and> t = 0 \<and> length cs < 2)" "t + sum_list (map nd_branch cs) = b"
    using n c by (auto simp: node_compressed_def)
  moreover have "check_loop ((isRoot, Node s t b cs) # st) expected = check_loop (rev (map (Pair False) cs) @ st) expected'"
    using g by (auto simp: expected'_def)
  ultimately show ?case
    using "2.IH" [OF g(1) expected'_def _ _ e] by (simp add: add_ac)
qed simp

lemma checkInvariants_correct:
  assumes "trie_inv L hist valid cutp T"
  shows "trie_checkInvariants T"
proof -
  have "seq_inv ({#} :: 'c list multiset) []" by (simp add: seq_inv_def)
  then obtain e where "check_loop [(True, lt_root T)] [] = Some e" "seq_inv (trie_abs hist T) e"
    using check_loop_correct [of "[(True, lt_root T)]" hist valid cutp "{#}" "[]"] assms
    by (auto simp: trie_inv_def trie_abs_def)
  then show ?thesis using seq_inv_unique assms by (auto simp: trie_checkInvariants_def trie_inv_def)
qed

section \<open>The specification of the preferred ledger\<close>

definition branch_support :: "'h list multiset \<Rightarrow> 'h list \<Rightarrow> nat" where
  "branch_support M P = size (filter_mset (prefix P) M)"

text \<open>The validators whose last ledger is older than sequence \<open>s\<close> or than the last one issued here.\<close>

definition uncommitted_support :: "'h list multiset \<Rightarrow> nat \<Rightarrow> nat \<Rightarrow> nat" where
  "uncommitted_support M largestIssued s = size (filter_mset (\<lambda>x. length x \<le> max s largestIssued) M)"

definition next_ledgers :: "'h list multiset \<Rightarrow> 'h list \<Rightarrow> 'h set" where
  "next_ledgers M P = {x ! length P | x. x \<in># M \<and> strict_prefix P x}"

definition accepts :: "'h::linorder list multiset \<Rightarrow> nat \<Rightarrow> 'h list \<Rightarrow> 'h \<Rightarrow> bool" where
  "accepts M largestIssued P i \<longleftrightarrow>
     i \<in> next_ledgers M P \<and>
     uncommitted_support M largestIssued (length P) < branch_support M (P @ [i]) \<and>
     (\<forall>j \<in> next_ledgers M P - {i}.
        branch_support M (P @ [j]) + uncommitted_support M largestIssued (length P)
          < branch_support M (P @ [i]) + (if j < i then 1 else 0))"

inductive prefers :: "'h::linorder list multiset \<Rightarrow> nat \<Rightarrow> 'h list \<Rightarrow> 'h list \<Rightarrow> bool" for M largestIssued where
  prefers_stop: "(\<And>i. \<not> accepts M largestIssued P i) \<Longrightarrow> prefers M largestIssued P P"
| prefers_step: "accepts M largestIssued P i \<Longrightarrow> prefers M largestIssued (P @ [i]) Q \<Longrightarrow> prefers M largestIssued P Q"

lemma accepts_unique: "accepts M g P i \<Longrightarrow> accepts M g P j \<Longrightarrow> i = j"
proof (rule ccontr)
  assume a: "accepts M g P i" "accepts M g P j" "i \<noteq> j"
  let ?u = "uncommitted_support M g (length P)"
  have "branch_support M (P @ [j]) + ?u < branch_support M (P @ [i]) + (if j < i then 1 else 0)"
    "branch_support M (P @ [i]) + ?u < branch_support M (P @ [j]) + (if i < j then 1 else 0)"
    using a unfolding accepts_def by blast+
  then show False by (auto split: if_splits)
qed

inductive_cases prefersE: "prefers M g P Q"

lemma prefers_deterministic: "prefers M g P Q \<Longrightarrow> prefers M g P R \<Longrightarrow> Q = R"
proof (induction arbitrary: R rule: prefers.induct)
  case (prefers_stop P)
  from prefers_stop.prems show ?case by (rule prefersE) (use prefers_stop.hyps in auto)
next
  case (prefers_step P i Q)
  from prefers_step.prems show ?case
    by (rule prefersE) (use prefers_step.hyps(1) prefers_step.IH in \<open>auto dest: accepts_unique\<close>)
qed

lemma prefers_chain:
  assumes "a \<le> c" "c \<le> length H" "\<And>k. a \<le> k \<Longrightarrow> k < c \<Longrightarrow> accepts M g (take k H) (H ! k)"
    and "prefers M g (take c H) Q"
  shows "prefers M g (take a H) Q"
  using assms
proof (induction "c - a" arbitrary: a)
  case (Suc d)
  have a: "a < c" "d = c - Suc a" using Suc.hyps(2) by simp_all
  have "prefers M g (take (Suc a) H) Q"
    by (rule Suc.hyps(1) [OF a(2)]) (use a(1) Suc.prems(2,3,4) in simp_all)
  then have "prefers M g (take a H @ [H ! a]) Q"
    using a(1) Suc.prems(2) by (simp add: take_Suc_conv_app_nth)
  then show ?case using Suc.prems(3) [OF order_refl a(1)] by (rule prefers_step [rotated])
qed simp

section \<open>The cursor over the per-sequence support\<close>

definition cursor :: "'h list multiset \<Rightarrow> (nat \<times> nat) list \<Rightarrow> nat \<Rightarrow> nat \<Rightarrow> (nat \<times> nat) list \<Rightarrow> bool" where
  "cursor M m b unc its \<longleftrightarrow>
     unc = size (filter_mset (\<lambda>x. length x \<le> b) M) \<and> its = filter (\<lambda>(k, _). b \<le> k) m"

lemma seq_inv_key:
  assumes "seq_inv M m" "x \<in># M" "length x = Suc k"
  shows "\<exists>v. (k, v) \<in> set m"
proof -
  have "size (filter_mset (\<lambda>x. length x = Suc k) M) \<noteq> 0" using assms by (auto simp: filter_mset_eq_mempty_iff)
  then show ?thesis using seq_invD [OF assms(1), of k] by (auto split: option.splits dest: map_of_SomeD)
qed

lemma cursor_skip:
  assumes m: "seq_inv M m" and c: "cursor M m b unc its" and b: "b \<le> b'"
    and its: "\<forall>(k, v) \<in> set its. b' \<le> k"
  shows "cursor M m b' unc its"
proof -
  have "length x \<le> b" if x: "x \<in># M" "length x \<le> b'" for x
  proof (rule ccontr)
    assume "\<not> length x \<le> b"
    then obtain k where k: "length x = Suc k" "b \<le> k" by (cases "length x") auto
    with seq_inv_key [OF m x(1) k(1)] c its x(2) show False by (auto simp: cursor_def)
  qed
  then have "filter_mset (\<lambda>x. length x \<le> b') M = filter_mset (\<lambda>x. length x \<le> b) M"
    using b by (intro filter_mset_cong) (auto intro: order_trans)
  moreover have "filter (\<lambda>(k, _). b' \<le> k) m = filter (\<lambda>(k, _). b \<le> k) m"
    using c its b by (intro filter_cong) (auto simp: cursor_def)
  ultimately show ?thesis using c by (simp add: cursor_def)
qed

lemma cursor_sorted:
  assumes "seq_inv M m" "cursor M m b unc ((k, v) # its)"
  shows "b \<le> k" "(k, v) \<in> set m" "\<forall>(k', v') \<in> set its. k < k'"
proof -
  have eq: "filter (\<lambda>(k, _). b \<le> k) m = (k, v) # its" using assms by (simp add: cursor_def)
  have "(k, v) \<in> set (filter (\<lambda>(k, _). b \<le> k) m)" by (simp add: eq)
  then show "b \<le> k" "(k, v) \<in> set m" by auto
  have "sorted_wrt (\<lambda>p q. fst p < fst q) (filter (\<lambda>(k, _). b \<le> k) m)"
    using assms(1) by (simp add: seq_inv_def sorted_wrt_map sorted_wrt_filter)
  then show "\<forall>(k', v') \<in> set its. k < k'" by (auto simp: eq)
qed

lemma cursor_next:
  assumes m: "seq_inv M m" and c: "cursor M m b unc ((k, v) # its)"
  shows "cursor M m (Suc k) (unc + v) its"
proof -
  note s = cursor_sorted [OF m c]
  have "cursor M m k unc ((k, v) # its)" by (rule cursor_skip [OF m c s(1)]) (use s(3) in auto)
  then have u: "unc = size (filter_mset (\<lambda>x. length x \<le> k) M)" by (simp add: cursor_def)
  have "distinct (map fst m)" using m strict_sorted_iff by (auto simp: seq_inv_def)
  then have "map_of m k = Some v" using s(2) by simp
  then have "v = size (filter_mset (\<lambda>x. length x = Suc k) M)" using seq_invD [OF m, of k] by simp
  moreover have "filter_mset (\<lambda>x. length x \<le> Suc k) M =
    filter_mset (\<lambda>x. length x \<le> k) M + filter_mset (\<lambda>x. length x = Suc k) M"
    by (intro multiset_eqI) auto
  moreover have "filter (\<lambda>(k', _). Suc k \<le> k') m = its"
  proof -
    have "filter (\<lambda>(k', _). Suc k \<le> k') m = filter (\<lambda>(k', _). Suc k \<le> k') (filter (\<lambda>(k', _). b \<le> k') m)"
      using s(1) by (induction m) auto
    also have "\<dots> = filter (\<lambda>(k', _). Suc k \<le> k') ((k, v) # its)" using c by (simp add: cursor_def)
    finally show ?thesis using s(3) by (auto simp: filter_id_conv)
  qed
  ultimately show ?thesis using u by (simp add: cursor_def)
qed

lemma take_uncommitted_cursor:
  assumes "seq_inv M m" "cursor M m b unc its" "b \<le> bound" "take_uncommitted bound unc its = (unc', its')"
  shows "cursor M m bound unc' its'"
  using assms
proof (induction bound unc its arbitrary: b rule: take_uncommitted.induct)
  case (1 bound unc)
  then show ?case by (auto intro: cursor_skip)
next
  case (2 bound unc k v its)
  note s = cursor_sorted [OF "2.prems"(1,2)]
  show ?case
  proof (cases "k < bound")
    case True
    then show ?thesis using "2.IH" [OF True "2.prems"(1) cursor_next [OF "2.prems"(1,2)]] "2.prems"(4) by simp
  next
    case False
    have "cursor M m bound unc ((k, v) # its)"
      by (rule cursor_skip [OF "2.prems"(1,2,3)]) (use False s(3) in auto)
    then show ?thesis using False "2.prems"(4) by auto
  qed
qed

text \<open>
  The walk along a span visits only the sequence numbers where the uncommitted support changes, and
  stops at the first one where the branch support no longer exceeds it.
\<close>

lemma span_walk_cursor:
  assumes "seq_inv M m" "cursor M m (max nextSeq g) unc its" "nextSeq \<le> endSeq"
    and "span_walk endSeq branch nextSeq unc its = (nextSeq', unc', its')"
  shows "cursor M m (max nextSeq' g) unc' its' \<and> nextSeq \<le> nextSeq' \<and> nextSeq' \<le> endSeq \<and>
    (\<forall>s. nextSeq \<le> s \<and> s < nextSeq' \<longrightarrow> uncommitted_support M g s < branch) \<and>
    (nextSeq' < endSeq \<longrightarrow> branch \<le> unc')"
  using assms
proof (induction endSeq branch nextSeq unc its rule: span_walk.induct)
  case (1 endSeq branch nextSeq unc)
  have same: "cursor M m (max s g) unc []" if "nextSeq \<le> s" for s
    by (rule cursor_skip [OF "1.prems"(1,2)]) (use that in auto)
  then have us: "uncommitted_support M g i = unc" if "nextSeq \<le> i" for i
    using that by (auto simp: uncommitted_support_def cursor_def)
  show ?case using "1.prems"(3,4) same [of nextSeq'] us by (auto split: if_splits)
next
  case (2 endSeq branch nextSeq unc k v its)
  note s = cursor_sorted [OF "2.prems"(1,2)]
  have same: "cursor M m (max i g) unc ((k, v) # its)" if "nextSeq \<le> i" "i \<le> k" for i
    by (rule cursor_skip [OF "2.prems"(1,2)]) (use that s in auto)
  then have us: "uncommitted_support M g i = unc" if "nextSeq \<le> i" "i \<le> k" for i
    using that by (auto simp: uncommitted_support_def cursor_def)
  show ?case
  proof (cases "nextSeq < endSeq \<and> unc < branch")
    case False
    then show ?thesis using "2.prems" by auto
  next
    case go: True
    show ?thesis
    proof (cases "k < endSeq")
      case True
      have "cursor M m (max (k + 1) g) (unc + v) its"
        using cursor_next [OF "2.prems"(1,2)] s(1) by (simp add: max_absorb1)
      from "2.IH" [OF go True "2.prems"(1) this] "2.prems"(4) go True
      have IH: "cursor M m (max nextSeq' g) unc' its' \<and> k + 1 \<le> nextSeq' \<and> nextSeq' \<le> endSeq \<and>
        (\<forall>s. k + 1 \<le> s \<and> s < nextSeq' \<longrightarrow> uncommitted_support M g s < branch) \<and>
        (nextSeq' < endSeq \<longrightarrow> branch \<le> unc')" by simp
      moreover have "uncommitted_support M g i < branch" if "nextSeq \<le> i" "i < nextSeq'" for i
        using that us [of i] go IH by (cases "i \<le> k") auto
      ultimately show ?thesis using s(1) by auto
    next
      case False
      then show ?thesis using "2.prems"(3,4) go us same by (auto split: if_splits)
    qed
  qed
qed

section \<open>The best children\<close>

lemma child_less_weak:
  "\<not> child_less L a b \<Longrightarrow> \<not> child_less L b c \<Longrightarrow> \<not> child_less L a c"
  "child_less L a b \<Longrightarrow> \<not> child_less L b a"
  by (auto simp: child_less_def)

lemma best_two_single: "best_two L cs = Some (b, None) \<Longrightarrow> cs = [b]"
  by (cases cs) (auto split: option.splits if_splits, case_tac list, auto split: option.splits if_splits)

lemma best_two_none: "best_two L cs = None \<Longrightarrow> cs = []"
  by (cases cs) (auto split: option.splits if_splits)

lemma best_two_pair:
  "best_two L cs = Some (b, Some s) \<Longrightarrow>
   \<exists>r. mset cs = add_mset b (add_mset s r) \<and> \<not> child_less L b s \<and> (\<forall>c \<in># r. \<not> child_less L s c)"
proof (induction cs arbitrary: b s)
  case (Cons c cs)
  show ?case
  proof (cases "best_two L cs")
    case None
    then show ?thesis using Cons.prems by simp
  next
    case (Some q)
    obtain b' s' where bs: "best_two L cs = Some (b', s')" using Some by (cases q) auto
    show ?thesis
    proof (cases s')
      case None
      then have "cs = [b']" using bs best_two_single by simp
      then show ?thesis using bs None Cons.prems child_less_weak(2) [of L b' c]
        by (intro exI [of _ "{#}"]) (auto split: if_splits)
    next
      case (Some s0)
      from Cons.IH [OF bs [unfolded Some]] obtain r where
        r: "mset cs = add_mset b' (add_mset s0 r)" "\<not> child_less L b' s0" "\<forall>c \<in># r. \<not> child_less L s0 c" by blast
      have "(b, s) = (if child_less L b' c then (c, b') else if child_less L s0 c then (b', c) else (b', s0))"
        using Cons.prems bs Some by (simp split: if_splits)
      then consider (new) "child_less L b' c" "b = c" "s = b'"
        | (second) "\<not> child_less L b' c" "child_less L s0 c" "b = b'" "s = c"
        | (old) "\<not> child_less L b' c" "\<not> child_less L s0 c" "b = b'" "s = s0"
        by (metis prod.inject)
      then show ?thesis
      proof cases
        case new
        then show ?thesis using r(1,2) child_less_weak(2) [OF new(1)] child_less_weak(1) [OF r(2)] r(3)
          by (intro exI [of _ "add_mset s0 r"]) simp
      next
        case second
        then show ?thesis
          using r(1) child_less_weak(2) [OF second(2)] child_less_weak(1) [OF child_less_weak(2) [OF second(2)]] r(3)
          by (intro exI [of _ "add_mset s0 r"]) (simp add: add_mset_commute)
      next
        case old
        then show ?thesis using r by (intro exI [of _ "add_mset c r"]) (auto simp: add_mset_commute)
      qed
    qed
  qed
qed simp

section \<open>Support seen from a node\<close>

lemma support_local:
  assumes "filter_mset (prefix P0) M = A" "prefix P0 P"
  shows "filter_mset (prefix P) M = filter_mset (prefix P) A" "next_ledgers M P = next_ledgers A P"
    "branch_support M P = branch_support A P"
proof -
  have "x \<in># A \<longleftrightarrow> x \<in># M" if "prefix P x" for x
    using assms that by (auto dest: prefix_order.trans)
  then show "next_ledgers M P = next_ledgers A P"
    by (auto simp: next_ledgers_def prefix_order.less_le)
  show f: "filter_mset (prefix P) M = filter_mset (prefix P) A"
    unfolding assms(1) [symmetric] filter_filter_mset
    by (intro filter_mset_cong) (use assms(2) in \<open>auto dest: prefix_order.trans\<close>)
  show "branch_support M P = branch_support A P" by (simp add: branch_support_def f)
qed

lemma node_abs_nonempty:
  "node_inv hist valid cutp p n \<Longrightarrow> node_compressed n \<Longrightarrow> node_abs hist n \<noteq> {#}"
proof (induction n arbitrary: p)
  case (Node s t b cs)
  show ?case
  proof (cases "t = 0")
    case True
    then obtain c where c: "c \<in> set cs" using Node.prems(2) by (cases cs) (auto simp: node_compressed_def)
    from Node.IH [OF c] Node.prems(1) c have "node_abs hist c \<noteq> {#}" by auto
    then obtain x where "x \<in># node_abs hist c" by (auto elim: multiset_nonemptyE)
    then have "x \<in># node_abs hist (Node s t b cs)" using c by (auto simp: in_sum_list_mset)
    then show ?thesis by (metis empty_iff set_mset_empty)
  qed simp
qed

lemma span_support:
  assumes n: "node_inv hist valid cutp p n" and ne: "node_abs hist n \<noteq> {#}"
    and k: "length p < k" "k < sp_end (nd_span n)"
  defines "H \<equiv> hist (sp_ledger (nd_span n))"
  shows "next_ledgers (node_abs hist n) (take k H) = {H ! k}"
    and "branch_support (node_abs hist n) (take k H @ [H ! k]) = nd_branch n"
proof -
  have ext: "\<exists>r. x = take (sp_end (nd_span n)) H @ r" if "x \<in># node_abs hist n" for x
    using node_abs_prefix [OF n that] by (auto simp: node_hist_def prefix_def H_def)
  have len: "sp_end (nd_span n) \<le> length H"
    using node_inv_span [OF n] by (simp add: span_inv_def H_def)
  have tk: "take k H @ [H ! k] = take (Suc k) H" using len k by (simp add: take_Suc_conv_app_nth)
  have px: "prefix (take (Suc k) H) x \<and> strict_prefix (take k H) x \<and> x ! k = H ! k"
    if x: "x \<in># node_abs hist n" for x
  proof -
    obtain r where r: "x = take (sp_end (nd_span n)) H @ r" using ext [OF x] by blast
    have "prefix (take (Suc k) H) (take (sp_end (nd_span n)) H)"
      using k by (metis Suc_leI min.absorb1 take_is_prefix take_take)
    then have "prefix (take (Suc k) H) x" using r by (metis prefixI prefix_order.trans)
    moreover have "strict_prefix (take k H) (take (Suc k) H)"
      using len k by (metis tk strict_prefixI' append.right_neutral)
    moreover have "x ! k = H ! k" using r k len by (simp add: nth_append)
    ultimately show ?thesis by (auto intro: prefix_order.less_le_trans)
  qed
  obtain x0 where "x0 \<in># node_abs hist n" using ne by (auto elim: multiset_nonemptyE)
  with px len k show "next_ledgers (node_abs hist n) (take k H) = {H ! k}"
    by (auto simp: next_ledgers_def min_def intro!: exI [of _ x0])
  have "filter_mset (prefix (take (Suc k) H)) (node_abs hist n) = node_abs hist n"
    using px filter_mset_cong [of _ _ "prefix (take (Suc k) H)" "\<lambda>_. True"] by fastforce
  then show "branch_support (node_abs hist n) (take k H @ [H ! k]) = nd_branch n"
    using node_branch_size [OF n] by (simp add: tk branch_support_def)
qed

lemma child_support:
  assumes n: "node_inv hist valid cutp p (Node s t b cs)" and c: "c \<in> set cs"
  defines "N \<equiv> take (sp_end s) (hist (sp_ledger s))"
  shows "filter_mset (prefix (N @ [hist (sp_ledger (nd_span c)) ! sp_end s])) (node_abs hist (Node s t b cs)) = node_abs hist c"
    and "N @ [hist (sp_ledger (nd_span c)) ! sp_end s] = take (Suc (sp_end s)) (hist (sp_ledger (nd_span c)))"
    and "branch_support (node_abs hist (Node s t b cs)) (N @ [hist (sp_ledger (nd_span c)) ! sp_end s]) = nd_branch c"
proof -
  let ?f = "hist (sp_ledger (nd_span c)) ! sp_end s"
  obtain j where j: "j < length cs" "c = cs ! j" using c by (auto simp: in_set_conv_nth)
  have s: "span_inv hist valid cutp p s" and ci: "node_inv hist valid cutp N c"
    using n c by (auto simp: N_def)
  note sc = child_span [OF s node_inv_span [OF ci, unfolded N_def]]
  have lenN: "length N = sp_end s" using s by (simp add: N_def span_inv_def)
  show tk: "N @ [?f] = take (Suc (sp_end s)) (hist (sp_ledger (nd_span c)))"
    using sc node_inv_span [OF ci] by (simp add: take_Suc_conv_app_nth N_def span_inv_def)
  have "prefix (N @ [?f]) x" if "x \<in># node_abs hist c" for x
  proof -
    have "prefix (take (Suc (sp_end s)) (hist (sp_ledger (nd_span c)))) (node_hist hist c)"
      using sc(2) by (metis Suc_leI min.absorb1 node_hist_def take_is_prefix take_take)
    then show ?thesis using node_abs_prefix [OF ci that] by (metis tk prefix_order.trans)
  qed
  then have "filter_mset (prefix (N @ [?f])) (node_abs hist c) = node_abs hist c"
    using filter_mset_cong [of _ _ "prefix (N @ [?f])" "\<lambda>_. True"] by fastforce
  moreover have "filter_mset (prefix (N @ [?f])) (node_abs hist (Node s t b cs)) = filter_mset (prefix (N @ [?f])) (node_abs hist c)"
    unfolding j(2) by (rule filter_child [OF n j(1)]) (simp_all add: lenN nth_append)
  ultimately show fl: "filter_mset (prefix (N @ [?f])) (node_abs hist (Node s t b cs)) = node_abs hist c" by simp
  show "branch_support (node_abs hist (Node s t b cs)) (N @ [?f]) = nd_branch c"
    using node_branch_size [OF ci] by (simp only: branch_support_def fl)
qed

lemma child_nexts:
  assumes n: "node_inv hist valid cutp p (Node s t b cs)"
  shows "next_ledgers (node_abs hist (Node s t b cs)) (take (sp_end s) (hist (sp_ledger s))) =
    (\<lambda>c. hist (sp_ledger (nd_span c)) ! sp_end s) ` set cs"
proof -
  let ?N = "take (sp_end s) (hist (sp_ledger s))" and ?A = "node_abs hist (Node s t b cs)"
  let ?f = "\<lambda>c. hist (sp_ledger (nd_span c)) ! sp_end s"
  have lenN: "length ?N = sp_end s" using n by (simp add: span_inv_def)
  have "x ! sp_end s \<in> ?f ` set cs" if x: "x \<in># ?A" "strict_prefix ?N x" for x
  proof -
    from x obtain c where c: "c \<in> set cs" "x \<in># node_abs hist c"
      by (auto simp: in_sum_list_mset split: if_splits)
    then have "node_inv hist valid cutp ?N c" using n by simp
    from prefix_child(2) [OF n c(1) node_abs_prefix [OF this c(2)]] c(1) show ?thesis by auto
  qed
  moreover have "?f c \<in> next_ledgers ?A ?N" if c: "c \<in> set cs" for c
  proof -
    have ci: "node_inv hist valid cutp ?N c" "node_compressed c" using n c by auto
    obtain x where x: "x \<in># node_abs hist c" using node_abs_nonempty [OF ci] by (auto elim: multiset_nonemptyE)
    note px = prefix_child [OF n c node_abs_prefix [OF ci(1) x]]
    have "strict_prefix ?N x" using px(1,3) lenN
      by (metis less_irrefl strict_prefixI take_is_prefix)
    then show ?thesis using px(2) x c lenN by (auto simp: next_ledgers_def in_sum_list_mset intro!: exI [of _ x])
  qed
  ultimately show ?thesis using lenN by (auto simp: next_ledgers_def)
qed

section \<open>The walk computes the specification\<close>

context ledger_history
begin

lemma start_id:
  assumes n: "node_inv hist valid cutp p (Node s t b cs)" and c: "c \<in> set cs" "d \<in> set cs" "c \<noteq> d"
  shows "span_startID L (nd_span c) = hist (sp_ledger (nd_span c)) ! sp_end s"
proof -
  let ?N = "take (sp_end s) (hist (sp_ledger s))"
  have s: "span_inv hist valid cutp p s" using n by simp
  have ci: "span_inv hist valid cutp ?N (nd_span c)" "span_inv hist valid cutp ?N (nd_span d)"
    using n c by (auto dest: node_inv_span)
  note cs = child_span [OF s ci(1)] and ds = child_span [OF s ci(2)]
  have v: "valid (sp_ledger (nd_span c))" "valid (sp_ledger (nd_span d))" using ci by (auto simp: span_inv_def)
  have le: "sp_end s < length (hist (sp_ledger (nd_span c)))" "sp_end s < length (hist (sp_ledger (nd_span d)))"
    using cs(2) ds(2) ci by (auto simp: span_inv_def)
  have "hist (sp_ledger (nd_span c)) ! sp_end s \<noteq> hist (sp_ledger (nd_span d)) ! sp_end s"
    using n c by (auto simp: distinct_map inj_on_def)
  then have "lo_mismatch L (sp_ledger (nd_span c)) (sp_ledger (nd_span d)) = sp_end s"
    unfolding mismatch_lcp [OF v] using le cs(3) ds(3) by (intro lcp_len_eqI) auto
  then have "lo_at L (sp_ledger (nd_span c)) (sp_end s) = hist (sp_ledger (nd_span c)) ! sp_end s"
    by (rule at_branch [OF v]) (use le hist_length [OF v(1)] hist_length [OF v(2)] in simp_all)
  then show ?thesis using cs(1) by (simp add: span_startID_def)
qed

lemma accepts_child_iff:
  assumes n: "node_inv hist valid cutp p (Node s t b cs)" and c: "c \<in> set cs"
    and M: "filter_mset (prefix P0) M = node_abs hist (Node s t b cs)"
    and P0: "prefix P0 (take (sp_end s) (hist (sp_ledger s)))"
  defines "f \<equiv> \<lambda>c. hist (sp_ledger (nd_span c)) ! sp_end s"
  shows "accepts M g (take (sp_end s) (hist (sp_ledger s))) (f c) \<longleftrightarrow>
    uncommitted_support M g (sp_end s) < nd_branch c \<and>
    (\<forall>d \<in> set cs - {c}. nd_branch d + uncommitted_support M g (sp_end s)
        < nd_branch c + (if f d < f c then 1 else 0))"
proof -
  let ?N = "take (sp_end s) (hist (sp_ledger s))"
  have lenN: "length ?N = sp_end s" using n by (simp add: span_inv_def)
  have nx: "next_ledgers M ?N = f ` set cs"
    using support_local(2) [OF M P0] child_nexts [OF n] by (simp add: f_def)
  have bs: "branch_support M (?N @ [f d]) = nd_branch d" if "d \<in> set cs" for d
    using support_local(3) [OF M, of "?N @ [f d]"] P0 child_support(3) [OF n that]
    by (simp add: f_def prefix_prefix)
  have "inj_on f (set cs)" using n by (simp add: distinct_map f_def)
  then have "f ` set cs - {f c} = f ` (set cs - {c})" using c by (auto dest: inj_onD)
  then show ?thesis using c by (simp add: accepts_def nx bs lenN del: length_take)
qed

lemma best_child_accepts:
  assumes n: "node_inv hist valid cutp p (Node s t b cs)"
    and M: "filter_mset (prefix P0) M = node_abs hist (Node s t b cs)"
    and P0: "prefix P0 (take (sp_end s) (hist (sp_ledger s)))"
    and bt: "best_two L cs = Some (best, second)"
    and unc: "unc = uncommitted_support M g (sp_end s)"
  defines "N \<equiv> take (sp_end s) (hist (sp_ledger s))"
  shows "unc < best_margin L best second \<or> unc = 0 \<Longrightarrow>
      accepts M g N (hist (sp_ledger (nd_span best)) ! sp_end s)"
    and "\<not> (unc < best_margin L best second \<or> unc = 0) \<Longrightarrow> \<not> accepts M g N i"
proof -
  define f where "f = (\<lambda>c. hist (sp_ledger (nd_span c)) ! sp_end s)"
  have acc: "accepts M g N (f c) \<longleftrightarrow> unc < nd_branch c \<and>
    (\<forall>d \<in> set cs - {c}. nd_branch d + unc < nd_branch c + (if f d < f c then 1 else 0))"
    if "c \<in> set cs" for c
    unfolding f_def N_def unc by (rule accepts_child_iff [OF n that M P0])
  have pos: "0 < nd_branch c" if "c \<in> set cs" for c
    using n that node_abs_nonempty [of hist valid cutp N c] node_branch_size [of hist valid cutp N c]
    by (simp add: N_def nonempty_has_size)
  have bm: "best \<in> set cs" by (rule best_two_mem [OF bt])
  have img: "\<exists>c \<in> set cs. i = f c" if "accepts M g N i" for i
    using that support_local(2) [OF M P0] child_nexts [OF n] by (auto simp: accepts_def N_def f_def)
  have "(unc < best_margin L best second \<or> unc = 0 \<longrightarrow> accepts M g N (f best)) \<and>
    (\<not> (unc < best_margin L best second \<or> unc = 0) \<longrightarrow> \<not> accepts M g N i)"
  proof (cases second)
    case None
    then have "cs = [best]" using bt best_two_single by blast
    then show ?thesis using None acc [OF bm] pos [OF bm] img [of i] by (auto simp: best_margin_def)
  next
    case (Some s2)
    from best_two_pair [OF bt [unfolded Some]] obtain r where
      r: "mset cs = add_mset best (add_mset s2 r)" "\<not> child_less L best s2" "\<forall>c \<in># r. \<not> child_less L s2 c" by blast
    have setc: "set cs = insert best (insert s2 (set_mset r))" using arg_cong [OF r(1), of set_mset] by simp
    have "distinct cs" using n by (auto simp: distinct_map)
    then have ne: "best \<noteq> s2" using arg_cong [OF r(1), of "\<lambda>m. count m best"]
      by (auto simp: count_mset_0_iff distinct_count_atmost_1 split: if_splits)
    have sid: "span_startID L (nd_span c) = f c" if "c \<in> set cs" for c
      using start_id [OF n that, of best] start_id [OF n that, of s2] ne setc by (auto simp: f_def)
    have inj: "f c \<noteq> f d" if "c \<in> set cs" "d \<in> set cs" "c \<noteq> d" for c d
      using n that by (auto simp: distinct_map inj_on_def f_def)
    have s2: "s2 \<in> set cs" by (simp add: setc)
    have margin: "best_margin L best second = nd_branch best - nd_branch s2 + (if f s2 < f best then 1 else 0)"
      using Some bm s2 by (simp add: best_margin_def sid)
    have top: "nd_branch s2 < nd_branch best \<or> nd_branch s2 = nd_branch best \<and> f s2 < f best"
      using r(2) inj [OF bm s2 ne] sid [OF bm] sid [OF s2] by (auto simp: child_less_def)
    have rest: "nd_branch c < nd_branch s2 \<or> nd_branch c = nd_branch s2 \<and> f c \<le> f s2"
      if "c \<in> set cs" "c \<noteq> best" for c
      using that r(3) sid [OF that(1)] sid [OF s2] by (auto simp: setc child_less_def)
    show ?thesis
    proof (cases "unc < best_margin L best second \<or> unc = 0")
      case True
      have key: "nd_branch s2 + unc < nd_branch best + (if f s2 < f best then 1 else 0)"
        using True top margin by (auto split: if_splits)
      have "nd_branch d + unc < nd_branch best + (if f d < f best then 1 else 0)" if "d \<in> set cs - {best}" for d
        using rest [of d] that key by (auto split: if_splits)
      moreover have "unc < nd_branch best" using key pos [OF s2] by (auto split: if_splits)
      ultimately show ?thesis using True acc [OF bm] by auto
    next
      case False
      have "\<not> accepts M g N (f c)" if c: "c \<in> set cs" for c
      proof
        assume "accepts M g N (f c)"
        then have a: "\<forall>d \<in> set cs - {c}. nd_branch d + unc < nd_branch c + (if f d < f c then 1 else 0)"
          using acc [OF c] by simp
        show False
        proof (cases "c = best")
          case True
          then have "nd_branch s2 + unc < nd_branch best + (if f s2 < f best then 1 else 0)" using a s2 ne by blast
          then show False using False margin by (auto split: if_splits)
        next
          case cb: False
          then have "nd_branch best + unc < nd_branch c + (if f best < f c then 1 else 0)" using a bm by blast
          then show False using rest [OF c cb] top False by (auto split: if_splits)
        qed
      qed
      then show ?thesis using False img [of i] by auto
    qed
  qed
  then show "unc < best_margin L best second \<or> unc = 0 \<Longrightarrow> accepts M g N (hist (sp_ledger (nd_span best)) ! sp_end s)"
    "\<not> (unc < best_margin L best second \<or> unc = 0) \<Longrightarrow> \<not> accepts M g N i"
    by (auto simp: f_def)
qed

lemma span_accepts_iff:
  assumes n: "node_inv hist valid cutp p n" and ne: "node_abs hist n \<noteq> {#}"
    and M: "filter_mset (prefix (take (Suc (length p)) (hist (sp_ledger (nd_span n))))) M = node_abs hist n"
    and k: "length p < k" "k < sp_end (nd_span n)"
  shows "accepts M g (take k (hist (sp_ledger (nd_span n)))) i \<longleftrightarrow>
    i = hist (sp_ledger (nd_span n)) ! k \<and> uncommitted_support M g k < nd_branch n"
proof -
  let ?H = "hist (sp_ledger (nd_span n))"
  note ss = span_support [OF n ne k]
  have pre: "prefix (take (Suc (length p)) ?H) (take k ?H)"
    using k(1) by (metis Suc_leI min.absorb1 take_is_prefix take_take)
  have len: "length (take k ?H) = k" using k node_inv_span [OF n] by (simp add: span_inv_def)
  have "next_ledgers M (take k ?H) = {?H ! k}" using support_local(2) [OF M pre] ss(1) by simp
  moreover have "branch_support M (take k ?H @ [?H ! k]) = nd_branch n"
    using support_local(3) [OF M, of "take k ?H @ [?H ! k]"] pre ss(2) by (simp add: prefix_prefix)
  ultimately show ?thesis by (auto simp: accepts_def len simp del: length_take)
qed

text \<open>What a returned tip stands for: a prefix of the history of a valid ledger.\<close>

lemma pref_node_correct:
  assumes "node_inv hist valid cutp p n" "node_abs hist n \<noteq> {#}"
    and "filter_mset (prefix (take (Suc (length p)) (hist (sp_ledger (nd_span n))))) M = node_abs hist n"
    and m: "seq_inv M m" and "cursor M m b0 unc its" "b0 \<le> max (length p + 1) g"
    and "pref_node L g n unc its = tp"
  shows "prefers M g (take (Suc (length p)) (hist (sp_ledger (nd_span n)))) (take (Suc (st_seq tp)) (hist (st_ledger tp))) \<and>
    valid (st_ledger tp) \<and> st_seq tp \<le> lo_seq L (st_ledger tp) \<and> st_id tp = lo_at L (st_ledger tp) (st_seq tp)"
  using assms
proof (induction n arbitrary: p b0 unc its)
  case (Node s t b cs)
  note prems = Node.prems
  define H where "H = hist (sp_ledger s)"
  have s: "span_inv hist valid cutp p s" using prems(1) by simp
  then have si: "sp_start s = length p" "length p < sp_end s" "sp_end s \<le> length H" "valid (sp_ledger s)"
    by (auto simp: span_inv_def H_def)
  have vs: "length H = Suc (lo_seq L (sp_ledger s))" using hist_length [OF si(4)] by (simp add: H_def)
  obtain unc1 its1 where tu: "take_uncommitted (max (length p + 1) g) unc its = (unc1, its1)" by fastforce
  obtain nx unc2 its2 where sw: "span_walk (sp_end s) b (length p + 1) unc1 its1 = (nx, unc2, its2)" using prod_cases3 by blast
  from span_walk_cursor [OF m take_uncommitted_cursor [OF m prems(5,6) tu] _ sw] si(2)
  have w: "cursor M m (max nx g) unc2 its2" "length p + 1 \<le> nx" "nx \<le> sp_end s"
    "\<And>k. length p < k \<Longrightarrow> k < nx \<Longrightarrow> uncommitted_support M g k < b" "nx < sp_end s \<Longrightarrow> b \<le> unc2" by auto
  have u2: "unc2 = uncommitted_support M g nx" using w(1) by (simp add: cursor_def uncommitted_support_def)
  note acc = span_accepts_iff [OF prems(1,2,3), simplified, folded H_def]
  have chain: "prefers M g (take nx H) Q \<Longrightarrow> prefers M g (take (Suc (length p)) H) Q" for Q
    by (rule prefers_chain [of _ nx]) (use w si acc in auto)
  have pn: "tp =
    (if nx < sp_end s then (case span_before s nx of Some s' \<Rightarrow> span_tipOf L s' | None \<Rightarrow> span_tipOf L s)
     else (case best_two L cs of None \<Rightarrow> span_tipOf L s
           | Some (best, second) \<Rightarrow> if unc2 < best_margin L best second \<or> unc2 = 0
               then pref_node L g best unc2 its2 else span_tipOf L s))"
    using tu sw si(1) by (simp add: prems(7) [symmetric])
  show ?case
  proof (cases "nx < sp_end s")
    case True
    have "\<not> accepts M g (take nx H) i" for i using acc [of nx g i] w True u2 by auto
    then have "prefers M g (take nx H) (take nx H)" by (rule prefers_stop)
    moreover have "span_before s nx = Some \<lparr>sp_start = length p, sp_end = nx, sp_ledger = sp_ledger s\<rparr>"
      using True w(2) si(1,2) by (simp add: span_before_def span_sub_def span_clamp_def)
    ultimately show ?thesis
      using pn True chain w(2) si vs by (auto simp: span_tipOf_def H_def)
  next
    case False
    then have nxe: "nx = sp_end s" using w(3) by simp
    define N where "N = take (sp_end s) H"
    have lenN: "length N = sp_end s" using si by (simp add: N_def)
    have stop: ?thesis if "\<And>i. \<not> accepts M g N i" "tp = span_tipOf L s"
      using prefers_stop [of M g N, OF that(1)] chain [of N] nxe si vs that(2) by (auto simp: N_def H_def span_tipOf_def)
    have P0: "prefix (take (Suc (length p)) H) (take (sp_end s) H)"
      using si(2) by (metis Suc_leI min.absorb1 take_is_prefix take_take)
    note M = prems(3) [simplified, folded H_def]
    show ?thesis
    proof (cases "best_two L cs")
      case None
      then have "next_ledgers M N = {}"
        using support_local(2) [OF prems(3)] P0 child_nexts [OF prems(1)] best_two_none [OF None]
        by (simp add: N_def H_def)
      then show ?thesis using stop None pn False by (auto simp: accepts_def)
    next
      case (Some bs)
      obtain best second where bs: "best_two L cs = Some (best, second)" using Some by (cases bs) auto
      have bm: "best \<in> set cs" by (rule best_two_mem [OF bs])
      note bc = best_child_accepts [OF prems(1,3) _ bs u2 [unfolded nxe]]
      show ?thesis
      proof (cases "unc2 < best_margin L best second \<or> unc2 = 0")
        case True
        have ci: "node_inv hist valid cutp N best" "node_compressed best" using prems(1) bm by (auto simp: N_def H_def)
        note cs = child_support [OF prems(1) bm, folded H_def, folded N_def]
        have Mb: "filter_mset (prefix (take (Suc (length N)) (hist (sp_ledger (nd_span best))))) M = node_abs hist best"
        proof -
          have "prefix (take (Suc (length p)) (hist (sp_ledger (nd_span (Node s t b cs)))))
            (N @ [hist (sp_ledger (nd_span best)) ! sp_end s])"
            using P0 by (simp add: N_def H_def prefix_prefix)
          from support_local(1) [OF prems(3) this] show ?thesis by (simp only: cs(1) cs(2) [symmetric] lenN)
        qed
        have "prefers M g (N @ [hist (sp_ledger (nd_span best)) ! sp_end s]) (take (Suc (st_seq tp)) (hist (st_ledger tp))) \<and>
          valid (st_ledger tp) \<and> st_seq tp \<le> lo_seq L (st_ledger tp) \<and> st_id tp = lo_at L (st_ledger tp) (st_seq tp)"
          using Node.IH [OF bm ci(1) node_abs_nonempty [OF ci] Mb m w(1)] pn False bs True nxe lenN cs(2) by auto
        then show ?thesis using bc(1) [OF _ True] P0 chain nxe by (auto simp: N_def H_def intro: prefers_step)
      next
        case no: False
        then show ?thesis using stop bc(2) [OF _ no] P0 pn False bs by (simp add: N_def H_def)
      qed
    qed
  qed
qed

lemma trie_getPreferred_correct:
  assumes T: "trie_inv L hist valid cutp T"
  shows "trie_getPreferred L g T = None \<longleftrightarrow> trie_abs hist T = {#}"
    and "trie_getPreferred L g T = Some tp \<Longrightarrow>
      prefers (trie_abs hist T) g (hist (lo_genesis L)) (take (Suc (st_seq tp)) (hist (st_ledger tp))) \<and>
      valid (st_ledger tp) \<and> st_seq tp \<le> lo_seq L (st_ledger tp) \<and> st_id tp = lo_at L (st_ledger tp) (st_seq tp)"
proof -
  note em = trie_empty_correct [OF T]
  show "trie_getPreferred L g T = None \<longleftrightarrow> trie_abs hist T = {#}"
    using em by (auto simp: trie_getPreferred_def)
  assume gp: "trie_getPreferred L g T = Some tp"
  let ?M = "trie_abs hist T"
  have r: "node_inv hist valid cutp [] (lt_root T)" "nd_span (lt_root T) = span_genesis L"
    "seq_inv ?M (lt_seqSupport T)" using T by (auto simp: trie_inv_def)
  have h1: "length (hist (lo_genesis L)) = 1" using hist_length [OF genesis_valid] genesis_seq by simp
  have nh: "node_hist hist (lt_root T) = hist (lo_genesis L)" by (simp add: node_hist_def r(2) span_genesis_def h1)
  have "filter_mset (prefix (hist (lo_genesis L))) ?M = ?M"
    using node_abs_prefix [OF r(1)] filter_mset_cong [of ?M ?M "prefix (hist (lo_genesis L))" "\<lambda>_. True"]
    by (fastforce simp: nh trie_abs_def)
  then have M: "filter_mset (prefix (take (Suc (length [])) (hist (sp_ledger (nd_span (lt_root T)))))) ?M = node_abs hist (lt_root T)"
    by (simp add: r(2) span_genesis_def h1 trie_abs_def)
  have "filter_mset (\<lambda>x. length x \<le> 0) ?M = {#}"
    using node_abs_prefix [OF r(1)] h1 by (fastforce simp: filter_mset_eq_mempty_iff nh trie_abs_def)
  then have cur: "cursor ?M (lt_seqSupport T) 0 0 (lt_seqSupport T)" by (simp add: cursor_def)
  have "\<not> trie_empty T" "pref_node L g (lt_root T) 0 (lt_seqSupport T) = tp"
    using gp by (auto simp: trie_getPreferred_def split: if_splits)
  with pref_node_correct [OF r(1) _ M r(3) cur] em show
    "prefers ?M g (hist (lo_genesis L)) (take (Suc (st_seq tp)) (hist (st_ledger tp))) \<and>
      valid (st_ledger tp) \<and> st_seq tp \<le> lo_seq L (st_ledger tp) \<and> st_id tp = lo_at L (st_ledger tp) (st_seq tp)"
    by (auto simp: trie_abs_def r(2) span_genesis_def h1)
qed

end

section \<open>Sequences of operations\<close>

datatype 'l trie_op = TrieInsert 'l nat | TrieRemove 'l nat

fun op_ledger :: "'l trie_op \<Rightarrow> 'l" where
  "op_ledger (TrieInsert l k) = l"
| "op_ledger (TrieRemove l k) = l"

fun op_count :: "'l trie_op \<Rightarrow> nat" where
  "op_count (TrieInsert l k) = k"
| "op_count (TrieRemove l k) = k"

fun trie_exec :: "('l, 'id) ledger_ops \<Rightarrow> 'l trie \<Rightarrow> 'l trie_op list \<Rightarrow> 'l trie" where
  "trie_exec L T [] = T"
| "trie_exec L T (TrieInsert l k # ops) = trie_exec L (trie_insert L l k T) ops"
| "trie_exec L T (TrieRemove l k # ops) = trie_exec L (fst (trie_remove L l k T)) ops"

text \<open>The same operations on the multiset of supported histories.\<close>

fun support_exec :: "('l \<Rightarrow> 'h list) \<Rightarrow> 'h list multiset \<Rightarrow> 'l trie_op list \<Rightarrow> 'h list multiset" where
  "support_exec hist M [] = M"
| "support_exec hist M (TrieInsert l k # ops) = support_exec hist (M + replicate_mset k (hist l)) ops"
| "support_exec hist M (TrieRemove l k # ops) = support_exec hist (M - replicate_mset k (hist l)) ops"

context ledger_history
begin

lemma trie_exec_correct:
  assumes "trie_inv L hist valid cutp T" "\<forall>x \<in> set ops. valid (op_ledger x) \<and> 0 < op_count x"
  shows "trie_inv L hist valid cutp (trie_exec L T ops) \<and>
    trie_abs hist (trie_exec L T ops) = support_exec hist (trie_abs hist T) ops"
  using assms
proof (induction ops arbitrary: T)
  case (Cons x ops)
  show ?case
  proof (cases x)
    case (TrieInsert l k)
    then show ?thesis
      using Cons.IH [of "trie_insert L l k T"] trie_insert_correct [OF Cons.prems(1), of l k] Cons.prems(2) by simp
  next
    case (TrieRemove l k)
    obtain T' ok where r: "trie_remove L l k T = (T', ok)" by fastforce
    then show ?thesis
      using Cons.IH [of T'] trie_remove_correct [OF Cons.prems(1) _ _ r] Cons.prems(2) TrieRemove by simp
  qed
qed simp

end

end
