(* ===== verification/RCLValidatedLedger.thy ===== *)
theory RCLValidatedLedger
  imports LedgerTrie_Preferred
begin

text \<open>
  The ledger type of the running server, \<^verbatim>\<open>src/xrpld/app/consensus/RCLValidations.cpp\<close>: a ledger
  knows its hash, its sequence number and the hashes of a window of recent ancestors. Ledgers whose
  windows all reach one common ancestor satisfy the interface of the ledger trie, so that the theorems
  on the trie hold for it. Hashes are 256-bit words; that a hash determines the sequence number and the
  parent of its ledger is a property of the set of ledgers, stated by \<open>rcl_chain\<close>.
\<close>

type_synonym hash256 = "256 word"

record rcl_ledger =
  rl_ledgerID :: hash256
  rl_ledgerSeq :: nat
  rl_ancestors :: "hash256 list"

definition rcl_genesis :: rcl_ledger where
  "rcl_genesis = \<lparr>rl_ledgerID = 0, rl_ledgerSeq = 0, rl_ancestors = []\<rparr>"

text \<open>
  The constructor from a ledger: the optional list is the \<^verbatim>\<open>sfHashes\<close> field of the ledger's skip list
  entry.
\<close>

definition RCLValidatedLedger_new :: "hash256 \<Rightarrow> nat \<Rightarrow> hash256 list option \<Rightarrow> rcl_ledger" where
  "RCLValidatedLedger_new h s hashIndex =
     \<lparr>rl_ledgerID = h, rl_ledgerSeq = s,
      rl_ancestors = (case hashIndex of Some hs \<Rightarrow> hs | None \<Rightarrow> [])\<rparr>"

definition rcl_minSeq :: "rcl_ledger \<Rightarrow> nat" where
  "rcl_minSeq a = rl_ledgerSeq a - min (rl_ledgerSeq a) (length (rl_ancestors a))"

definition rcl_at :: "rcl_ledger \<Rightarrow> nat \<Rightarrow> hash256" where
  "rcl_at a s =
     (if rcl_minSeq a \<le> s \<and> s \<le> rl_ledgerSeq a
      then if s = rl_ledgerSeq a then rl_ledgerID a
           else rl_ancestors a ! (length (rl_ancestors a) - (rl_ledgerSeq a - s))
      else 0)"

fun mismatch_loop :: "rcl_ledger \<Rightarrow> rcl_ledger \<Rightarrow> nat \<Rightarrow> nat \<Rightarrow> nat" where
  "mismatch_loop a b lower 0 = 0"
| "mismatch_loop a b lower (Suc c) =
     (if rcl_at a (Suc c) \<noteq> rcl_at b (Suc c) \<and> lower \<le> Suc c then mismatch_loop a b lower c else Suc c)"

definition rcl_mismatch :: "rcl_ledger \<Rightarrow> rcl_ledger \<Rightarrow> nat" where
  "rcl_mismatch a b =
     (let lower = max (rcl_minSeq a) (rcl_minSeq b);
          upper = min (rl_ledgerSeq a) (rl_ledgerSeq b);
          curr = mismatch_loop a b lower upper
      in if curr < lower then 1 else curr + 1)"

definition rcl_ops :: "(rcl_ledger, hash256) ledger_ops" where
  "rcl_ops = \<lparr>lo_seq = rl_ledgerSeq, lo_id = rl_ledgerID, lo_at = rcl_at,
     lo_mismatch = rcl_mismatch, lo_genesis = rcl_genesis\<rparr>"

section \<open>Ledgers with a common ancestor in their windows\<close>

definition rcl_chain ::
  "nat \<Rightarrow> hash256 \<Rightarrow> (hash256 \<Rightarrow> hash256) \<Rightarrow> (hash256 \<Rightarrow> nat) \<Rightarrow> rcl_ledger \<Rightarrow> bool" where
  "rcl_chain base B parent num a \<longleftrightarrow>
     a = rcl_genesis \<or>
     (1 \<le> rcl_minSeq a \<and> rcl_minSeq a \<le> base \<and> base \<le> rl_ledgerSeq a \<and> rcl_at a base = B \<and>
      (\<forall>s \<in> {base..rl_ledgerSeq a}. rcl_at a s \<noteq> 0 \<and> num (rcl_at a s) = s) \<and>
      (\<forall>s \<in> {base<..rl_ledgerSeq a}. parent (rcl_at a s) = rcl_at a (s - 1)))"

definition rcl_hist :: "nat \<Rightarrow> rcl_ledger \<Rightarrow> hash256 list" where
  "rcl_hist base a = map (\<lambda>s. if s < base then 0 else rcl_at a s) [0..<Suc (rl_ledgerSeq a)]"

definition rcl_cut :: "nat \<Rightarrow> nat \<Rightarrow> bool" where
  "rcl_cut base s \<longleftrightarrow> s = 0 \<or> base \<le> s"

lemma rcl_hist_nth: "s \<le> rl_ledgerSeq a \<Longrightarrow> rcl_hist base a ! s = (if s < base then 0 else rcl_at a s)"
  by (simp add: rcl_hist_def nth_map_upt del: upt_Suc)

lemma rcl_hist_length [simp]: "length (rcl_hist base a) = Suc (rl_ledgerSeq a)"
  by (simp add: rcl_hist_def)

lemma rcl_at_genesis [simp]: "rcl_at rcl_genesis s = 0" "rl_ledgerSeq rcl_genesis = 0" "rcl_minSeq rcl_genesis = 0"
  by (simp_all add: rcl_at_def rcl_genesis_def rcl_minSeq_def)

text \<open>Equal hashes at one sequence number mean equal ancestors down to the common one.\<close>

lemma chain_agree:
  assumes a: "rcl_chain base B parent num a" and b: "rcl_chain base B parent num b" and base: "0 < base"
    and k: "k \<le> rl_ledgerSeq a" "k \<le> rl_ledgerSeq b" "rcl_at a k = rcl_at b k"
    and s: "base \<le> s" "s \<le> k"
  shows "rcl_at a s = rcl_at b s"
  using s(2)
proof (induction rule: inc_induct)
  case (step n)
  have "a \<noteq> rcl_genesis" "b \<noteq> rcl_genesis" using k s base by auto
  moreover have "Suc n \<in> {base<..rl_ledgerSeq a}" "Suc n \<in> {base<..rl_ledgerSeq b}"
    using step.hyps s k by auto
  ultimately have "parent (rcl_at a (Suc n)) = rcl_at a n" "parent (rcl_at b (Suc n)) = rcl_at b n"
    using a b unfolding rcl_chain_def by (metis diff_Suc_1)+
  then show ?case using step.IH by metis
qed (rule k(3))

lemma take_hist_eq:
  assumes "rcl_chain base B parent num a" "rcl_chain base B parent num b" "0 < base"
    and "k \<le> rl_ledgerSeq a" "k \<le> rl_ledgerSeq b" "base \<le> k \<longrightarrow> rcl_at a k = rcl_at b k"
  shows "take (Suc k) (rcl_hist base a) = take (Suc k) (rcl_hist base b)"
proof (rule nth_equalityI)
  fix i
  assume "i < length (take (Suc k) (rcl_hist base a))"
  then have "i \<le> k" using assms(4) by simp
  then show "take (Suc k) (rcl_hist base a) ! i = take (Suc k) (rcl_hist base b) ! i"
    using chain_agree [OF assms(1-5)] assms(4-6) by (simp add: rcl_hist_nth)
qed (use assms(4,5) in simp)

lemma mismatch_loop_spec:
  assumes "base \<le> c" "lower \<le> base" "rcl_at a base = rcl_at b base" "mismatch_loop a b lower c = r"
  shows "base \<le> r \<and> r \<le> c \<and> rcl_at a r = rcl_at b r \<and> (\<forall>s. r < s \<and> s \<le> c \<longrightarrow> rcl_at a s \<noteq> rcl_at b s)"
  using assms
proof (induction c arbitrary: r)
  case (Suc c)
  show ?case
  proof (cases "rcl_at a (Suc c) \<noteq> rcl_at b (Suc c)")
    case True
    then have c: "base \<le> c" using Suc.prems(1,3) by (metis le_SucE)
    then have "mismatch_loop a b lower c = r" using Suc.prems(2,4) True by simp
    from Suc.IH [OF c Suc.prems(2,3) this] True show ?thesis by (metis le_SucE le_SucI)
  next
    case False
    then show ?thesis using Suc.prems by auto
  qed
qed auto

lemma rcl_mismatch_lcp:
  assumes a: "rcl_chain base B parent num a" and b: "rcl_chain base B parent num b" and base: "0 < base"
  shows "rcl_mismatch a b = lcp_len (rcl_hist base a) (rcl_hist base b) \<and>
    (rcl_mismatch a b = 1 \<or> base < rcl_mismatch a b) \<and>
    (a \<noteq> rcl_genesis \<longrightarrow> b \<noteq> rcl_genesis \<longrightarrow> base < rcl_mismatch a b)"
proof (cases "a = rcl_genesis \<or> b = rcl_genesis")
  case True
  then have z: "min (rl_ledgerSeq a) (rl_ledgerSeq b) = 0" by auto
  have "rcl_mismatch a b = 1" by (simp add: rcl_mismatch_def z)
  moreover have "lcp_len (rcl_hist base a) (rcl_hist base b) = 1"
  proof (rule lcp_len_eqI)
    show "take 1 (rcl_hist base a) = take 1 (rcl_hist base b)"
      using take_hist_eq [OF a b base, of 0] base by simp
  qed (use True in auto)
  ultimately show ?thesis using True by auto
next
  case False
  define lower where "lower = max (rcl_minSeq a) (rcl_minSeq b)"
  define upper where "upper = min (rl_ledgerSeq a) (rl_ledgerSeq b)"
  define r where "r = mismatch_loop a b lower upper"
  have "base \<le> upper" "lower \<le> base" "rcl_at a base = rcl_at b base"
    using a b False by (auto simp: rcl_chain_def lower_def upper_def)
  from mismatch_loop_spec [OF this r_def [symmetric]]
  have r: "base \<le> r" "r \<le> upper" "rcl_at a r = rcl_at b r" "\<And>s. r < s \<Longrightarrow> s \<le> upper \<Longrightarrow> rcl_at a s \<noteq> rcl_at b s"
    by auto
  have m: "rcl_mismatch a b = Suc r"
    using r(1) \<open>lower \<le> base\<close> by (simp add: rcl_mismatch_def Let_def lower_def [symmetric] upper_def [symmetric] r_def [symmetric])
  have "lcp_len (rcl_hist base a) (rcl_hist base b) = Suc r"
  proof (rule lcp_len_eqI)
    show "take (Suc r) (rcl_hist base a) = take (Suc r) (rcl_hist base b)"
      by (rule take_hist_eq [OF a b base]) (use r upper_def in auto)
  next
    assume "Suc r < length (rcl_hist base a)" "Suc r < length (rcl_hist base b)"
    then show "rcl_hist base a ! Suc r \<noteq> rcl_hist base b ! Suc r"
      using r(1) r(4) [of "Suc r"] by (simp add: rcl_hist_nth upper_def)
  qed (use r(2) upper_def in auto)
  then show ?thesis using m r(1) by simp
qed

lemma rcl_id_at:
  assumes a: "rcl_chain base B parent num a" and b: "rcl_chain base B parent num b" and base: "0 < base"
    and s: "rcl_cut base s" "s \<le> rl_ledgerSeq b"
  shows "rcl_at b s = rl_ledgerID a \<longleftrightarrow> take (Suc s) (rcl_hist base b) = rcl_hist base a"
proof -
  have ida: "rl_ledgerID a = rcl_at a (rl_ledgerSeq a)" by (simp add: rcl_at_def rcl_minSeq_def)
  have low: "rcl_at c 0 = 0" if "rcl_chain base B parent num c" for c
    using that by (auto simp: rcl_chain_def rcl_at_def rcl_genesis_def)
  have num: "rcl_at c k \<noteq> 0 \<and> num (rcl_at c k) = k" if "rcl_chain base B parent num c" "base \<le> k" "k \<le> rl_ledgerSeq c" for c k
    using that base by (auto simp: rcl_chain_def)
  have seqa: "rl_ledgerSeq a = 0 \<or> base \<le> rl_ledgerSeq a" using a by (auto simp: rcl_chain_def)
  have len: "length (take (Suc s) (rcl_hist base b)) = Suc s" using s(2) by simp
  show ?thesis
  proof
    assume eq: "rcl_at b s = rl_ledgerID a"
    have "s = rl_ledgerSeq a"
      using s seqa num [OF b] num [OF a] low [OF a] low [OF b] eq ida by (metis order_refl rcl_cut_def)
    then show "take (Suc s) (rcl_hist base b) = rcl_hist base a"
      using take_hist_eq [OF b a base, of s] s(2) eq ida by simp
  next
    assume eq: "take (Suc s) (rcl_hist base b) = rcl_hist base a"
    then have sa: "s = rl_ledgerSeq a" using len by simp
    have "rcl_hist base b ! s = rcl_hist base a ! s" using arg_cong [OF eq, of "\<lambda>l. l ! s"] by simp
    then show "rcl_at b s = rl_ledgerID a"
      using s sa ida low [OF a] low [OF b] by (auto simp: rcl_hist_nth rcl_cut_def split: if_splits)
  qed
qed

interpretation rcl: ledger_history rcl_ops "rcl_chain (Suc base) B parent num" "rcl_hist (Suc base)" "rcl_cut (Suc base)"
proof
  fix a b :: rcl_ledger and s
  assume a: "rcl_chain (Suc base) B parent num a"
  show "rcl_cut (Suc base) (lo_seq rcl_ops a)" using a by (auto simp: rcl_cut_def rcl_chain_def rcl_ops_def)
  assume b: "rcl_chain (Suc base) B parent num b"
  note m = rcl_mismatch_lcp [OF a b]
  show "lo_mismatch rcl_ops a b = lcp_len (rcl_hist (Suc base) a) (rcl_hist (Suc base) b)"
    using m by (simp add: rcl_ops_def)
  show "rcl_cut (Suc base) (lo_mismatch rcl_ops a b - 1)"
    using m by (auto simp: rcl_ops_def rcl_cut_def)
  show "rcl_cut (Suc base) s \<Longrightarrow> s \<le> lo_seq rcl_ops b \<Longrightarrow>
    (lo_at rcl_ops b s = lo_id rcl_ops a) = (take (Suc s) (rcl_hist (Suc base) b) = rcl_hist (Suc base) a)"
    using rcl_id_at [OF a b] by (simp add: rcl_ops_def)
  show "lo_mismatch rcl_ops a b = s \<Longrightarrow> s \<le> lo_seq rcl_ops a \<Longrightarrow> s \<le> lo_seq rcl_ops b \<Longrightarrow>
    lo_at rcl_ops a s = rcl_hist (Suc base) a ! s"
    using m by (cases "a = rcl_genesis \<or> b = rcl_genesis") (auto simp: rcl_ops_def rcl_hist_nth)
qed (auto simp: rcl_ops_def rcl_chain_def rcl_hist_nth)

section \<open>The trie over the server's ledgers\<close>

text \<open>A small tree of ledgers: two ledgers with sequence number 3 above a common parent.\<close>

definition ex_num :: "hash256 \<Rightarrow> nat" where
  "ex_num h = (if h = 1 then 1 else if h = 2 then 2 else 3)"

definition ex_parent :: "hash256 \<Rightarrow> hash256" where
  "ex_parent h = (if h = 2 then 1 else 2)"

definition ex_C :: rcl_ledger where
  "ex_C = RCLValidatedLedger_new 3 3 (Some [1, 2])"

definition ex_D :: rcl_ledger where
  "ex_D = RCLValidatedLedger_new 4 3 (Some [1, 2])"

lemma ex_range: "{Suc 0..3::nat} = {1, 2, 3}" "{Suc 0<..3::nat} = {2, 3}"
  by auto

lemma ex_chain:
  "rcl_chain (Suc 0) 1 ex_parent ex_num ex_C" "rcl_chain (Suc 0) 1 ex_parent ex_num ex_D"
  by (simp_all add: rcl_chain_def ex_C_def ex_D_def RCLValidatedLedger_new_def rcl_minSeq_def rcl_at_def
      ex_range ex_num_def ex_parent_def nth_Cons')

text \<open>
  C1: The ledger trie implements a multiset of ledger histories. After any sequence of insertions and
  removals of ledgers whose windows reach a common ancestor, the tip support of a ledger is its number
  of supporters and the branch support is the number of supporters of the ledger or a descendant.
\<close>

theorem rcl_trie_refines_multiset:
  assumes "\<forall>x \<in> set ops. rcl_chain (Suc base) B parent num (op_ledger x) \<and> 0 < op_count x"
    and "rcl_chain (Suc base) B parent num l"
  defines "T \<equiv> trie_exec rcl_ops (LedgerTrie_new rcl_ops) ops"
    and "M \<equiv> support_exec (rcl_hist (Suc base)) {#} ops"
  shows "trie_tipSupport rcl_ops T l = count M (rcl_hist (Suc base) l) \<and>
    trie_branchSupport rcl_ops T l = size (filter_mset (prefix (rcl_hist (Suc base) l)) M) \<and>
    (trie_empty T \<longleftrightarrow> M = {#}) \<and>
    (snd (trie_remove rcl_ops l 1 T) \<longleftrightarrow> rcl_hist (Suc base) l \<in># M)"
proof -
  have T: "trie_inv rcl_ops (rcl_hist (Suc base)) (rcl_chain (Suc base) B parent num) (rcl_cut (Suc base)) T"
    and M: "trie_abs (rcl_hist (Suc base)) T = M"
    using rcl.trie_exec_correct [OF rcl.trie_new_correct(1) assms(1)] rcl.trie_new_correct(2)
    by (simp_all add: T_def M_def)
  obtain T' ok where "trie_remove rcl_ops l 1 T = (T', ok)" by fastforce
  with rcl.trie_tipSupport_correct [OF T assms(2)] rcl.trie_branchSupport_correct [OF T assms(2)]
    rcl.trie_empty_correct [OF T] rcl.trie_remove_correct [OF T assms(2), of 1 T' ok] M
  show ?thesis by simp
qed

theorem rcl_trie_refines_multiset_witness:
  "trie_branchSupport rcl_ops (trie_exec rcl_ops (LedgerTrie_new rcl_ops) [TrieInsert ex_C 1, TrieInsert ex_D 2, TrieRemove ex_C 1]) ex_D = 2"
  using rcl_trie_refines_multiset [of "[TrieInsert ex_C 1, TrieInsert ex_D 2, TrieRemove ex_C 1]" 0 1 ex_parent ex_num ex_D]
  by (simp add: ex_chain filter_replicate_mset)

text \<open>The code's own invariant check succeeds after every such sequence of operations.\<close>

theorem rcl_trie_checkInvariants:
  assumes "\<forall>x \<in> set ops. rcl_chain (Suc base) B parent num (op_ledger x) \<and> 0 < op_count x"
  shows "trie_checkInvariants (trie_exec rcl_ops (LedgerTrie_new rcl_ops) ops)"
  using rcl.trie_exec_correct [OF rcl.trie_new_correct(1) assms] checkInvariants_correct by blast

theorem rcl_trie_checkInvariants_witness:
  "trie_checkInvariants (trie_exec rcl_ops (LedgerTrie_new rcl_ops) [TrieInsert ex_C 1, TrieInsert ex_D 2, TrieRemove ex_C 1])"
  by (rule rcl_trie_checkInvariants [of _ 0 1 ex_parent ex_num]) (simp add: ex_chain)



end
