(* ===== verification/Validations.thy ===== *)
theory Validations
  imports RCLValidatedLedger
begin

text \<open>
  The validations received from the network, \<^verbatim>\<open>include/xrpl/consensus/Validations.h\<close>: the current
  validation of every node, the recent ones by ledger and by sequence number, and the trie of the
  ledgers the trusted nodes work on.

  \<^item> The template parameter \<^verbatim>\<open>Adaptor\<close> is the record \<open>val_adaptor\<close> of what a call gets from it and from
    the clock; it is given anew to every operation, and its answers are the same during one call.
  \<^item> The ledger type is the record \<open>ledger_ops\<close> of the trie, and a validation is the record of what
    the class reads of it; \<^verbatim>\<open>unwrap\<close> is the validation itself. The containers of the server share the
    object behind a validation; \<^verbatim>\<open>trustChanged\<close> updates it in \<^verbatim>\<open>current_\<close> and in \<^verbatim>\<open>byLedger_\<close>, so that the
    sharing shows only in the trusted flag inside \<^verbatim>\<open>bySequence_\<close>, which is never read.
  \<^item> The aged containers are lists of entries in chronological order with the time of the last touch.
    Their iteration order, like that of the hash maps, is left open by the library.
  \<^item> Sequence numbers are \<open>nat\<close> as in the trie. Times of \<^verbatim>\<open>NetClock\<close> are 32-bit words, promoted to
    \<open>int\<close> where the code promotes them; durations of the parameters are in seconds.
  \<^item> The mutex, the sizes of the containers and \<^verbatim>\<open>getJsonTrie\<close> are left out.
\<close>

section \<open>Parameters and the sequence enforcer\<close>

record validation_parms =
  validationCurrentWall :: int
  validationCurrentLocal :: int
  validationCurrentEarly :: int
  validationSetExpires :: int
  validationFRESHNESS :: int

definition ValidationParms :: validation_parms where
  "ValidationParms = \<lparr>validationCurrentWall = 300, validationCurrentLocal = 180, validationCurrentEarly = 180,
     validationSetExpires = 600, validationFRESHNESS = 20\<rparr>"

text \<open>A duration in seconds on the steady clock.\<close>

definition steady_secs :: "int \<Rightarrow> steadytime" where
  "steady_secs s = s * 1000000000"

record seq_enforcer =
  se_seq :: nat
  se_when :: steadytime

definition SeqEnforcer_new :: seq_enforcer where
  "SeqEnforcer_new = \<lparr>se_seq = 0, se_when = 0\<rparr>"

definition seq_enforce :: "steadytime \<Rightarrow> nat \<Rightarrow> validation_parms \<Rightarrow> seq_enforcer \<Rightarrow> seq_enforcer \<times> bool" where
  "seq_enforce now s p e =
     (let e1 = (if now > se_when e + steady_secs (validationSetExpires p) then e\<lparr>se_seq := 0\<rparr> else e)
      in if s \<le> se_seq e1 then (e1, False) else (\<lparr>se_seq = s, se_when = now\<rparr>, True))"

definition isCurrent :: "validation_parms \<Rightarrow> nettime \<Rightarrow> nettime \<Rightarrow> nettime \<Rightarrow> bool" where
  "isCurrent p now signTime seenTime \<longleftrightarrow>
     uint signTime > uint now - validationCurrentEarly p \<and>
     uint signTime < uint now + validationCurrentWall p \<and>
     (seenTime = 0 \<or> uint seenTime < uint now + validationCurrentLocal p)"

datatype ValStatus = VsCurrent | VsStale | VsBadSeq | VsMultiple | VsConflicting

section \<open>Aged containers\<close>

type_synonym ('k, 'v) aged = "('k \<times> steadytime \<times> 'v) list"

text \<open>\<^verbatim>\<open>operator[]\<close> with the use of the reference as a function: a missing entry is made now.\<close>

definition aged_modify :: "steadytime \<Rightarrow> 'k \<Rightarrow> 'v \<Rightarrow> ('v \<Rightarrow> 'v) \<Rightarrow> ('k, 'v) aged \<Rightarrow> ('k, 'v) aged" where
  "aged_modify now k dflt f m =
     (case map_of m k of
        None \<Rightarrow> m @ [(k, now, f dflt)]
      | Some _ \<Rightarrow> map (\<lambda>(k', w, v). if k' = k then (k', w, f v) else (k', w, v)) m)"

definition aged_find :: "('k, 'v) aged \<Rightarrow> 'k \<Rightarrow> 'v option" where
  "aged_find m k = map_option snd (map_of m k)"

definition aged_touch :: "steadytime \<Rightarrow> 'k \<Rightarrow> ('k, 'v) aged \<Rightarrow> ('k, 'v) aged" where
  "aged_touch now k m =
     (case map_of m k of
        None \<Rightarrow> m
      | Some (_, v) \<Rightarrow> filter (\<lambda>(k', _). k' \<noteq> k) m @ [(k, now, v)])"

definition aged_expire :: "steadytime \<Rightarrow> steadytime \<Rightarrow> ('k, 'v) aged \<Rightarrow> ('k, 'v) aged" where
  "aged_expire now age m = dropWhile (\<lambda>(_, w, _). w \<le> now - age) m"

section \<open>The state\<close>

record ('key, 'id) validation =
  va_ledgerID :: 'id
  va_seq :: nat
  va_signTime :: nettime
  va_seenTime :: nettime
  va_key :: 'key
  va_trusted :: bool
  va_full :: bool
  va_cookie :: "64 word"
  va_loadFee :: "32 word option"

record ('l, 'id) val_adaptor =
  vd_now :: nettime
  vd_clock :: steadytime
  vd_acquire :: "'id \<Rightarrow> 'l option"

record ('n, 'key, 'l, 'id) validations =
  vs_current :: "('n, ('key, 'id) validation) hm"
  vs_localSeqEnforcer :: seq_enforcer
  vs_seqEnforcers :: "('n, seq_enforcer) hm"
  vs_byLedger :: "('id, ('n, ('key, 'id) validation) hm) aged"
  vs_bySequence :: "(nat, ('n, ('key, 'id) validation) hm) aged"
  vs_toKeep :: "(nat \<times> nat) option"
  vs_kRefreshTime :: steadytime
  vs_trie :: "'l trie"
  vs_lastLedger :: "('n, 'l) hm"
  vs_acquiring :: "(nat \<times> 'id, 'n list) hm"
  vs_parms :: validation_parms

definition Validations_new :: "('l, 'id) ledger_ops \<Rightarrow> validation_parms \<Rightarrow> ('n, 'key, 'l, 'id) validations" where
  "Validations_new L p =
     \<lparr>vs_current = [], vs_localSeqEnforcer = SeqEnforcer_new, vs_seqEnforcers = [], vs_byLedger = [],
      vs_bySequence = [], vs_toKeep = None, vs_kRefreshTime = 0, vs_trie = LedgerTrie_new L, vs_lastLedger = [],
      vs_acquiring = [], vs_parms = p\<rparr>"

section \<open>The trie\<close>

text \<open>A node gives up on a ledger that is being acquired.\<close>

definition acquiring_erase :: "nat \<times> 'id \<Rightarrow> 'n \<Rightarrow> ('n, 'key, 'l, 'id) validations \<Rightarrow> ('n, 'key, 'l, 'id) validations" where
  "acquiring_erase k nodeID st =
     (case hm_find (vs_acquiring st) k of
        None \<Rightarrow> st
      | Some ns \<Rightarrow>
          let ns' = removeAll nodeID ns
          in st\<lparr>vs_acquiring := (if ns' = [] then hm_erase (vs_acquiring st) k else hm_assign (vs_acquiring st) k ns')\<rparr>)"

definition removeTrie ::
  "('l, 'id) ledger_ops \<Rightarrow> 'n \<Rightarrow> ('key, 'id) validation \<Rightarrow> ('n, 'key, 'l, 'id) validations \<Rightarrow> ('n, 'key, 'l, 'id) validations" where
  "removeTrie L nodeID val st =
     (let st1 = acquiring_erase (va_seq val, va_ledgerID val) nodeID st
      in case hm_find (vs_lastLedger st1) nodeID of
           None \<Rightarrow> st1
         | Some l \<Rightarrow>
             if lo_id L l = va_ledgerID val
             then st1\<lparr>vs_trie := fst (trie_remove L l 1 (vs_trie st1)), vs_lastLedger := hm_erase (vs_lastLedger st1) nodeID\<rparr>
             else st1)"

text \<open>\<^verbatim>\<open>updateTrie\<close> with a ledger.\<close>

definition updateTrie_ledger ::
  "('l, 'id) ledger_ops \<Rightarrow> 'n \<Rightarrow> 'l \<Rightarrow> ('n, 'key, 'l, 'id) validations \<Rightarrow> ('n, 'key, 'l, 'id) validations" where
  "updateTrie_ledger L nodeID ledger st =
     (let st1 = (case hm_find (vs_lastLedger st) nodeID of
                   None \<Rightarrow> st\<lparr>vs_lastLedger := fst (hm_emplace (vs_lastLedger st) nodeID ledger)\<rparr>
                 | Some old \<Rightarrow> st\<lparr>vs_trie := fst (trie_remove L old 1 (vs_trie st)),
                                  vs_lastLedger := hm_assign (vs_lastLedger st) nodeID ledger\<rparr>)
      in st1\<lparr>vs_trie := trie_insert L ledger 1 (vs_trie st1)\<rparr>)"

definition checkAcquired ::
  "('l, 'id) ledger_ops \<Rightarrow> ('l, 'id) val_adaptor \<Rightarrow> ('n, 'key, 'l, 'id) validations \<Rightarrow> ('n, 'key, 'l, 'id) validations" where
  "checkAcquired L A st =
     fold (\<lambda>(k, ns) s.
             case vd_acquire A (snd k) of
               Some ledger \<Rightarrow>
                 let s1 = fold (\<lambda>nodeID. updateTrie_ledger L nodeID ledger) ns s
                 in s1\<lparr>vs_acquiring := hm_erase (vs_acquiring s1) k\<rparr>
             | None \<Rightarrow> s)
       (vs_acquiring st) st"

text \<open>\<^verbatim>\<open>updateTrie\<close> with a trusted validation.\<close>

definition updateTrie ::
  "('l, 'id) ledger_ops \<Rightarrow> ('l, 'id) val_adaptor \<Rightarrow> 'n \<Rightarrow> ('key, 'id) validation \<Rightarrow> (nat \<times> 'id) option \<Rightarrow>
   ('n, 'key, 'l, 'id) validations \<Rightarrow> ('n, 'key, 'l, 'id) validations" where
  "updateTrie L A nodeID val prior st =
     (let st1 = (case prior of None \<Rightarrow> st | Some p \<Rightarrow> acquiring_erase p nodeID st);
          st2 = checkAcquired L A st1;
          valPair = (va_seq val, va_ledgerID val)
      in case hm_find (vs_acquiring st2) valPair of
           Some ns \<Rightarrow> st2\<lparr>vs_acquiring := hm_assign (vs_acquiring st2) valPair (List.insert nodeID ns)\<rparr>
         | None \<Rightarrow>
             (case vd_acquire A (va_ledgerID val) of
                Some ledger \<Rightarrow> updateTrie_ledger L nodeID ledger st2
              | None \<Rightarrow> st2\<lparr>vs_acquiring := hm_assign (vs_acquiring st2) valPair [nodeID]\<rparr>))"

text \<open>
  \<^verbatim>\<open>current\<close>: stale validations are dropped. The callback sees those that remain, in their order; it
  does not touch the state, so that the callers apply it to \<open>vs_current\<close> of the result.
\<close>

definition flush_stale ::
  "('l, 'id) ledger_ops \<Rightarrow> ('l, 'id) val_adaptor \<Rightarrow> ('n, 'key, 'l, 'id) validations \<Rightarrow> ('n, 'key, 'l, 'id) validations" where
  "flush_stale L A st =
     fold (\<lambda>(n, v) s.
             if \<not> isCurrent (vs_parms s) (vd_now A) (va_signTime v) (va_seenTime v)
             then let s1 = removeTrie L n v s in s1\<lparr>vs_current := hm_erase (vs_current s1) n\<rparr>
             else s)
       (vs_current st) st"

text \<open>\<^verbatim>\<open>withTrie\<close>: the state in which the trie is used.\<close>

definition withTrie ::
  "('l, 'id) ledger_ops \<Rightarrow> ('l, 'id) val_adaptor \<Rightarrow> ('n, 'key, 'l, 'id) validations \<Rightarrow> ('n, 'key, 'l, 'id) validations" where
  "withTrie L A st = checkAcquired L A (flush_stale L A st)"

text \<open>\<^verbatim>\<open>byLedger\<close>: the validations of a ledger, whose set is marked as used.\<close>

definition byLedger ::
  "('l, 'id) val_adaptor \<Rightarrow> 'id \<Rightarrow> ('n, 'key, 'l, 'id) validations \<Rightarrow> ('n, 'key, 'l, 'id) validations \<times> ('key, 'id) validation list" where
  "byLedger A ledgerID st =
     (case aged_find (vs_byLedger st) ledgerID of
        None \<Rightarrow> (st, [])
      | Some vals \<Rightarrow> (st\<lparr>vs_byLedger := aged_touch (vd_clock A) ledgerID (vs_byLedger st)\<rparr>, map snd vals))"

section \<open>Adding a validation\<close>

definition canValidateSeq ::
  "('l, 'id) val_adaptor \<Rightarrow> nat \<Rightarrow> ('n, 'key, 'l, 'id) validations \<Rightarrow> ('n, 'key, 'l, 'id) validations \<times> bool" where
  "canValidateSeq A s st =
     (case seq_enforce (vd_clock A) s (vs_parms st) (vs_localSeqEnforcer st) of
        (e, ok) \<Rightarrow> (st\<lparr>vs_localSeqEnforcer := e\<rparr>, ok))"

text \<open>The entry of the node for the sequence number: the first one, or a much later one.\<close>

definition track_sequence ::
  "validation_parms \<Rightarrow> ('key, 'id) validation \<Rightarrow> ('key, 'id) validation option \<Rightarrow> ('key, 'id) validation" where
  "track_sequence p val old =
     (case old of
        None \<Rightarrow> val
      | Some o' \<Rightarrow>
          let diff = max (uint (va_signTime o')) (uint (va_signTime val)) - min (uint (va_signTime o')) (uint (va_signTime val))
          in if diff > validationCurrentWall p \<and> va_signTime val > va_signTime o' then val else o')"

definition bad_sequence_status :: "('key, 'id) validation \<Rightarrow> ('key, 'id) validation \<Rightarrow> ValStatus" where
  "bad_sequence_status tracked val =
     (if va_seq tracked = va_seq val
      then if va_ledgerID tracked \<noteq> va_ledgerID val then VsConflicting
           else if va_signTime tracked \<noteq> va_signTime val then VsConflicting
           else if va_cookie tracked \<noteq> va_cookie val then VsMultiple
           else VsBadSeq
      else VsBadSeq)"

definition add ::
  "('l, 'id) ledger_ops \<Rightarrow> ('l, 'id) val_adaptor \<Rightarrow> 'n \<Rightarrow> ('key, 'id) validation \<Rightarrow>
   ('n, 'key, 'l, 'id) validations \<Rightarrow> ('n, 'key, 'l, 'id) validations \<times> ValStatus" where
  "add L A nodeID val st =
     (if \<not> isCurrent (vs_parms st) (vd_now A) (va_signTime val) (va_seenTime val) then (st, VsStale)
      else
        let now = vd_clock A;
            seqMap = (case aged_find (vs_bySequence st) (va_seq val) of None \<Rightarrow> [] | Some m \<Rightarrow> m);
            tracked = track_sequence (vs_parms st) val (hm_find seqMap nodeID);
            st1 = st\<lparr>vs_bySequence := aged_modify now (va_seq val) [] (\<lambda>m. hm_assign m nodeID tracked) (vs_bySequence st)\<rparr>;
            enf = (case hm_find (vs_seqEnforcers st1) nodeID of None \<Rightarrow> SeqEnforcer_new | Some e \<Rightarrow> e);
            (enf', ok) = seq_enforce now (va_seq val) (vs_parms st1) enf;
            st2 = st1\<lparr>vs_seqEnforcers := hm_assign (vs_seqEnforcers st1) nodeID enf'\<rparr>
        in if \<not> ok then (st2, bad_sequence_status tracked val)
           else
             let st3 = st2\<lparr>vs_byLedger := aged_modify now (va_ledgerID val) [] (\<lambda>m. hm_assign m nodeID val) (vs_byLedger st2)\<rparr>
             in case hm_find (vs_current st3) nodeID of
                  None \<Rightarrow>
                    let st4 = st3\<lparr>vs_current := fst (hm_emplace (vs_current st3) nodeID val)\<rparr>
                    in ((if va_trusted val then updateTrie L A nodeID val None st4 else st4), VsCurrent)
                | Some oldVal \<Rightarrow>
                    if va_signTime val > va_signTime oldVal
                    then let old = (va_seq oldVal, va_ledgerID oldVal);
                             st4 = st3\<lparr>vs_current := hm_assign (vs_current st3) nodeID val\<rparr>
                         in ((if va_trusted val then updateTrie L A nodeID val (Some old) st4 else st4), VsCurrent)
                    else (st3, VsStale))"

section \<open>Expiration and trust\<close>

definition setSeqToKeep :: "nat \<Rightarrow> nat \<Rightarrow> ('n, 'key, 'l, 'id) validations \<Rightarrow> ('n, 'key, 'l, 'id) validations" where
  "setSeqToKeep low high st = st\<lparr>vs_toKeep := Some (low, high)\<rparr>"

text \<open>The refresh of the range to keep; \<^verbatim>\<open>kRefreshTime\<close> is a static local variable of the code.\<close>

definition refresh_kept ::
  "('l, 'id) val_adaptor \<Rightarrow> ('n, 'key, 'l, 'id) validations \<Rightarrow> ('n, 'key, 'l, 'id) validations" where
  "refresh_kept A st =
     (case vs_toKeep st of
        None \<Rightarrow> st
      | Some (low, high) \<Rightarrow>
          if vs_kRefreshTime st \<le> vd_clock A
          then st\<lparr>vs_kRefreshTime := vd_clock A + steady_secs (validationSetExpires (vs_parms st)) - steady_secs (validationFRESHNESS (vs_parms st)),
                  vs_byLedger := fold (\<lambda>(k, _, vals) m.
                                        case vals of
                                          [] \<Rightarrow> m
                                        | (_, v) # _ \<Rightarrow> if low \<le> va_seq v \<and> va_seq v < high then aged_touch (vd_clock A) k m else m)
                                   (vs_byLedger st) (vs_byLedger st),
                  vs_bySequence := fold (\<lambda>(k, _) m. if low \<le> k \<and> k < high then aged_touch (vd_clock A) k m else m)
                                     (vs_bySequence st) (vs_bySequence st)\<rparr>
          else st)"

definition expire ::
  "('l, 'id) val_adaptor \<Rightarrow> ('n, 'key, 'l, 'id) validations \<Rightarrow> ('n, 'key, 'l, 'id) validations" where
  "expire A st =
     (let st1 = refresh_kept A st;
          age = steady_secs (validationSetExpires (vs_parms st1))
      in st1\<lparr>vs_byLedger := aged_expire (vd_clock A) age (vs_byLedger st1),
             vs_bySequence := aged_expire (vd_clock A) age (vs_bySequence st1)\<rparr>)"

definition set_trust :: "'n list \<Rightarrow> 'n list \<Rightarrow> 'n \<Rightarrow> ('key, 'id) validation \<Rightarrow> ('key, 'id) validation" where
  "set_trust added removed n v =
     (if n \<in> set added then v\<lparr>va_trusted := True\<rparr>
      else if n \<in> set removed then v\<lparr>va_trusted := False\<rparr> else v)"

definition trustChanged ::
  "('l, 'id) ledger_ops \<Rightarrow> ('l, 'id) val_adaptor \<Rightarrow> 'n list \<Rightarrow> 'n list \<Rightarrow>
   ('n, 'key, 'l, 'id) validations \<Rightarrow> ('n, 'key, 'l, 'id) validations" where
  "trustChanged L A added removed st =
     (let st1 = fold (\<lambda>(n, v) s.
                        let v' = set_trust added removed n v;
                            s1 = s\<lparr>vs_current := hm_assign (vs_current s) n v'\<rparr>
                        in if n \<in> set added then updateTrie L A n v' None s1
                           else if n \<in> set removed then removeTrie L n v' s1
                           else s)
                  (vs_current st) st
      in st1\<lparr>vs_byLedger := map (\<lambda>(k, w, vals). (k, w, hm_map (set_trust added removed) vals)) (vs_byLedger st1)\<rparr>)"

section \<open>The preferred ledger\<close>

text \<open>\<^verbatim>\<open>max_element\<close>: the first entry that no other one exceeds.\<close>

fun max_element :: "('a \<Rightarrow> 'a \<Rightarrow> bool) \<Rightarrow> 'a list \<Rightarrow> 'a option" where
  "max_element lt [] = None"
| "max_element lt (x # xs) = Some (fold (\<lambda>y best. if lt best y then y else best) xs x)"

definition acquiring_less :: "(nat \<times> 'id::linorder) \<times> 'n list \<Rightarrow> (nat \<times> 'id) \<times> 'n list \<Rightarrow> bool" where
  "acquiring_less a b \<longleftrightarrow>
     length (snd a) < length (snd b) \<or> length (snd a) = length (snd b) \<and> snd (fst a) < snd (fst b)"

definition getPreferred ::
  "('l, 'id::linorder) ledger_ops \<Rightarrow> ('l, 'id) val_adaptor \<Rightarrow> 'l \<Rightarrow> ('n, 'key, 'l, 'id) validations \<Rightarrow>
   ('n, 'key, 'l, 'id) validations \<times> (nat \<times> 'id) option" where
  "getPreferred L A working st =
     (let st1 = withTrie L A st
      in (st1,
          case trie_getPreferred L (se_seq (vs_localSeqEnforcer st1)) (vs_trie st1) of
            None \<Rightarrow> map_option fst (max_element acquiring_less (vs_acquiring st1))
          | Some preferred \<Rightarrow>
              if st_seq preferred = lo_seq L working + 1 \<and> st_ancestor L preferred (lo_seq L working) = lo_id L working
              then Some (lo_seq L working, lo_id L working)
              else if st_seq preferred > lo_seq L working then Some (st_seq preferred, st_id preferred)
              else if lo_at L working (st_seq preferred) \<noteq> st_id preferred then Some (st_seq preferred, st_id preferred)
              else Some (lo_seq L working, lo_id L working)))"

definition getPreferred_min ::
  "('l, 'id::linorder) ledger_ops \<Rightarrow> ('l, 'id) val_adaptor \<Rightarrow> 'l \<Rightarrow> nat \<Rightarrow> ('n, 'key, 'l, 'id) validations \<Rightarrow>
   ('n, 'key, 'l, 'id) validations \<times> 'id" where
  "getPreferred_min L A working minValidSeq st =
     (case getPreferred L A working st of
        (st1, Some (s, i)) \<Rightarrow> (st1, if minValidSeq \<le> s then i else lo_id L working)
      | (st1, None) \<Rightarrow> (st1, lo_id L working))"

definition peer_less :: "'id::linorder \<times> nat \<Rightarrow> 'id \<times> nat \<Rightarrow> bool" where
  "peer_less a b \<longleftrightarrow> snd a < snd b \<or> snd a = snd b \<and> fst a < fst b"

definition getPreferredLCL ::
  "('l, 'id::linorder) ledger_ops \<Rightarrow> ('l, 'id) val_adaptor \<Rightarrow> 'l \<Rightarrow> nat \<Rightarrow> ('id, nat) hm \<Rightarrow> ('n, 'key, 'l, 'id) validations \<Rightarrow>
   ('n, 'key, 'l, 'id) validations \<times> 'id" where
  "getPreferredLCL L A lcl minSeq peerCounts st =
     (case getPreferred L A lcl st of
        (st1, Some (s, i)) \<Rightarrow> (st1, if minSeq \<le> s then i else lo_id L lcl)
      | (st1, None) \<Rightarrow>
          (st1, case max_element peer_less peerCounts of Some (i, _) \<Rightarrow> i | None \<Rightarrow> lo_id L lcl))"

definition getNodesAfter ::
  "('l, 'id) ledger_ops \<Rightarrow> ('l, 'id) val_adaptor \<Rightarrow> 'l \<Rightarrow> 'id \<Rightarrow> ('n, 'key, 'l, 'id) validations \<Rightarrow>
   ('n, 'key, 'l, 'id) validations \<times> nat" where
  "getNodesAfter L A ledger ledgerID st =
     (if lo_id L ledger = ledgerID
      then let st1 = withTrie L A st
           in (st1, trie_branchSupport L (vs_trie st1) ledger - trie_tipSupport L (vs_trie st1) ledger)
      else (st, length (filter (\<lambda>(_, working). lo_seq L working > 0 \<and> lo_at L working (lo_seq L working - 1) = ledgerID) (vs_lastLedger st))))"

section \<open>Queries\<close>

definition currentTrusted ::
  "('l, 'id) ledger_ops \<Rightarrow> ('l, 'id) val_adaptor \<Rightarrow> ('n, 'key, 'l, 'id) validations \<Rightarrow>
   ('n, 'key, 'l, 'id) validations \<times> ('key, 'id) validation list" where
  "currentTrusted L A st =
     (let st1 = flush_stale L A st in (st1, filter (\<lambda>v. va_trusted v \<and> va_full v) (map snd (vs_current st1))))"

definition getCurrentNodeIDs ::
  "('l, 'id) ledger_ops \<Rightarrow> ('l, 'id) val_adaptor \<Rightarrow> ('n, 'key, 'l, 'id) validations \<Rightarrow>
   ('n, 'key, 'l, 'id) validations \<times> 'n list" where
  "getCurrentNodeIDs L A st = (let st1 = flush_stale L A st in (st1, map fst (vs_current st1)))"

definition numTrustedForLedger ::
  "('l, 'id) val_adaptor \<Rightarrow> 'id \<Rightarrow> ('n, 'key, 'l, 'id) validations \<Rightarrow> ('n, 'key, 'l, 'id) validations \<times> nat" where
  "numTrustedForLedger A ledgerID st =
     (case byLedger A ledgerID st of (st1, vals) \<Rightarrow> (st1, length (filter (\<lambda>v. va_trusted v \<and> va_full v) vals)))"

definition getTrustedForLedger ::
  "('l, 'id) val_adaptor \<Rightarrow> 'id \<Rightarrow> nat \<Rightarrow> ('n, 'key, 'l, 'id) validations \<Rightarrow>
   ('n, 'key, 'l, 'id) validations \<times> ('key, 'id) validation list" where
  "getTrustedForLedger A ledgerID s st =
     (case byLedger A ledgerID st of (st1, vals) \<Rightarrow> (st1, filter (\<lambda>v. va_trusted v \<and> va_full v \<and> va_seq v = s) vals))"

definition fees ::
  "('l, 'id) val_adaptor \<Rightarrow> 'id \<Rightarrow> 32 word \<Rightarrow> ('n, 'key, 'l, 'id) validations \<Rightarrow> ('n, 'key, 'l, 'id) validations \<times> 32 word list" where
  "fees A ledgerID baseFee st =
     (case byLedger A ledgerID st of
        (st1, vals) \<Rightarrow>
          (st1, map (\<lambda>v. case va_loadFee v of Some f \<Rightarrow> f | None \<Rightarrow> baseFee) (filter (\<lambda>v. va_trusted v \<and> va_full v) vals)))"

definition flush_current :: "('n, 'key, 'l, 'id) validations \<Rightarrow> ('n, 'key, 'l, 'id) validations" where
  "flush_current st = st\<lparr>vs_current := []\<rparr>"

text \<open>\<^verbatim>\<open>laggards\<close>: the number of laggards and the keys of the proposers that were not heard of.\<close>

definition laggards ::
  "('l, 'id) ledger_ops \<Rightarrow> ('l, 'id) val_adaptor \<Rightarrow> nat \<Rightarrow> 'key list \<Rightarrow> ('n, 'key, 'l, 'id) validations \<Rightarrow>
   ('n, 'key, 'l, 'id) validations \<times> nat \<times> 'key list" where
  "laggards L A s trustedKeys st =
     (let st1 = flush_stale L A st
      in (st1, fold (\<lambda>(_, v) (n, keys).
                       if uint (vd_now A) < uint (va_seenTime v) + validationFRESHNESS (vs_parms st1) \<and> va_key v \<in> set keys
                       then (if s > va_seq v then Suc n else n, removeAll (va_key v) keys)
                       else (n, keys))
                 (vs_current st1) (0, trustedKeys)))"

end
