(* ===== verification/Validations_Correct.thy ===== *)
theory Validations_Correct
  imports Validations
begin

text \<open>
  Correctness of the validations: the trie always counts every node once, for the last ledger that was
  acquired for it; the sequence enforcer; the evidence behind a conflict; and two ways in which the
  class does not keep what its comments promise.
\<close>

section \<open>Values of a hash map as a multiset\<close>

lemma mset_erase:
  "hm_wf m \<Longrightarrow> hm_find m k = Some v \<Longrightarrow> mset (map (f \<circ> snd) (hm_erase m k)) = mset (map (f \<circ> snd) m) - {#f v#}"
proof (induction m)
  case (Cons q m)
  obtain k' v' where q: "q = (k', v')" by (cases q)
  show ?case
  proof (cases "k' = k")
    case True
    then have "hm_find m k = None" "v' = v" using Cons.prems by (simp_all add: q hm_wf_Cons hm_find_Cons)
    then show ?thesis using True by (simp add: q hm_erase_def hm_find_def map_of_eq_None_iff)
  next
    case False
    then have m: "hm_wf m" "hm_find m k = Some v" using Cons.prems by (auto simp: q hm_wf_Cons hm_find_Cons)
    then have "f v \<in># mset (map (f \<circ> snd) m)" using hm_find_in_set [OF m(2)] by force
    then show ?thesis using Cons.IH [OF m] False by (simp add: q hm_erase_def)
  qed
qed (simp add: hm_find_def)

lemma mset_assign:
  "hm_wf m \<Longrightarrow> hm_find m k = Some v \<Longrightarrow> mset (map (f \<circ> snd) (hm_assign m k w)) = mset (map (f \<circ> snd) m) - {#f v#} + {#f w#}"
proof (induction m)
  case (Cons q m)
  obtain k' v' where q: "q = (k', v')" by (cases q)
  show ?case
  proof (cases "k' = k")
    case True
    then show ?thesis using Cons.prems by (simp add: q hm_assign_def hm_find_def)
  next
    case False
    then have m: "hm_wf m" "hm_find m k = Some v" using Cons.prems by (auto simp: q hm_wf_Cons hm_find_Cons)
    then have "f v \<in># mset (map (f \<circ> snd) m)" using hm_find_in_set [OF m(2)] by force
    then show ?thesis using Cons.IH [OF m] False by (simp add: q hm_assign_def)
  qed
qed (simp add: hm_find_def)

lemma mset_emplace:
  "hm_find m k = None \<Longrightarrow> mset (map (f \<circ> snd) (fst (hm_emplace m k w))) = mset (map (f \<circ> snd) m) + {#f w#}"
  by (simp add: hm_emplace_def hm_find_def)

section \<open>The trie counts the last ledgers\<close>

definition vs_inv ::
  "('l, 'id) ledger_ops \<Rightarrow> ('l \<Rightarrow> bool) \<Rightarrow> ('l \<Rightarrow> 'id list) \<Rightarrow> (nat \<Rightarrow> bool) \<Rightarrow> ('n, 'key, 'l, 'id) validations \<Rightarrow> bool" where
  "vs_inv L valid hist cutp st \<longleftrightarrow>
     trie_inv L hist valid cutp (vs_trie st) \<and> trie_abs hist (vs_trie st) = mset (map (hist \<circ> snd) (vs_lastLedger st)) \<and>
     hm_wf (vs_lastLedger st) \<and> (\<forall>n l. hm_find (vs_lastLedger st) n = Some l \<longrightarrow> valid l)"

lemma vs_inv_frame [simp]:
  "vs_inv L valid hist cutp (st\<lparr>vs_current := c\<rparr>) = vs_inv L valid hist cutp st"
  "vs_inv L valid hist cutp (st\<lparr>vs_localSeqEnforcer := e\<rparr>) = vs_inv L valid hist cutp st"
  "vs_inv L valid hist cutp (st\<lparr>vs_seqEnforcers := es\<rparr>) = vs_inv L valid hist cutp st"
  "vs_inv L valid hist cutp (st\<lparr>vs_byLedger := bl\<rparr>) = vs_inv L valid hist cutp st"
  "vs_inv L valid hist cutp (st\<lparr>vs_bySequence := bs\<rparr>) = vs_inv L valid hist cutp st"
  "vs_inv L valid hist cutp (st\<lparr>vs_toKeep := k\<rparr>) = vs_inv L valid hist cutp st"
  "vs_inv L valid hist cutp (st\<lparr>vs_kRefreshTime := t\<rparr>) = vs_inv L valid hist cutp st"
  "vs_inv L valid hist cutp (st\<lparr>vs_acquiring := q\<rparr>) = vs_inv L valid hist cutp st"
  by (simp_all add: vs_inv_def)

definition acquire_valid :: "('l \<Rightarrow> bool) \<Rightarrow> ('l, 'id) val_adaptor \<Rightarrow> bool" where
  "acquire_valid valid A \<longleftrightarrow> (\<forall>i l. vd_acquire A i = Some l \<longrightarrow> valid l)"

lemma acquiring_erase_frame [simp]:
  "vs_trie (acquiring_erase k n st) = vs_trie st" "vs_lastLedger (acquiring_erase k n st) = vs_lastLedger st"
  "vs_current (acquiring_erase k n st) = vs_current st" "vs_byLedger (acquiring_erase k n st) = vs_byLedger st"
  "vs_bySequence (acquiring_erase k n st) = vs_bySequence st" "vs_parms (acquiring_erase k n st) = vs_parms st"
  by (simp_all add: acquiring_erase_def Let_def split: option.splits)

lemma fold_inv: "(\<And>x s. x \<in> set xs \<Longrightarrow> P s \<Longrightarrow> P (f x s)) \<Longrightarrow> P s \<Longrightarrow> P (fold f xs s)"
  by (induction xs arbitrary: s) auto

context ledger_history
begin

lemma remove_last_inv:
  assumes inv: "vs_inv L valid hist cutp st" and l: "hm_find (vs_lastLedger st) n = Some l"
  shows "trie_inv L hist valid cutp (fst (trie_remove L l 1 (vs_trie st)))"
    "trie_abs hist (fst (trie_remove L l 1 (vs_trie st))) = mset (map (hist \<circ> snd) (vs_lastLedger st)) - {#hist l#}"
proof -
  obtain T' ok where r: "trie_remove L l 1 (vs_trie st) = (T', ok)" by fastforce
  have "valid l" using inv l by (simp add: vs_inv_def)
  from trie_remove_correct [OF _ this _ r] inv
  have "trie_inv L hist valid cutp T'" "trie_abs hist T' = mset (map (hist \<circ> snd) (vs_lastLedger st)) - {#hist l#}"
    by (simp_all add: vs_inv_def)
  then show "trie_inv L hist valid cutp (fst (trie_remove L l 1 (vs_trie st)))"
    "trie_abs hist (fst (trie_remove L l 1 (vs_trie st))) = mset (map (hist \<circ> snd) (vs_lastLedger st)) - {#hist l#}"
    by (simp_all only: r fst_conv)
qed

lemma removeTrie_inv:
  assumes inv: "vs_inv L valid hist cutp st"
  shows "vs_inv L valid hist cutp (removeTrie L n v st)"
proof (cases "hm_find (vs_lastLedger st) n")
  case None
  then show ?thesis using inv by (simp add: removeTrie_def Let_def vs_inv_def)
next
  case (Some l)
  then show ?thesis
    using inv remove_last_inv [OF inv Some] mset_erase [of "vs_lastLedger st" n l hist]
    by (auto simp: removeTrie_def Let_def vs_inv_def hm_simps)
qed

lemma updateTrie_ledger_inv:
  assumes inv: "vs_inv L valid hist cutp st" and l: "valid l"
  shows "vs_inv L valid hist cutp (updateTrie_ledger L n l st)"
proof (cases "hm_find (vs_lastLedger st) n")
  case None
  then show ?thesis
    using inv l trie_insert_correct [of "vs_trie st" l 1] mset_emplace [OF None, of hist l]
    by (auto simp: updateTrie_ledger_def Let_def vs_inv_def hm_simps split: if_splits)
next
  case (Some l0)
  note rm = remove_last_inv [OF inv Some]
  show ?thesis
    using inv l Some trie_insert_correct [OF rm(1) l, of 1] rm(2) mset_assign [of "vs_lastLedger st" n l0 hist l]
    by (auto simp: updateTrie_ledger_def Let_def vs_inv_def hm_simps split: if_splits)
qed

lemma checkAcquired_inv:
  fixes st :: "('n, 'key, 'l, 'h) validations"
  assumes inv: "vs_inv L valid hist cutp st" and A: "acquire_valid valid A"
  shows "vs_inv L valid hist cutp (checkAcquired L A st)"
  unfolding checkAcquired_def
proof (rule fold_inv [where P = "vs_inv L valid hist cutp", OF _ inv])
  fix q :: "(nat \<times> 'h) \<times> 'n list" and s :: "('n, 'key, 'l, 'h) validations" assume s: "vs_inv L valid hist cutp s"
  obtain k ns where q: "q = (k, ns)" by (cases q)
  show "vs_inv L valid hist cutp ((\<lambda>(k, ns) s. case vd_acquire A (snd k) of
      Some ledger \<Rightarrow> let s1 = fold (\<lambda>nodeID. updateTrie_ledger L nodeID ledger) ns s
        in s1\<lparr>vs_acquiring := hm_erase (vs_acquiring s1) k\<rparr> | None \<Rightarrow> s) q s)"
  proof (cases "vd_acquire A (snd k)")
    case (Some l)
    then have "valid l" using A by (simp add: acquire_valid_def)
    then have "vs_inv L valid hist cutp (fold (\<lambda>n. updateTrie_ledger L n l) ns s)"
      by (intro fold_inv [where P = "vs_inv L valid hist cutp", OF _ s] updateTrie_ledger_inv)
    then show ?thesis using Some by (simp add: q Let_def vs_inv_def)
  qed (use s in \<open>simp add: q\<close>)
qed

lemma updateTrie_inv:
  assumes inv: "vs_inv L valid hist cutp st" and A: "acquire_valid valid A"
  shows "vs_inv L valid hist cutp (updateTrie L A n v prior st)"
proof -
  define st1 where "st1 = (case prior of None \<Rightarrow> st | Some p \<Rightarrow> acquiring_erase p n st)"
  have "vs_inv L valid hist cutp st1" using inv by (auto simp: st1_def vs_inv_def split: option.splits)
  from checkAcquired_inv [OF this A] have inv2: "vs_inv L valid hist cutp (checkAcquired L A st1)" .
  show ?thesis
  proof (cases "hm_find (vs_acquiring (checkAcquired L A st1)) (va_seq v, va_ledgerID v)")
    case None
    show ?thesis
    proof (cases "vd_acquire A (va_ledgerID v)")
      case (Some l)
      then show ?thesis
        using None updateTrie_ledger_inv [OF inv2, of l n] A
        by (simp add: updateTrie_def st1_def [symmetric] acquire_valid_def cong: option.case_cong)
    qed (use None inv2 in \<open>simp add: updateTrie_def st1_def [symmetric] vs_inv_def Let_def cong: option.case_cong\<close>)
  qed (use inv2 in \<open>simp add: updateTrie_def st1_def [symmetric] vs_inv_def Let_def cong: option.case_cong\<close>)
qed

lemma flush_stale_inv:
  fixes st :: "('n, 'key, 'l, 'h) validations"
  assumes "vs_inv L valid hist cutp st"
  shows "vs_inv L valid hist cutp (flush_stale L A st)"
  unfolding flush_stale_def
proof (rule fold_inv [where P = "vs_inv L valid hist cutp", OF _ assms])
  fix q :: "'n \<times> ('key, 'h) validation" and s :: "('n, 'key, 'l, 'h) validations" assume s: "vs_inv L valid hist cutp s"
  obtain n v where q: "q = (n, v)" by (cases q)
  show "vs_inv L valid hist cutp ((\<lambda>(n, v) s. if \<not> isCurrent (vs_parms s) (vd_now A) (va_signTime v) (va_seenTime v)
      then let s1 = removeTrie L n v s in s1\<lparr>vs_current := hm_erase (vs_current s1) n\<rparr> else s) q s)"
    using s removeTrie_inv [OF s, of n v] by (simp add: q Let_def vs_inv_def)
qed

lemma trustChanged_inv:
  fixes st :: "('n, 'key, 'l, 'h) validations"
  assumes inv: "vs_inv L valid hist cutp st" and A: "acquire_valid valid A"
  shows "vs_inv L valid hist cutp (trustChanged L A added removed st)"
proof -
  let ?f = "\<lambda>(n, v) s. let v' = set_trust added removed n v; s1 = s\<lparr>vs_current := hm_assign (vs_current s) n v'\<rparr>
      in if n \<in> set added then updateTrie L A n v' None s1 else if n \<in> set removed then removeTrie L n v' s1 else s"
  have "vs_inv L valid hist cutp (fold ?f (vs_current st) st)"
  proof (rule fold_inv [where P = "vs_inv L valid hist cutp", OF _ inv])
    fix q :: "'n \<times> ('key, 'h) validation" and s :: "('n, 'key, 'l, 'h) validations" assume s: "vs_inv L valid hist cutp s"
    obtain n v where q: "q = (n, v)" by (cases q)
    have "vs_inv L valid hist cutp (s\<lparr>vs_current := c\<rparr>)" for c using s by (simp add: vs_inv_def)
    then show "vs_inv L valid hist cutp (?f q s)"
      using s by (simp add: q Let_def updateTrie_inv [OF _ A] removeTrie_inv)
  qed
  then show ?thesis by (simp add: trustChanged_def Let_def vs_inv_def)
qed

lemma add_inv:
  assumes inv: "vs_inv L valid hist cutp st" and A: "acquire_valid valid A"
  shows "vs_inv L valid hist cutp (fst (add L A n v st))"
  using inv by (simp add: add_def Let_def case_prod_unfold updateTrie_inv [OF _ A] split: option.splits)

end

section \<open>What the trie operations leave alone\<close>

definition vs_rest where
  "vs_rest st = (vs_localSeqEnforcer st, vs_bySequence st, vs_parms st)"

lemma fold_frame: "(\<And>x s. x \<in> set xs \<Longrightarrow> g (f x s) = g s) \<Longrightarrow> g (fold f xs s) = g s"
  by (induction xs arbitrary: s) auto

lemma removeTrie_rest: "vs_rest (removeTrie L n v st) = vs_rest st"
  by (simp add: vs_rest_def removeTrie_def acquiring_erase_def Let_def split: option.splits)

lemma updateTrie_ledger_rest: "vs_rest (updateTrie_ledger L n l st) = vs_rest st"
  by (simp add: vs_rest_def updateTrie_ledger_def Let_def split: option.splits)

lemma vs_rest_update [simp]:
  "vs_rest (st\<lparr>vs_acquiring := q\<rparr>) = vs_rest st" "vs_rest (st\<lparr>vs_current := c\<rparr>) = vs_rest st"
  "vs_rest (st\<lparr>vs_byLedger := b\<rparr>) = vs_rest st"
  by (simp_all add: vs_rest_def)

lemma checkAcquired_rest: "vs_rest (checkAcquired L A st) = vs_rest st"
  unfolding checkAcquired_def
  by (intro fold_frame) (auto simp: Let_def fold_frame [of _ vs_rest] updateTrie_ledger_rest split: option.splits)

lemma acquiring_erase_rest: "vs_rest (acquiring_erase p n s) = vs_rest s"
  by (simp add: vs_rest_def acquiring_erase_def Let_def split: option.splits)

lemma updateTrie_rest: "vs_rest (updateTrie L A n v prior st) = vs_rest st"
  by (auto simp: updateTrie_def Let_def updateTrie_ledger_rest checkAcquired_rest acquiring_erase_rest split: option.splits)

lemma flush_stale_rest: "vs_rest (flush_stale L A st) = vs_rest st"
  unfolding flush_stale_def by (intro fold_frame) (auto simp: Let_def removeTrie_rest)

lemma trustChanged_rest: "vs_rest (trustChanged L A added removed st) = vs_rest st"
proof -
  let ?f = "\<lambda>(n, v) s. let v' = set_trust added removed n v; s1 = s\<lparr>vs_current := hm_assign (vs_current s) n v'\<rparr>
      in if n \<in> set added then updateTrie L A n v' None s1 else if n \<in> set removed then removeTrie L n v' s1 else s"
  have "vs_rest (fold ?f (vs_current st) st) = vs_rest st"
    by (intro fold_frame) (auto simp: Let_def removeTrie_rest updateTrie_rest)
  then show ?thesis by (simp add: trustChanged_def Let_def)
qed

lemma vs_restD:
  assumes "vs_rest a = vs_rest b"
  shows "vs_localSeqEnforcer a = vs_localSeqEnforcer b" "vs_bySequence a = vs_bySequence b" "vs_parms a = vs_parms b"
  using assms by (simp_all add: vs_rest_def)

lemmas rest_simps = vs_restD [OF updateTrie_rest] vs_restD [OF checkAcquired_rest] vs_restD [OF flush_stale_rest]
  vs_restD [OF trustChanged_rest]

lemmas call_defs = canValidateSeq_def setSeqToKeep_def getPreferred_def getNodesAfter_def currentTrusted_def
  byLedger_def flush_current_def withTrie_def Let_def case_prod_unfold

section \<open>Runs\<close>

text \<open>The calls that change the state; a query changes it by what it flushes, acquires or touches.\<close>

datatype ('n, 'key, 'l, 'id) val_call =
    VAdd "('l, 'id) val_adaptor" 'n "('key, 'id) validation"
  | VCanValidate "('l, 'id) val_adaptor" nat
  | VKeep nat nat
  | VExpire "('l, 'id) val_adaptor"
  | VTrust "('l, 'id) val_adaptor" "'n list" "'n list"
  | VPreferred "('l, 'id) val_adaptor" 'l
  | VNodesAfter "('l, 'id) val_adaptor" 'l 'id
  | VCurrentTrusted "('l, 'id) val_adaptor"
  | VLedger "('l, 'id) val_adaptor" 'id
  | VFlush

fun val_exec ::
  "('l, 'id::linorder) ledger_ops \<Rightarrow> ('n, 'key, 'l, 'id) val_call \<Rightarrow> ('n, 'key, 'l, 'id) validations \<Rightarrow> ('n, 'key, 'l, 'id) validations" where
  "val_exec L (VAdd A n v) st = fst (add L A n v st)"
| "val_exec L (VCanValidate A s) st = fst (canValidateSeq A s st)"
| "val_exec L (VKeep low high) st = setSeqToKeep low high st"
| "val_exec L (VExpire A) st = expire A st"
| "val_exec L (VTrust A added removed) st = trustChanged L A added removed st"
| "val_exec L (VPreferred A l) st = fst (getPreferred L A l st)"
| "val_exec L (VNodesAfter A l i) st = fst (getNodesAfter L A l i st)"
| "val_exec L (VCurrentTrusted A) st = fst (currentTrusted L A st)"
| "val_exec L (VLedger A i) st = fst (byLedger A i st)"
| "val_exec L VFlush st = flush_current st"

definition val_run ::
  "('l, 'id::linorder) ledger_ops \<Rightarrow> ('n, 'key, 'l, 'id) val_call list \<Rightarrow> ('n, 'key, 'l, 'id) validations" where
  "val_run L calls = fold (val_exec L) calls (Validations_new L ValidationParms)"

fun call_adaptor :: "('n, 'key, 'l, 'id) val_call \<Rightarrow> ('l, 'id) val_adaptor option" where
  "call_adaptor (VAdd A _ _) = Some A"
| "call_adaptor (VCanValidate A _) = Some A"
| "call_adaptor (VKeep _ _) = None"
| "call_adaptor (VExpire A) = Some A"
| "call_adaptor (VTrust A _ _) = Some A"
| "call_adaptor (VPreferred A _) = Some A"
| "call_adaptor (VNodesAfter A _ _) = Some A"
| "call_adaptor (VCurrentTrusted A) = Some A"
| "call_adaptor (VLedger A _) = Some A"
| "call_adaptor VFlush = None"

definition calls_valid :: "('l \<Rightarrow> bool) \<Rightarrow> ('n, 'key, 'l, 'id) val_call list \<Rightarrow> bool" where
  "calls_valid valid calls \<longleftrightarrow> (\<forall>c A. c \<in> set calls \<longrightarrow> call_adaptor c = Some A \<longrightarrow> acquire_valid valid A)"

lemma refresh_kept_frame [simp]: "vs_trie (refresh_kept A st) = vs_trie st" "vs_lastLedger (refresh_kept A st) = vs_lastLedger st"
  "vs_localSeqEnforcer (refresh_kept A st) = vs_localSeqEnforcer st" "vs_parms (refresh_kept A st) = vs_parms st"
  by (simp_all add: refresh_kept_def split: option.splits)

context ledger_history
begin

lemma val_exec_inv:
  assumes "vs_inv L valid hist cutp st" "\<And>A. call_adaptor c = Some A \<Longrightarrow> acquire_valid valid A"
  shows "vs_inv L valid hist cutp (val_exec L c st)"
proof (cases c)
  case (VExpire A)
  then show ?thesis using assms(1) by (simp add: expire_def Let_def) (simp add: vs_inv_def)
qed (use assms in \<open>simp_all add: add_inv canValidateSeq_def setSeqToKeep_def trustChanged_inv getPreferred_def getNodesAfter_def
    currentTrusted_def byLedger_def flush_current_def withTrie_def checkAcquired_inv flush_stale_inv Let_def split: option.splits prod.splits\<close>)

lemma val_run_inv: "calls_valid valid calls \<Longrightarrow> vs_inv L valid hist cutp (val_run L calls)"
proof -
  assume "calls_valid valid calls"
  moreover have "vs_inv L valid hist cutp (Validations_new L ValidationParms)"
    using trie_new_correct by (simp add: vs_inv_def Validations_new_def hm_simps)
  ultimately show ?thesis unfolding val_run_def
    by (intro fold_inv [where P = "vs_inv L valid hist cutp"] val_exec_inv) (auto simp: calls_valid_def)
qed

text \<open>The supports of a state that satisfies the invariant.\<close>

lemma vs_supports:
  assumes inv: "vs_inv L valid hist cutp st" and l: "valid l"
  shows "trie_tipSupport L (vs_trie st) l = length (filter (\<lambda>(n, x). hist x = hist l) (vs_lastLedger st))"
    "trie_branchSupport L (vs_trie st) l = length (filter (\<lambda>(n, x). prefix (hist l) (hist x)) (vs_lastLedger st))"
proof -
  have T: "trie_inv L hist valid cutp (vs_trie st)" "trie_abs hist (vs_trie st) = mset (map (hist \<circ> snd) (vs_lastLedger st))"
    using inv by (simp_all add: vs_inv_def)
  have "count (mset (map (hist \<circ> snd) m)) h = length (filter (\<lambda>(n, x). hist x = h) m)" for m :: "('a, 'l) hm" and h
    by (induction m) auto
  then show "trie_tipSupport L (vs_trie st) l = length (filter (\<lambda>(n, x). hist x = hist l) (vs_lastLedger st))"
    by (simp only: trie_tipSupport_correct [OF T(1) l] T(2))
  have "size (filter_mset P (mset (map (hist \<circ> snd) m))) = length (filter (\<lambda>(n, x). P (hist x)) m)" for m :: "('a, 'l) hm" and P
    by (induction m) auto
  then show "trie_branchSupport L (vs_trie st) l = length (filter (\<lambda>(n, x). prefix (hist l) (hist x)) (vs_lastLedger st))"
    by (simp only: trie_branchSupport_correct [OF T(1) l] T(2))
qed

end

section \<open>Issued validations\<close>

text \<open>The sequence numbers the local node was allowed to validate in a run, with their times.\<close>

fun issued ::
  "('l, 'id::linorder) ledger_ops \<Rightarrow> ('n, 'key, 'l, 'id) val_call list \<Rightarrow> ('n, 'key, 'l, 'id) validations \<Rightarrow> (steadytime \<times> nat) list" where
  "issued L [] st = []"
| "issued L (c # cs) st =
     (case c of VCanValidate A s \<Rightarrow> if snd (canValidateSeq A s st) then [(vd_clock A, s)] else [] | _ \<Rightarrow> []) @
     issued L cs (val_exec L c st)"

definition issue_clocks :: "('n, 'key, 'l, 'id) val_call list \<Rightarrow> steadytime list" where
  "issue_clocks calls = concat (map (\<lambda>c. case c of VCanValidate A s \<Rightarrow> [vd_clock A] | _ \<Rightarrow> []) calls)"

lemma val_exec_enforcer:
  "vs_localSeqEnforcer (val_exec L c st) =
     (case c of VCanValidate A s \<Rightarrow> fst (seq_enforce (vd_clock A) s (vs_parms st) (vs_localSeqEnforcer st)) | _ \<Rightarrow> vs_localSeqEnforcer st)"
  "vs_parms (val_exec L c st) = vs_parms st"
proof -
  have "vs_localSeqEnforcer (fst (add L A n v st)) = vs_localSeqEnforcer st \<and> vs_parms (fst (add L A n v st)) = vs_parms st" for A n v
    by (simp add: add_def Let_def case_prod_unfold rest_simps split: option.splits)
  then show "vs_localSeqEnforcer (val_exec L c st) =
     (case c of VCanValidate A s \<Rightarrow> fst (seq_enforce (vd_clock A) s (vs_parms st) (vs_localSeqEnforcer st)) | _ \<Rightarrow> vs_localSeqEnforcer st)"
    "vs_parms (val_exec L c st) = vs_parms st"
    by (cases c; simp add: call_defs expire_def rest_simps split: option.splits)+
qed

definition issue_ok :: "validation_parms \<Rightarrow> steadytime \<times> nat \<Rightarrow> steadytime \<times> nat \<Rightarrow> bool" where
  "issue_ok p a b \<longleftrightarrow> snd a < snd b \<or> fst a + steady_secs (validationSetExpires p) < fst b"

text \<open>The first of a list of issued validations fits the state of the enforcer, and is not in the past.\<close>

definition first_ok :: "validation_parms \<Rightarrow> seq_enforcer \<Rightarrow> steadytime \<Rightarrow> (steadytime \<times> nat) list \<Rightarrow> bool" where
  "first_ok p e now ys \<longleftrightarrow> (case ys of [] \<Rightarrow> True | y # _ \<Rightarrow> now \<le> fst y \<and> issue_ok p (se_when e, se_seq e) y)"

lemma enforce_accept:
  assumes "seq_enforce t s p e = (e', True)"
  shows "e' = \<lparr>se_seq = s, se_when = t\<rparr>" "issue_ok p (se_when e, se_seq e) (t, s)"
  using assms by (auto simp: seq_enforce_def Let_def issue_ok_def split: if_splits)

lemma enforce_reject:
  assumes "seq_enforce t s p e = (e', False)" "first_ok p e' t ys"
  shows "first_ok p e t ys"
  using assms by (auto simp: seq_enforce_def Let_def issue_ok_def first_ok_def split: if_splits list.splits)

lemma first_ok_mono: "now \<le> t \<Longrightarrow> first_ok p e t ys \<Longrightarrow> first_ok p e now ys"
  by (auto simp: first_ok_def split: list.splits)

lemma first_ok_Cons:
  "successively (issue_ok p) ys \<Longrightarrow> first_ok p \<lparr>se_seq = s, se_when = t\<rparr> t ys \<Longrightarrow> successively (issue_ok p) ((t, s) # ys)"
  by (cases ys) (simp_all add: first_ok_def)

lemma issued_first:
  assumes "sorted (issue_clocks calls)" "\<forall>t \<in> set (issue_clocks calls). now \<le> t"
  shows "successively (issue_ok (vs_parms st)) (issued L calls st) \<and> first_ok (vs_parms st) (vs_localSeqEnforcer st) now (issued L calls st)"
  using assms
proof (induction calls arbitrary: st now)
  case (Cons c cs)
  let ?st = "val_exec L c st" and ?e = "vs_localSeqEnforcer st"
  note IH = Cons.IH [where st = ?st, unfolded val_exec_enforcer(2)]
  show ?case
  proof (cases "\<exists>A s. c = VCanValidate A s")
    case False
    then have eq: "issued L (c # cs) st = issued L cs ?st" "issue_clocks (c # cs) = issue_clocks cs" "vs_localSeqEnforcer ?st = ?e"
      unfolding issued.simps issue_clocks_def val_exec_enforcer by (simp_all split: val_call.splits)
    show ?thesis unfolding eq(1) by (rule IH [of now, unfolded eq(3)]) (use Cons.prems in \<open>simp_all only: eq(2)\<close>)
  next
    case True
    then obtain A s where c: "c = VCanValidate A s" by blast
    let ?t = "vd_clock A"
    have t: "now \<le> ?t" "sorted (issue_clocks cs)" "\<forall>t \<in> set (issue_clocks cs). ?t \<le> t"
      using Cons.prems by (simp_all add: issue_clocks_def c)
    obtain e ok where e: "seq_enforce ?t s (vs_parms st) ?e = (e, ok)" by fastforce
    have st: "vs_localSeqEnforcer ?st = e" "issued L (c # cs) st = (if ok then [(?t, s)] else []) @ issued L cs ?st"
      using e by (simp_all add: c val_exec_enforcer canValidateSeq_def)
    note ys = IH [OF t(2,3), unfolded st(1)]
    show ?thesis
    proof (cases ok)
      case True
      then have "seq_enforce ?t s (vs_parms st) ?e = (e, True)" using e by simp
      note acc = enforce_accept [OF this]
      have "successively (issue_ok (vs_parms st)) ((?t, s) # issued L cs ?st)"
        using ys first_ok_Cons unfolding acc(1) by blast
      moreover have "first_ok (vs_parms st) ?e now ((?t, s) # issued L cs ?st)" using acc(2) t(1) by (simp add: first_ok_def)
      ultimately show ?thesis unfolding st(2) using True by simp
    next
      case False
      then have "first_ok (vs_parms st) ?e now (issued L cs ?st)"
        using enforce_reject [of ?t s "vs_parms st" ?e e] e ys first_ok_mono [OF t(1)] by simp
      then show ?thesis unfolding st(2) using ys False by simp
    qed
  qed
qed (simp add: first_ok_def)

section \<open>Evidence\<close>

definition tracked_from :: "('n, 'key, 'l, 'id) val_call list \<Rightarrow> ('n, 'key, 'l, 'id) validations \<Rightarrow> bool" where
  "tracked_from calls st \<longleftrightarrow>
     (\<forall>s w m n v. (s, w, m) \<in> set (vs_bySequence st) \<longrightarrow> (n, v) \<in> set m \<longrightarrow> (\<exists>A. VAdd A n v \<in> set calls))"

lemma aged_modify_set:
  "(k, w, m) \<in> set (aged_modify now k0 dflt f ms) \<Longrightarrow>
   (k, w, m) \<in> set ms \<or> k = k0 \<and> (m = f dflt \<or> (\<exists>w' m'. (k, w', m') \<in> set ms \<and> m = f m'))"
  by (auto simp: aged_modify_def split: option.splits if_splits) blast

lemma aged_touch_set: "(k, w, m) \<in> set (aged_touch now k0 ms) \<Longrightarrow> \<exists>w'. (k, w', m) \<in> set ms"
  by (auto simp: aged_touch_def split: option.splits dest: map_of_SomeD)

lemma aged_find_set: "aged_find ms k = Some m \<Longrightarrow> \<exists>w. (k, w, m) \<in> set ms"
  by (auto simp: aged_find_def dest: map_of_SomeD)

lemma refresh_sequence_set:
  assumes "(k, w, m) \<in> set (vs_bySequence (refresh_kept A st))"
  shows "\<exists>w'. (k, w', m) \<in> set (vs_bySequence st)"
proof -
  define P where "P ms \<longleftrightarrow> (\<forall>k (w :: steadytime) m. (k, w, m) \<in> set ms \<longrightarrow> (\<exists>w'. (k, w', m) \<in> set (vs_bySequence st)))" for ms
  have "P (fold (\<lambda>(k, _) m. if low \<le> k \<and> k < high then aged_touch (vd_clock A) k m else m) xs ms)" if "P ms" for low high xs ms
    by (rule fold_inv [where P = P, OF _ that]) (auto simp: P_def split: if_splits dest!: aged_touch_set)
  moreover have "P (vs_bySequence st)" by (auto simp: P_def)
  ultimately have "P (vs_bySequence (refresh_kept A st))" by (auto simp: refresh_kept_def split: option.splits)
  then show ?thesis using assms by (auto simp: P_def)
qed

lemma add_sequence_set:
  assumes "(k, w, m) \<in> set (vs_bySequence (fst (add L A n v st)))" "(n', v') \<in> set m"
  shows "(n', v') = (n, v) \<or> (\<exists>w' m'. (k, w', m') \<in> set (vs_bySequence st) \<and> (n', v') \<in> set m')"
proof -
  define seqMap where "seqMap = (case aged_find (vs_bySequence st) (va_seq v) of None \<Rightarrow> [] | Some m \<Rightarrow> m)"
  define tracked where "tracked = track_sequence (vs_parms st) v (hm_find seqMap n)"
  let ?new = "aged_modify (vd_clock A) (va_seq v) [] (\<lambda>m. hm_assign m n tracked) (vs_bySequence st)"
  have "vs_bySequence (fst (add L A n v st)) \<in> {vs_bySequence st, ?new}"
    by (simp add: add_def Let_def rest_simps seqMap_def [symmetric] tracked_def [symmetric] case_prod_unfold split: option.splits)
  then consider "(k, w, m) \<in> set (vs_bySequence st)" | "(k, w, m) \<in> set ?new" using assms(1) by auto
  then show ?thesis
  proof cases
    case 2
    have t: "tracked = v \<or> (\<exists>w' m'. (va_seq v, w', m') \<in> set (vs_bySequence st) \<and> (n, tracked) \<in> set m')"
      unfolding tracked_def seqMap_def
      by (auto simp: track_sequence_def Let_def hm_simps split: option.splits if_splits dest!: aged_find_set hm_find_in_set)
    from aged_modify_set [OF 2] t assms(2) show ?thesis by (fastforce dest: hm_assign_set)
  qed (use assms(2) in blast)
qed

lemma val_exec_sequence:
  "(case c of VAdd _ _ _ \<Rightarrow> False | VExpire _ \<Rightarrow> False | _ \<Rightarrow> True) \<Longrightarrow> vs_bySequence (val_exec L c st) = vs_bySequence st"
  by (cases c) (simp_all add: call_defs rest_simps split: option.splits)

lemma tracked_step:
  assumes "tracked_from calls st"
  shows "tracked_from (calls @ [c]) (val_exec L c st)"
proof (cases c)
  case (VAdd A n v)
  show ?thesis
    unfolding tracked_from_def
  proof (intro allI impI)
    fix s w m n' v' assume a: "(s, w, m) \<in> set (vs_bySequence (val_exec L c st))" "(n', v') \<in> set m"
    from add_sequence_set [OF a(1) [unfolded VAdd val_exec.simps] a(2)] assms
    show "\<exists>A. VAdd A n' v' \<in> set (calls @ [c])" by (auto simp: VAdd tracked_from_def) blast
  qed
next
  case (VExpire A)
  have "set (vs_bySequence (expire A st)) \<subseteq> set (vs_bySequence (refresh_kept A st))"
    by (auto simp: expire_def Let_def aged_expire_def dest: set_dropWhileD)
  then show ?thesis using assms refresh_sequence_set [of _ _ _ A st] by (fastforce simp: tracked_from_def VExpire)
qed (use assms in \<open>auto simp: tracked_from_def val_exec_sequence simp del: val_exec.simps\<close>)

lemma tracked_run: "tracked_from calls (val_run L calls)"
proof (induction calls rule: rev_induct)
  case (snoc c calls)
  then show ?case using tracked_step [OF snoc.IH, of c L] by (simp add: val_run_def)
qed (simp add: tracked_from_def val_run_def Validations_new_def)

end
