(* ===== verification/Validations_Evidence.thy ===== *)
theory Validations_Evidence
  imports Validations_Correct
begin

text \<open>
  The evidence behind the support that a node gives to a ledger: a predicate on nodes and pairs of
  sequence number and ledger that holds of every validation added, and one on nodes that holds of every
  trusted node, hold of everything the class keeps for the trie.
\<close>

section \<open>Backed states\<close>

text \<open>A ledger is acquired for its own identifier, as the adaptor asserts.\<close>

definition acquire_honest :: "('l, 'id) ledger_ops \<Rightarrow> ('l, 'id) val_adaptor \<Rightarrow> bool" where
  "acquire_honest L A \<longleftrightarrow> (\<forall>i l. vd_acquire A i = Some l \<longrightarrow> lo_id L l = i)"

definition val_pair :: "('key, 'id) validation \<Rightarrow> nat \<times> 'id" where
  "val_pair v = (va_seq v, va_ledgerID v)"

definition backed ::
  "('n \<Rightarrow> nat \<times> 'id \<Rightarrow> bool) \<Rightarrow> ('n \<Rightarrow> bool) \<Rightarrow> ('l, 'id) ledger_ops \<Rightarrow> ('n, 'key, 'l, 'id) validations \<Rightarrow> bool" where
  "backed Q T L st \<longleftrightarrow>
     hm_all (\<lambda>n v. Q n (val_pair v)) (vs_current st) \<and>
     hm_all (\<lambda>k ns. \<forall>n \<in> set ns. T n \<and> Q n k) (vs_acquiring st) \<and>
     hm_all (\<lambda>n l. T n \<and> (\<exists>s. Q n (s, lo_id L l))) (vs_lastLedger st)"

lemma backed_acquiring: "backed Q T L st \<Longrightarrow> hm_find (vs_acquiring st) k = Some ns \<Longrightarrow> \<forall>n \<in> set ns. T n \<and> Q n k"
  using hm_all_find by (fastforce simp: backed_def)

lemma acquiring_erase_backed:
  assumes "backed Q T L st"
  shows "backed Q T L (acquiring_erase k n st)"
  using assms backed_acquiring [OF assms, of k]
  by (auto simp: acquiring_erase_def backed_def Let_def intro!: hm_all_erase hm_all_assign split: option.splits)

lemma removeTrie_backed: "backed Q T L st \<Longrightarrow> backed Q T L (removeTrie L n v st)"
  using acquiring_erase_backed [of Q T L st "(va_seq v, va_ledgerID v)" n]
  by (auto simp: removeTrie_def backed_def Let_def hm_all_rules split: option.splits)

lemma updateTrie_ledger_backed:
  "backed Q T L st \<Longrightarrow> T n \<Longrightarrow> Q n (s, lo_id L l) \<Longrightarrow> backed Q T L (updateTrie_ledger L n l st)"
  by (auto simp: updateTrie_ledger_def backed_def Let_def intro!: hm_all_rules split: option.splits)

lemma checkAcquired_backed:
  fixes st :: "('n, 'key, 'l, 'id) validations"
  assumes st: "backed Q T L st" and A: "acquire_honest L A"
  shows "backed Q T L (checkAcquired L A st)"
  unfolding checkAcquired_def
proof (rule fold_inv [where P = "backed Q T L", OF _ st])
  fix q :: "(nat \<times> 'id) \<times> 'n list" and s :: "('n, 'key, 'l, 'id) validations"
  assume q: "q \<in> set (vs_acquiring st)" and s: "backed Q T L s"
  obtain k ns where k: "q = (k, ns)" by (cases q)
  then have ns: "T n" "Q n k" if "n \<in> set ns" for n using q st that by (auto simp: backed_def hm_all_def)
  show "backed Q T L ((\<lambda>(k, ns) s. case vd_acquire A (snd k) of
      Some ledger \<Rightarrow> let s1 = fold (\<lambda>nodeID. updateTrie_ledger L nodeID ledger) ns s
        in s1\<lparr>vs_acquiring := hm_erase (vs_acquiring s1) k\<rparr> | None \<Rightarrow> s) q s)"
  proof (cases "vd_acquire A (snd k)")
    case (Some l)
    then have "Q n (fst k, lo_id L l)" if "n \<in> set ns" for n using A ns(2) [OF that] by (simp add: acquire_honest_def)
    then have "backed Q T L (fold (\<lambda>n. updateTrie_ledger L n l) ns s)"
      using ns(1) by (intro fold_inv [where P = "backed Q T L", OF _ s] updateTrie_ledger_backed)
    then show ?thesis using Some by (simp add: k Let_def backed_def hm_all_erase)
  qed (use s in \<open>simp add: k\<close>)
qed

lemma updateTrie_backed:
  assumes st: "backed Q T L st" and A: "acquire_honest L A" and n: "T n" "Q n (val_pair v)"
  shows "backed Q T L (updateTrie L A n v prior st)"
proof -
  define st2 where "st2 = checkAcquired L A (case prior of None \<Rightarrow> st | Some p \<Rightarrow> acquiring_erase p n st)"
  have st2: "backed Q T L st2"
    unfolding st2_def using st by (intro checkAcquired_backed A) (simp add: acquiring_erase_backed split: option.splits)
  show ?thesis
  proof (cases "hm_find (vs_acquiring st2) (val_pair v)")
    case (Some ns)
    then show ?thesis using backed_acquiring [OF st2 Some] st2 n
      by (simp add: updateTrie_def Let_def st2_def [symmetric] backed_def val_pair_def hm_all_assign cong: option.case_cong)
  next
    case None
    show ?thesis
    proof (cases "vd_acquire A (va_ledgerID v)")
      case (Some l)
      then have "Q n (va_seq v, lo_id L l)" using A n(2) by (simp add: acquire_honest_def val_pair_def)
      from updateTrie_ledger_backed [OF st2 n(1) this] show ?thesis
        using None Some by (simp add: updateTrie_def Let_def st2_def [symmetric] val_pair_def)
    qed (use None st2 n in \<open>simp add: updateTrie_def Let_def st2_def [symmetric] backed_def val_pair_def hm_all_assign\<close>)
  qed
qed

lemma flush_stale_backed:
  fixes st :: "('n, 'key, 'l, 'id) validations"
  assumes st: "backed Q T L st"
  shows "backed Q T L (flush_stale L A st)"
  unfolding flush_stale_def
proof (rule fold_inv [where P = "backed Q T L", OF _ st])
  fix q :: "'n \<times> ('key, 'id) validation" and s :: "('n, 'key, 'l, 'id) validations" assume s: "backed Q T L s"
  obtain n v where q: "q = (n, v)" by (cases q)
  show "backed Q T L ((\<lambda>(n, v) s. if \<not> isCurrent (vs_parms s) (vd_now A) (va_signTime v) (va_seenTime v)
      then let s1 = removeTrie L n v s in s1\<lparr>vs_current := hm_erase (vs_current s1) n\<rparr> else s) q s)"
    using s removeTrie_backed [OF s, of n v] by (simp add: q Let_def backed_def hm_all_erase)
qed

lemma trustChanged_backed:
  fixes st :: "('n, 'key, 'l, 'id) validations"
  assumes st: "backed Q T L st" and A: "acquire_honest L A" and added: "\<And>n. n \<in> set added \<Longrightarrow> T n"
  shows "backed Q T L (trustChanged L A added removed st)"
proof -
  let ?f = "\<lambda>(n, v) s. let v' = set_trust added removed n v; s1 = s\<lparr>vs_current := hm_assign (vs_current s) n v'\<rparr>
      in if n \<in> set added then updateTrie L A n v' None s1 else if n \<in> set removed then removeTrie L n v' s1 else s"
  have "backed Q T L (fold ?f (vs_current st) st)"
  proof (rule fold_inv [where P = "backed Q T L", OF _ st])
    fix q :: "'n \<times> ('key, 'id) validation" and s :: "('n, 'key, 'l, 'id) validations"
    assume q: "q \<in> set (vs_current st)" and s: "backed Q T L s"
    obtain n v where n: "q = (n, v)" by (cases q)
    let ?v = "set_trust added removed n v"
    have v: "Q n (val_pair ?v)" using st q by (auto simp: n backed_def hm_all_def set_trust_def val_pair_def)
    then have "backed Q T L (s\<lparr>vs_current := hm_assign (vs_current s) n ?v\<rparr>)"
      using s by (simp add: backed_def hm_all_assign)
    then show "backed Q T L (?f q s)"
      using s v by (simp add: n Let_def updateTrie_backed [OF _ A] removeTrie_backed added)
  qed
  then show ?thesis by (simp add: trustChanged_def Let_def backed_def)
qed

lemma add_backed:
  assumes st: "backed Q T L st" and A: "acquire_honest L A" and n: "Q n (val_pair v)" "va_trusted v \<Longrightarrow> T n"
  shows "backed Q T L (fst (add L A n v st))"
proof -
  have "backed Q T L (if va_trusted v then updateTrie L A n v prior s else s)" if "backed Q T L s" for prior s
    using that n by (simp add: updateTrie_backed [OF _ A])
  moreover have "backed Q T L (st\<lparr>vs_bySequence := b, vs_seqEnforcers := e\<rparr>)"
    "backed Q T L (st\<lparr>vs_bySequence := b, vs_seqEnforcers := e, vs_byLedger := c\<rparr>)"
    "backed Q T L (st\<lparr>vs_bySequence := b, vs_seqEnforcers := e, vs_byLedger := c, vs_current := fst (hm_emplace (vs_current st) n v)\<rparr>)"
    "backed Q T L (st\<lparr>vs_bySequence := b, vs_seqEnforcers := e, vs_byLedger := c, vs_current := hm_assign (vs_current st) n v\<rparr>)" for b c e
    using st n(1) by (simp_all add: backed_def hm_all_rules)
  ultimately show ?thesis using st by (simp add: add_def Let_def case_prod_unfold split: option.splits)
qed

text \<open>What the calls of a run say about a node.\<close>

definition claimed :: "('n, 'key, 'l, 'id) val_call list \<Rightarrow> 'n \<Rightarrow> nat \<times> 'id \<Rightarrow> bool" where
  "claimed calls n k \<longleftrightarrow> (\<exists>A v. VAdd A n v \<in> set calls \<and> val_pair v = k)"

definition trusted_by :: "('n, 'key, 'l, 'id) val_call list \<Rightarrow> 'n \<Rightarrow> bool" where
  "trusted_by calls n \<longleftrightarrow>
     (\<exists>A v. VAdd A n v \<in> set calls \<and> va_trusted v) \<or> (\<exists>A added removed. VTrust A added removed \<in> set calls \<and> n \<in> set added)"

definition calls_honest :: "('l, 'id) ledger_ops \<Rightarrow> ('n, 'key, 'l, 'id) val_call list \<Rightarrow> bool" where
  "calls_honest L calls \<longleftrightarrow> (\<forall>c A. c \<in> set calls \<longrightarrow> call_adaptor c = Some A \<longrightarrow> acquire_honest L A)"

lemma val_exec_backed:
  assumes st: "backed (claimed calls) (trusted_by calls) L st" and c: "c \<in> set calls" and calls: "calls_honest L calls"
  shows "backed (claimed calls) (trusted_by calls) L (val_exec L c st)"
proof -
  have A: "acquire_honest L A" if "call_adaptor c = Some A" for A using that c calls by (auto simp: calls_honest_def)
  have pres: "backed (claimed calls) (trusted_by calls) L (checkAcquired L A (flush_stale L A st))"
    "backed (claimed calls) (trusted_by calls) L (flush_stale L A st)" if "call_adaptor c = Some A" for A
    using that st by (simp_all add: checkAcquired_backed flush_stale_backed A)
  show ?thesis
  proof (cases c)
    case (VAdd A n v)
    then have "claimed calls n (val_pair v)" "va_trusted v \<Longrightarrow> trusted_by calls n"
      using c by (auto simp: claimed_def trusted_by_def)
    then show ?thesis using VAdd st A by (simp add: add_backed)
  next
    case (VTrust A added removed)
    then have "trusted_by calls n" if "n \<in> set added" for n using c that unfolding trusted_by_def by blast
    then show ?thesis using VTrust st A by (simp add: trustChanged_backed)
  next
    case (VExpire A)
    then show ?thesis using st by (simp add: expire_def refresh_kept_def Let_def backed_def split: option.splits)
  qed (use st pres in \<open>simp_all add: call_defs split: option.splits\<close>, simp_all add: backed_def hm_all_Nil)
qed

lemma val_run_backed: "calls_honest L calls \<Longrightarrow> backed (claimed calls) (trusted_by calls) L (val_run L calls)"
  unfolding val_run_def
  by (rule fold_inv [where P = "backed (claimed calls) (trusted_by calls) L"])
    (simp add: val_exec_backed, simp add: Validations_new_def backed_def hm_all_Nil)

end
