(* ===== verification/RCLValidations.thy ===== *)
theory RCLValidations
  imports Validations_Evidence
begin

text \<open>
  The use of the validations by the server, \<^verbatim>\<open>RCLValidations.cpp\<close>: acquiring a ledger from the ledger
  master, and the handling of a validation that arrives from the network. The ledger master, the list
  of validators and the identifier of a node are parameters; what the code asks of the job queue, the
  ledger master and the log is a list of events.
\<close>

datatype 'id val_event =
    CheckAccept 'id nat
  | AcquireAsync 'id
  | LogConflicting bool nat
  | LogMultiple bool nat 'id

text \<open>A ledger of the ledger master is its hash, its sequence number and the hashes of its ancestors, if any.\<close>

definition rcl_acquire ::
  "(hash256 \<Rightarrow> (hash256 \<times> nat \<times> hash256 list option) option) \<Rightarrow> hash256 \<Rightarrow> rcl_ledger option \<times> hash256 val_event list" where
  "rcl_acquire getLedgerByHash h =
     (case getLedgerByHash h of
        None \<Rightarrow> (None, [AcquireAsync h])
      | Some (i, s, hashes) \<Rightarrow> (Some (RCLValidatedLedger_new i s hashes), []))"

definition rcl_adaptor ::
  "(hash256 \<Rightarrow> (hash256 \<times> nat \<times> hash256 list option) option) \<Rightarrow> nettime \<Rightarrow> steadytime \<Rightarrow> (rcl_ledger, hash256) val_adaptor" where
  "rcl_adaptor getLedgerByHash now clock =
     \<lparr>vd_now = now, vd_clock = clock, vd_acquire = (\<lambda>h. fst (rcl_acquire getLedgerByHash h))\<rparr>"

record ('n, 'key) validators =
  vl_trustedKey :: "'key \<Rightarrow> 'key option"
  vl_listedKey :: "'key \<Rightarrow> 'key option"
  vl_nodeID :: "'key \<Rightarrow> 'n"

definition master_key :: "('n, 'key) validators \<Rightarrow> 'key \<Rightarrow> 'key option" where
  "master_key vl signingKey =
     (case vl_trustedKey vl signingKey of Some k \<Rightarrow> Some k | None \<Rightarrow> vl_listedKey vl signingKey)"

definition mark_trusted :: "('n, 'key) validators \<Rightarrow> ('key, 'id) validation \<Rightarrow> ('key, 'id) validation" where
  "mark_trusted vl val = (if \<not> va_trusted val \<and> vl_trustedKey vl (va_key val) \<noteq> None then val\<lparr>va_trusted := True\<rparr> else val)"

definition node_of :: "('n, 'key) validators \<Rightarrow> 'key \<Rightarrow> 'n" where
  "node_of vl signingKey = vl_nodeID vl (case master_key vl signingKey of Some k \<Rightarrow> k | None \<Rightarrow> signingKey)"

definition handleNewValidation ::
  "('l, 'id) ledger_ops \<Rightarrow> ('l, 'id) val_adaptor \<Rightarrow> ('n, 'key) validators \<Rightarrow> ('key, 'id) validation \<Rightarrow> bool \<Rightarrow>
   ('n, 'key, 'l, 'id) validations \<Rightarrow> ('n, 'key, 'l, 'id) validations \<times> 'id val_event list" where
  "handleNewValidation L A vl val bypassAccept st =
     (let val1 = mark_trusted vl val;
          (st1, outcome) = add L A (node_of vl (va_key val)) val1 st
      in (st1,
          if outcome = VsCurrent
          then (if va_trusted val1 \<and> \<not> bypassAccept then [CheckAccept (va_ledgerID val1) (va_seq val1)] else [])
          else if outcome = VsConflicting then [LogConflicting (va_trusted val1) (va_seq val1)]
          else if outcome = VsMultiple then [LogMultiple (va_trusted val1) (va_seq val1) (va_ledgerID val1)]
          else []))"

section \<open>Validations from the network\<close>

text \<open>The arrival of a validation, with what the ledger master and the clocks say at that time.\<close>

record ('key) arrival =
  ar_ledgers :: "hash256 \<Rightarrow> (hash256 \<times> nat \<times> hash256 list option) option"
  ar_now :: nettime
  ar_clock :: steadytime
  ar_val :: "('key, hash256) validation"
  ar_bypass :: bool

definition arrive ::
  "('n, 'key) validators \<Rightarrow> 'key arrival \<Rightarrow> ('n, 'key, rcl_ledger, hash256) validations \<Rightarrow>
   ('n, 'key, rcl_ledger, hash256) validations \<times> hash256 val_event list" where
  "arrive vl a = handleNewValidation rcl_ops (rcl_adaptor (ar_ledgers a) (ar_now a) (ar_clock a)) vl (ar_val a) (ar_bypass a)"

definition arrive_all :: "('n, 'key) validators \<Rightarrow> 'key arrival list \<Rightarrow> ('n, 'key, rcl_ledger, hash256) validations" where
  "arrive_all vl as = fold (\<lambda>a st. fst (arrive vl a st)) as (Validations_new rcl_ops ValidationParms)"

text \<open>The ledger master finds a ledger under its own hash.\<close>

definition by_own_hash :: "(hash256 \<Rightarrow> (hash256 \<times> nat \<times> hash256 list option) option) \<Rightarrow> bool" where
  "by_own_hash g \<longleftrightarrow> (\<forall>h i s hs. g h = Some (i, s, hs) \<longrightarrow> i = h)"

definition arrival_trusted :: "('n, 'key) validators \<Rightarrow> 'key arrival \<Rightarrow> bool" where
  "arrival_trusted vl a \<longleftrightarrow> va_trusted (ar_val a) \<or> vl_trustedKey vl (va_key (ar_val a)) \<noteq> None"

definition arrival_node :: "('n, 'key) validators \<Rightarrow> 'key arrival \<Rightarrow> 'n" where
  "arrival_node vl a = node_of vl (va_key (ar_val a))"

lemma rcl_adaptor_honest: "by_own_hash g \<Longrightarrow> acquire_honest rcl_ops (rcl_adaptor g now clock)"
  by (auto simp: by_own_hash_def acquire_honest_def rcl_adaptor_def rcl_acquire_def rcl_ops_def RCLValidatedLedger_new_def
      split: option.splits)

lemma mark_trusted_simps:
  "va_trusted (mark_trusted vl (ar_val a)) = arrival_trusted vl a" "val_pair (mark_trusted vl (ar_val a)) = val_pair (ar_val a)"
  by (auto simp: mark_trusted_def arrival_trusted_def val_pair_def)

lemma arrive_backed:
  assumes st: "backed Q T rcl_ops st" and a: "by_own_hash (ar_ledgers a)"
    "Q (arrival_node vl a) (val_pair (ar_val a))" "arrival_trusted vl a \<Longrightarrow> T (arrival_node vl a)"
  shows "backed Q T rcl_ops (fst (arrive vl a st))"
  using add_backed [OF st rcl_adaptor_honest [OF a(1)], of "arrival_node vl a" "mark_trusted vl (ar_val a)"] a(2,3)
  by (simp add: arrive_def handleNewValidation_def Let_def case_prod_unfold mark_trusted_simps arrival_node_def)

text \<open>
  C13: A ledger is supported only by trusted validators that validated it. After any sequence of
  validations from the network, every node that counts in the trie had sent a validation of the ledger
  it counts for, and had sent one that was marked as trusted or whose signing key is trusted.
\<close>

theorem support_only_from_trusted:
  fixes vl :: "('n, 'key) validators"
  assumes "\<forall>a \<in> set as. by_own_hash (ar_ledgers a)" "(n, x) \<in> set (vs_lastLedger (arrive_all vl as))"
  shows "(\<exists>a \<in> set as. arrival_node vl a = n \<and> va_ledgerID (ar_val a) = rl_ledgerID x) \<and>
    (\<exists>a \<in> set as. arrival_node vl a = n \<and> arrival_trusted vl a)"
proof -
  let ?Q = "\<lambda>n k. \<exists>a \<in> set as. arrival_node vl a = n \<and> val_pair (ar_val a) = k"
  let ?T = "\<lambda>n. \<exists>a \<in> set as. arrival_node vl a = n \<and> arrival_trusted vl a"
  have "backed ?Q ?T rcl_ops (arrive_all vl as)"
    unfolding arrive_all_def
  proof (rule fold_inv [where P = "backed ?Q ?T rcl_ops"])
    show "backed ?Q ?T rcl_ops (Validations_new rcl_ops ValidationParms)" by (simp add: Validations_new_def backed_def hm_all_Nil)
  next
    fix a and s :: "('n, 'key, rcl_ledger, hash256) validations" assume "a \<in> set as" "backed ?Q ?T rcl_ops s"
    then show "backed ?Q ?T rcl_ops (fst (arrive vl a s))" using assms(1) by (intro arrive_backed) auto
  qed
  then show ?thesis using assms(2) by (auto simp: backed_def hm_all_def val_pair_def rcl_ops_def)
qed

definition ex_vl :: "(nat, nat) validators" where
  "ex_vl = \<lparr>vl_trustedKey = (\<lambda>k. if k = 11 then Some 1 else None), vl_listedKey = (\<lambda>k. if k = 12 then Some 2 else None), vl_nodeID = id\<rparr>"

definition ex_master :: "hash256 \<Rightarrow> (hash256 \<times> nat \<times> hash256 list option) option" where
  "ex_master h = (if h = 3 \<or> h = 4 then Some (h, 3, Some [1, 2]) else None)"

definition ex_arrival :: "nat \<Rightarrow> hash256 \<Rightarrow> nettime \<Rightarrow> nat arrival" where
  "ex_arrival k h t = \<lparr>ar_ledgers = ex_master, ar_now = t, ar_clock = steady_secs (uint t),
     ar_val = \<lparr>va_ledgerID = h, va_seq = 3, va_signTime = t, va_seenTime = t, va_key = k, va_trusted = False,
       va_full = True, va_cookie = 0, va_loadFee = None\<rparr>, ar_bypass = False\<rparr>"

theorem support_only_from_trusted_witness:
  "vs_lastLedger (arrive_all ex_vl [ex_arrival 11 3 1000, ex_arrival 12 4 1001]) = [(1, ex_C)] \<and>
   (\<exists>a \<in> set [ex_arrival 11 3 1000, ex_arrival 12 4 1001]. arrival_node ex_vl a = 1 \<and> arrival_trusted ex_vl a)"
proof -
  let ?as = "[ex_arrival 11 3 1000, ex_arrival 12 4 1001]"
  have run: "vs_lastLedger (arrive_all ex_vl ?as) = [(1, ex_C)]" by code_simp
  have "\<forall>a \<in> set ?as. by_own_hash (ar_ledgers a)" by (simp add: ex_arrival_def by_own_hash_def ex_master_def)
  from support_only_from_trusted [OF this, of 1 ex_C ex_vl] run show ?thesis by simp
qed

end
