(* ===== verification/Validations_Properties.thy ===== *)
theory Validations_Properties
  imports RCLValidations
begin

text \<open>
  The properties of the validations, for the ledgers of \<^verbatim>\<open>RCLValidatedLedger\<close> where they speak of the
  trie, with a run of a node that follows two validators.
\<close>

section \<open>An example\<close>

text \<open>Adaptors whose acquired ledgers are among the two tips of the example of the ledger chain.\<close>

definition ex_adaptor :: "nettime \<Rightarrow> int \<Rightarrow> hash256 list \<Rightarrow> (rcl_ledger, hash256) val_adaptor" where
  "ex_adaptor net s known =
     \<lparr>vd_now = net, vd_clock = steady_secs s,
      vd_acquire = (\<lambda>i. if i \<in> set known then (if i = 3 then Some ex_C else if i = 4 then Some ex_D else None) else None)\<rparr>"

definition ex_val :: "hash256 \<Rightarrow> nat \<Rightarrow> nettime \<Rightarrow> (nat, hash256) validation" where
  "ex_val i s t = \<lparr>va_ledgerID = i, va_seq = s, va_signTime = t, va_seenTime = t, va_key = 0, va_trusted = True,
     va_full = True, va_cookie = 0, va_loadFee = None\<rparr>"


lemma ex_clock [simp]: "vd_clock (ex_adaptor net s known) = s * 1000000000"
  by (simp add: ex_adaptor_def steady_secs_def)

section \<open>The support of ledgers\<close>


definition ex_calls :: "(nat, nat, rcl_ledger, hash256) val_call list" where
  "ex_calls =
     [VAdd (ex_adaptor 1000 1 [3]) 1 (ex_val 3 3 1000), VAdd (ex_adaptor 1001 2 [3]) 2 (ex_val 4 3 1001),
      VPreferred (ex_adaptor 1002 3 [3, 4]) ex_C, VNodesAfter (ex_adaptor 1003 4 [3, 4]) ex_C 3]"



section \<open>Evidence\<close>

text \<open>
  C15: A validation is reported as conflicting only when the same node had sent, in an earlier call, a
  validation of the same sequence number for another ledger or with another signing time.
\<close>

theorem conflict_has_evidence:
  assumes "snd (add L A n v (val_run L calls)) = VsConflicting"
  shows "\<exists>A' v'. VAdd A' n v' \<in> set calls \<and> va_seq v' = va_seq v \<and>
    (va_ledgerID v' \<noteq> va_ledgerID v \<or> va_signTime v' \<noteq> va_signTime v)"
proof -
  define st where "st = val_run L calls"
  define m where "m = (case aged_find (vs_bySequence st) (va_seq v) of None \<Rightarrow> [] | Some m \<Rightarrow> m)"
  define t where "t = track_sequence (vs_parms st) v (hm_find m n)"
  have t: "va_seq t = va_seq v" "va_ledgerID t \<noteq> va_ledgerID v \<or> va_signTime t \<noteq> va_signTime v"
    using assms
    by (auto simp: add_def Let_def case_prod_unfold bad_sequence_status_def st_def [symmetric] m_def [symmetric] t_def [symmetric]
        split: if_splits option.splits)
  then have "t \<noteq> v" by auto
  then have "hm_find m n = Some t"
    by (auto simp: t_def track_sequence_def Let_def split: option.splits if_splits)
  moreover from this obtain w where "(va_seq v, w, m) \<in> set (vs_bySequence st)"
    using aged_find_set by (fastforce simp: m_def hm_simps split: option.splits)
  ultimately have "\<exists>A'. VAdd A' n t \<in> set calls"
    using tracked_run [of calls L] hm_find_in_set unfolding tracked_from_def st_def by metis
  with t show ?thesis by blast
qed

definition ex_calls2 :: "(nat, nat, rcl_ledger, hash256) val_call list" where
  "ex_calls2 = [VAdd (ex_adaptor 1000 1 [3]) 1 (ex_val 3 3 1000), VAdd (ex_adaptor 1001 2 [3]) 2 (ex_val 4 3 1001)]"

theorem conflict_has_evidence_witness:
  "snd (add rcl_ops (ex_adaptor 1002 3 [3]) 1 (ex_val 4 3 1002) (val_run rcl_ops ex_calls2)) = VsConflicting \<and>
   (\<exists>A' v'. VAdd A' 1 v' \<in> set ex_calls2 \<and> va_seq v' = 3 \<and> (va_ledgerID v' \<noteq> 4 \<or> va_signTime v' \<noteq> 1002))"
proof -
  have "snd (add rcl_ops (ex_adaptor 1002 3 [3]) 1 (ex_val 4 3 1002) (val_run rcl_ops ex_calls2)) = VsConflicting"
    by code_simp
  moreover from conflict_has_evidence [OF this]
  have "\<exists>A' v'. VAdd A' 1 v' \<in> set ex_calls2 \<and> va_seq v' = 3 \<and> (va_ledgerID v' \<noteq> 4 \<or> va_signTime v' \<noteq> 1002)"
    by (simp add: ex_val_def)
  ultimately show ?thesis by blast
qed

text \<open>
  C14: Support has evidence, also when the trust in nodes changes: after any sequence of calls, every
  node that counts in the trie had sent a validation of the ledger it counts for, and it was trusted,
  either by one of its validations or by a change of the trusted nodes.
\<close>

theorem support_has_evidence:
  assumes "calls_honest L calls" "(n, x) \<in> set (vs_lastLedger (val_run L calls))"
  shows "(\<exists>A v. VAdd A n v \<in> set calls \<and> va_ledgerID v = lo_id L x) \<and>
    ((\<exists>A v. VAdd A n v \<in> set calls \<and> va_trusted v) \<or> (\<exists>A added removed. VTrust A added removed \<in> set calls \<and> n \<in> set added))"
  using val_run_backed [OF assms(1)] assms(2) by (auto simp: backed_def hm_all_def claimed_def trusted_by_def val_pair_def)

lemma ex_calls_honest: "calls_honest rcl_ops ex_calls"
  by (auto simp: calls_honest_def ex_calls_def acquire_honest_def ex_adaptor_def rcl_ops_def ex_C_def ex_D_def
      RCLValidatedLedger_new_def split: if_splits)

theorem support_has_evidence_witness:
  "(2, ex_D) \<in> set (vs_lastLedger (val_run rcl_ops ex_calls)) \<and>
   (\<exists>A v. VAdd A 2 v \<in> set ex_calls \<and> va_ledgerID v = 4)"
proof -
  have "(2, ex_D) \<in> set (vs_lastLedger (val_run rcl_ops ex_calls))" by code_simp
  moreover from support_has_evidence [OF ex_calls_honest this]
  have "\<exists>A v. VAdd A 2 v \<in> set ex_calls \<and> va_ledgerID v = 4" by (simp add: rcl_ops_def ex_D_def RCLValidatedLedger_new_def)
  ultimately show ?thesis by blast
qed

section \<open>Issued validations\<close>

text \<open>
  C12: The local node never issues a validation of a sequence number that does not exceed the one it
  issued before, unless the earlier one has expired: this holds of any two consecutive sequence numbers
  that \<^verbatim>\<open>canValidateSeq\<close> granted, whatever other calls were made in between. The clock of the calls
  does not run backwards.
\<close>

theorem issued_increasing:
  assumes "sorted (issue_clocks calls)"
  shows "successively (\<lambda>(t, s) (t', s'). s < s' \<or> t + steady_secs (validationSetExpires p) < t')
    (issued L calls (Validations_new L p))"
proof -
  have "\<exists>now. \<forall>t \<in> set (issue_clocks calls). now \<le> t"
    using assms by (cases "issue_clocks calls") auto
  then obtain now where "\<forall>t \<in> set (issue_clocks calls). now \<le> t" by blast
  from issued_first [OF assms this, of "Validations_new L p" L] show ?thesis
    by (auto simp: Validations_new_def issue_ok_def case_prod_unfold elim!: successively_mono)
qed

definition ex_issue :: "(nat, nat, rcl_ledger, hash256) val_call list" where
  "ex_issue = [VCanValidate (ex_adaptor 1000 1 [3]) 3, VCanValidate (ex_adaptor 1001 2 [3]) 3, VExpire (ex_adaptor 1001 3 [3]),
     VCanValidate (ex_adaptor 1005 5 [3]) 4, VCanValidate (ex_adaptor 1700 700 [3]) 2]"

theorem issued_increasing_witness:
  "map snd (issued rcl_ops ex_issue (Validations_new rcl_ops ValidationParms)) = [3, 4, 2] \<and>
   successively (\<lambda>(t, s) (t', s'). s < s' \<or> t + steady_secs 600 < t') (issued rcl_ops ex_issue (Validations_new rcl_ops ValidationParms))"
proof -
  have "sorted (issue_clocks ex_issue)" by code_simp
  moreover have "map snd (issued rcl_ops ex_issue (Validations_new rcl_ops ValidationParms)) = [3, 4, 2]" by code_simp
  ultimately show ?thesis
    using issued_increasing [of ex_issue ValidationParms rcl_ops] by (simp add: ValidationParms_def)
qed

section \<open>Promises that are not kept\<close>





end
