(* ===== verification/CensorshipDetector.thy ===== *)
theory CensorshipDetector
  imports Rippled_Prelude
begin

text \<open>
  The censorship detector, \<^verbatim>\<open>include/xrpl/consensus/CensorshipDetector.h\<close>, and the two algorithms on
  sorted ranges that it uses, \<^verbatim>\<open>include/xrpl/basics/algorithm.h\<close>. An iterator range is the list of its
  elements. The predicate given to \<^verbatim>\<open>check\<close> warns about a transaction, so that the model also returns
  the entries on which it is called.
\<close>

section \<open>Tracked transactions\<close>

datatype ('txid, 'seq) TxIDSeq = TxIDSeq (txid: 'txid) (tx_seq: 'seq)

text \<open>\<^verbatim>\<open>operator<\<close> of the code; \<open>std::sort\<close> is the sorting function of the order.\<close>

instantiation TxIDSeq :: (linorder, linorder) linorder
begin

definition less_TxIDSeq :: "('a, 'b) TxIDSeq \<Rightarrow> ('a, 'b) TxIDSeq \<Rightarrow> bool" where
  "less_TxIDSeq lhs rhs = (if txid lhs \<noteq> txid rhs then txid lhs < txid rhs else tx_seq lhs < tx_seq rhs)"

definition less_eq_TxIDSeq :: "('a, 'b) TxIDSeq \<Rightarrow> ('a, 'b) TxIDSeq \<Rightarrow> bool" where
  "less_eq_TxIDSeq lhs rhs = (if txid lhs \<noteq> txid rhs then txid lhs < txid rhs else tx_seq lhs \<le> tx_seq rhs)"

instance
  by standard (auto simp: less_TxIDSeq_def less_eq_TxIDSeq_def TxIDSeq.expand split: if_splits)

end

section \<open>Algorithms on sorted ranges\<close>

text \<open>The comparison is used in both directions, on elements of two types.\<close>

fun generalizedSetIntersection ::
  "('a \<Rightarrow> 'b \<Rightarrow> 'a) \<Rightarrow> ('a \<Rightarrow> 'b \<Rightarrow> bool) \<Rightarrow> ('b \<Rightarrow> 'a \<Rightarrow> bool) \<Rightarrow> 'a list \<Rightarrow> 'b list \<Rightarrow> 'a list" where
  "generalizedSetIntersection action lt gt [] ys = []"
| "generalizedSetIntersection action lt gt (x # xs) [] = x # xs"
| "generalizedSetIntersection action lt gt (x # xs) (y # ys) =
     (if lt x y then x # generalizedSetIntersection action lt gt xs (y # ys)
      else if \<not> gt y x then action x y # generalizedSetIntersection action lt gt xs ys
      else generalizedSetIntersection action lt gt (x # xs) ys)"

text \<open>The preserved elements, and the elements on which the predicate is called.\<close>

fun removeIfIntersectOrMatch ::
  "('a \<Rightarrow> bool) \<Rightarrow> ('a \<Rightarrow> 'b \<Rightarrow> bool) \<Rightarrow> ('b \<Rightarrow> 'a \<Rightarrow> bool) \<Rightarrow> 'a list \<Rightarrow> 'b list \<Rightarrow> 'a list \<times> 'a list" where
  "removeIfIntersectOrMatch p lt gt [] ys = ([], [])"
| "removeIfIntersectOrMatch p lt gt (x # xs) [] =
     (case removeIfIntersectOrMatch p lt gt xs [] of (kept, asked) \<Rightarrow> (if p x then kept else x # kept, x # asked))"
| "removeIfIntersectOrMatch p lt gt (x # xs) (y # ys) =
     (if lt x y
      then (case removeIfIntersectOrMatch p lt gt xs (y # ys) of (kept, asked) \<Rightarrow> (if p x then kept else x # kept, x # asked))
      else if \<not> gt y x then removeIfIntersectOrMatch p lt gt xs ys
      else removeIfIntersectOrMatch p lt gt (x # xs) ys)"

section \<open>The detector\<close>

type_synonym ('txid, 'seq) tracker = "('txid, 'seq) TxIDSeq list"

definition propose :: "('txid::linorder, 'seq::linorder) TxIDSeq list \<Rightarrow> ('txid, 'seq) tracker \<Rightarrow> ('txid, 'seq) tracker" where
  "propose proposed tracker =
     generalizedSetIntersection (\<lambda>x y. TxIDSeq (txid x) (tx_seq y)) (\<lambda>x y. txid x < txid y) (\<lambda>y x. txid y < txid x)
       (sort proposed) tracker"

definition check ::
  "'txid::linorder list \<Rightarrow> ('txid \<Rightarrow> 'seq \<Rightarrow> bool) \<Rightarrow> ('txid, 'seq) tracker \<Rightarrow> ('txid, 'seq) tracker \<times> ('txid, 'seq) tracker" where
  "check accepted p tracker =
     removeIfIntersectOrMatch (\<lambda>x. p (txid x) (tx_seq x)) (\<lambda>x t. txid x < t) (\<lambda>t x. t < txid x) tracker (sort accepted)"

definition reset :: "('txid, 'seq) tracker \<Rightarrow> ('txid, 'seq) tracker" where
  "reset tracker = []"

section \<open>Correctness\<close>

definition tracker_ok :: "('txid::linorder, 'seq) tracker \<Rightarrow> bool" where
  "tracker_ok t \<longleftrightarrow> sorted_wrt (\<lambda>x y. txid x < txid y) t"

text \<open>The sequence number under which a transaction is tracked.\<close>

definition tracked_seq :: "('txid, 'seq) tracker \<Rightarrow> 'txid \<Rightarrow> 'seq option" where
  "tracked_seq t = map_of (map (\<lambda>x. (txid x, tx_seq x)) t)"

lemma tracked_seq_Cons: "tracked_seq (x # t) = (tracked_seq t)(txid x \<mapsto> tx_seq x)"
  by (simp add: tracked_seq_def)

lemma tracked_seq_Nil: "tracked_seq [] = Map.empty"
  by (simp add: tracked_seq_def)

lemma tracked_seq_None: "tracked_seq t i = None \<longleftrightarrow> i \<notin> txid ` set t"
  by (force simp: tracked_seq_def map_of_eq_None_iff)

lemma tracker_ok_Cons: "tracker_ok (x # t) \<longleftrightarrow> tracker_ok t \<and> (\<forall>y \<in> set t. txid x < txid y)"
  by (auto simp: tracker_ok_def)

lemma sort_ok: "distinct (map txid ps) \<Longrightarrow> tracker_ok (sort ps)"
proof -
  assume "distinct (map txid ps)"
  then have "distinct (map txid (sort ps))" by (metis distinct_map distinct_sort set_sort)
  moreover have "sorted (sort ps)" by simp
  moreover have "sorted xs \<Longrightarrow> distinct (map txid xs) \<Longrightarrow> tracker_ok xs" for xs :: "('a, 'b) TxIDSeq list"
    by (induction xs) (force simp: tracker_ok_def less_eq_TxIDSeq_def split: if_splits)+
  ultimately show ?thesis by blast
qed

lemma sort_tracked: "distinct (map txid ps) \<Longrightarrow> tracked_seq (sort ps) = tracked_seq ps"
  unfolding tracked_seq_def by (subst map_of_inject_set) (auto simp: comp_def distinct_map inj_on_def)

abbreviation keep_seq :: "('txid::linorder, 'seq) tracker \<Rightarrow> ('txid, 'seq) tracker \<Rightarrow> ('txid, 'seq) tracker" where
  "keep_seq \<equiv> generalizedSetIntersection (\<lambda>x y. TxIDSeq (txid x) (tx_seq y)) (\<lambda>x y. txid x < txid y) (\<lambda>y x. txid y < txid x)"

lemma keep_seq_ids: "map txid (keep_seq xs ys) = map txid xs"
proof -
  have "(\<And>x y. txid (action x y) = txid x) \<Longrightarrow> map txid (generalizedSetIntersection action lt gt xs ys) = map txid xs"
    for action :: "('a, 'b) TxIDSeq \<Rightarrow> ('a, 'b) TxIDSeq \<Rightarrow> ('a, 'b) TxIDSeq" and lt gt
    by (induction action lt gt xs ys rule: generalizedSetIntersection.induct) auto
  then show ?thesis by simp
qed

lemma tracker_ok_ids: "tracker_ok t \<longleftrightarrow> sorted_wrt (<) (map txid t)"
  by (simp add: tracker_ok_def sorted_wrt_map)

lemma tracked_seq_less: "tracker_ok (y # ys) \<Longrightarrow> i < txid y \<Longrightarrow> tracked_seq (y # ys) i = None"
  by (auto simp: tracked_seq_None tracker_ok_Cons)

lemma keep_seq_tracked:
  "tracker_ok xs \<Longrightarrow> tracker_ok ys \<Longrightarrow>
   tracked_seq (keep_seq xs ys) i =
     (case tracked_seq xs i of None \<Rightarrow> None | Some s \<Rightarrow> Some (case tracked_seq ys i of Some s' \<Rightarrow> s' | None \<Rightarrow> s))"
proof (induction "\<lambda>(x :: ('a, 'b) TxIDSeq) (y :: ('a, 'b) TxIDSeq). TxIDSeq (txid x) (tx_seq y)"
    "\<lambda>(x :: ('a, 'b) TxIDSeq) (y :: ('a, 'b) TxIDSeq). txid x < txid y"
    "\<lambda>(y :: ('a, 'b) TxIDSeq) (x :: ('a, 'b) TxIDSeq). txid y < txid x" xs ys rule: generalizedSetIntersection.induct)
  case (3 x xs y ys)
  have ok: "tracker_ok xs" "tracker_ok ys" using "3.prems" by (simp_all add: tracker_ok_Cons)
  consider "txid x < txid y" | "txid x = txid y" | "txid y < txid x" by fastforce
  then show ?case
  proof cases
    case 1
    then show ?thesis using "3.hyps"(1) "3.prems" ok tracked_seq_less [OF "3.prems"(2), of "txid x"] by (simp add: tracked_seq_Cons)
  next
    case 2
    then have "tracked_seq xs (txid x) = None" "tracked_seq ys (txid y) = None"
      using "3.prems" by (auto simp: tracked_seq_None tracker_ok_Cons)
    then show ?thesis using 2 "3.hyps"(2) ok by (auto simp: tracked_seq_Cons split: option.splits)
  next
    case 3
    then have "tracked_seq (x # xs) (txid y) = None" by (intro tracked_seq_less "3.prems"(1))
    then show ?thesis using 3 "3.hyps"(3) "3.prems"(1) ok by (auto simp: tracked_seq_Cons split: option.splits if_splits)
  qed
qed (simp_all add: tracked_seq_Nil split: option.splits)

lemma remove_filter:
  "tracker_ok xs \<Longrightarrow> sorted ys \<Longrightarrow>
   removeIfIntersectOrMatch p (\<lambda>x t. txid x < t) (\<lambda>t x. t < txid x) xs ys =
     (filter (\<lambda>x. txid x \<notin> set ys \<and> \<not> p x) xs, filter (\<lambda>x. txid x \<notin> set ys) xs)"
proof (induction p "\<lambda>(x :: ('a, 'b) TxIDSeq) t. txid x < t" "\<lambda>t (x :: ('a, 'b) TxIDSeq). t < txid x" xs ys
    rule: removeIfIntersectOrMatch.induct)
  case (2 p x xs)
  then show ?case by (simp add: tracker_ok_Cons)
next
  case (3 p x xs y ys)
  have ok: "tracker_ok xs" "sorted ys" using "3.prems" by (simp_all add: tracker_ok_Cons)
  consider "txid x < y" | "txid x = y" | "y < txid x" by fastforce
  then show ?case
  proof cases
    case 1
    then have "txid x \<notin> set (y # ys)" using "3.prems"(2) by auto
    then show ?thesis using 1 "3.hyps"(1) "3.prems" ok by simp
  next
    case 2
    have "filter (\<lambda>z. txid z \<notin> set (y # ys) \<and> Q z) xs = filter (\<lambda>z. txid z \<notin> set ys \<and> Q z) xs" for Q
      using "3.prems"(1) 2 by (intro filter_cong) (auto simp: tracker_ok_Cons)
    from this [of "\<lambda>z. \<not> p z"] this [of "\<lambda>z. True"] show ?thesis using 2 "3.hyps"(2) ok by simp
  next
    case 3
    have "filter (\<lambda>z. txid z \<notin> set (y # ys) \<and> Q z) (x # xs) = filter (\<lambda>z. txid z \<notin> set ys \<and> Q z) (x # xs)" for Q
      using "3.prems"(1) 3 by (intro filter_cong) (auto simp: tracker_ok_Cons)
    from this [of "\<lambda>z. \<not> p z"] this [of "\<lambda>z. True"] show ?thesis using less_not_sym [OF 3] 3 "3.hyps"(3) "3.prems"(1) ok by simp
  qed
qed simp

lemma tracked_seq_filter:
  "tracker_ok t \<Longrightarrow>
   tracked_seq (filter (\<lambda>x. Q (txid x) (tx_seq x)) t) i = (case tracked_seq t i of None \<Rightarrow> None | Some s \<Rightarrow> if Q i s then Some s else None)"
proof (induction t)
  case (Cons x t)
  then have "tracked_seq t (txid x) = None" by (auto simp: tracked_seq_None tracker_ok_Cons)
  then show ?case using Cons by (auto simp: tracked_seq_Cons tracker_ok_Cons split: option.splits)
qed (simp add: tracked_seq_Nil)

section \<open>Refinement\<close>

datatype ('txid, 'seq) cd_call =
    CdPropose "('txid, 'seq) TxIDSeq list"
  | CdCheck "'txid list" "'txid \<Rightarrow> 'seq \<Rightarrow> bool"
  | CdReset

fun cd_exec :: "('txid::linorder, 'seq::linorder) cd_call \<Rightarrow> ('txid, 'seq) tracker \<Rightarrow> ('txid, 'seq) tracker" where
  "cd_exec (CdPropose ps) t = propose ps t"
| "cd_exec (CdCheck accepted p) t = fst (check accepted p t)"
| "cd_exec CdReset t = reset t"

text \<open>The specification: a map from the transactions that wait to the sequence number of their first proposal.\<close>

fun cd_spec :: "('txid, 'seq) cd_call \<Rightarrow> ('txid \<rightharpoonup> 'seq) \<Rightarrow> ('txid \<rightharpoonup> 'seq)" where
  "cd_spec (CdPropose ps) m = (\<lambda>i. case tracked_seq ps i of None \<Rightarrow> None | Some s \<Rightarrow> Some (case m i of Some s' \<Rightarrow> s' | None \<Rightarrow> s))"
| "cd_spec (CdCheck accepted p) m =
     (\<lambda>i. case m i of None \<Rightarrow> None | Some s \<Rightarrow> if i \<in> set accepted \<or> p i s then None else Some s)"
| "cd_spec CdReset m = Map.empty"

fun cd_call_ok :: "('txid, 'seq) cd_call \<Rightarrow> bool" where
  "cd_call_ok (CdPropose ps) = distinct (map txid ps)"
| "cd_call_ok _ = True"

lemma check_filter:
  "tracker_ok t \<Longrightarrow> check accepted p t =
     (filter (\<lambda>x. txid x \<notin> set accepted \<and> \<not> p (txid x) (tx_seq x)) t, filter (\<lambda>x. txid x \<notin> set accepted) t)"
  by (simp add: check_def remove_filter)

lemma cd_exec_refines:
  assumes "tracker_ok t" "cd_call_ok c"
  shows "tracker_ok (cd_exec c t) \<and> tracked_seq (cd_exec c t) = cd_spec c (tracked_seq t)"
proof (cases c)
  case (CdPropose ps)
  then have ps: "distinct (map txid ps)" using assms(2) by simp
  have "tracker_ok (propose ps t)" using sort_ok [OF ps] by (simp add: propose_def tracker_ok_ids keep_seq_ids)
  then show ?thesis using CdPropose sort_ok [OF ps] assms(1)
    by (auto simp: propose_def keep_seq_tracked sort_tracked [OF ps])
next
  case (CdCheck accepted p)
  then show ?thesis
    using assms(1) tracked_seq_filter [OF assms(1), of "\<lambda>i s. i \<notin> set accepted \<and> \<not> p i s"]
    by (auto simp: check_filter tracker_ok_def sorted_wrt_filter split: option.splits)
next
  case CdReset
  then show ?thesis by (simp add: reset_def tracker_ok_def tracked_seq_Nil)
qed

text \<open>
  C25: The censorship detector is a map from the transactions we wait for to the sequence number of
  their first proposal. After any sequence of calls whose proposals name a transaction once, a
  transaction is tracked exactly when the specification says so, and with its first sequence number;
  the next check warns about exactly the tracked transactions that were not accepted, and it keeps
  those of them that do not match the predicate.
\<close>

theorem censorship_tracker_refines:
  assumes "\<forall>c \<in> set calls. cd_call_ok c"
  defines "t \<equiv> fold cd_exec calls []"
  shows "tracked_seq t = fold cd_spec calls Map.empty \<and> sorted_wrt (\<lambda>x y. txid x < txid y) t \<and>
    check accepted p t =
      (filter (\<lambda>x. txid x \<notin> set accepted \<and> \<not> p (txid x) (tx_seq x)) t, filter (\<lambda>x. txid x \<notin> set accepted) t)"
proof -
  have "tracker_ok t' \<Longrightarrow> tracker_ok (fold cd_exec calls t') \<and> tracked_seq (fold cd_exec calls t') = fold cd_spec calls (tracked_seq t')" for t'
    using assms(1) by (induction calls arbitrary: t') (auto simp: cd_exec_refines)
  from this [of "[]"] have t: "tracker_ok t" "tracked_seq t = fold cd_spec calls Map.empty"
    by (simp_all add: t_def tracker_ok_def tracked_seq_Nil)
  show ?thesis using t check_filter [OF t(1)] by (simp add: tracker_ok_def)
qed

theorem censorship_tracker_refines_witness:
  "snd (check [9] (\<lambda>i s. False)
     (fold cd_exec [CdPropose [TxIDSeq 7 10, TxIDSeq (2::nat) (10::nat)], CdCheck [2] (\<lambda>i s. False), CdPropose [TxIDSeq 9 11, TxIDSeq 7 11]] [])) =
   [TxIDSeq 7 10]"
proof -
  let ?calls = "[CdPropose [TxIDSeq 7 10, TxIDSeq (2::nat) (10::nat)], CdCheck [2] (\<lambda>i s. False), CdPropose [TxIDSeq 9 11, TxIDSeq 7 11]]"
  have "\<forall>c \<in> set ?calls. cd_call_ok c" by simp
  note * = censorship_tracker_refines [OF this, of "[9]" "\<lambda>i s. False"]
  have "filter (\<lambda>x. txid x \<notin> set [9]) (fold cd_exec ?calls []) = [TxIDSeq 7 10]" by code_simp
  then show ?thesis using * by simp
qed

end
