(* ===== verification/NegativeUNLVote.thy ===== *)
theory NegativeUNLVote
  imports Validations SHAMap_Correct Float32
begin

text \<open>
  The votes for the negative UNL, the list of trusted validators that are taken for offline:
  \<^verbatim>\<open>xrpld/app/misc/NegativeUNLVote.cpp\<close>. A vote uses the validations of the last 256 ledgers and adds
  pseudo transactions to the initial transaction set of a round.

  \<^item> A node identifier is a 160-bit word, a ledger hash a 256-bit word; sequence numbers are 32-bit
    words, and their arithmetic wraps.
  \<^item> Hash sets and hash maps are lists; their order is left open, and the properties show that it
    does not matter.
  \<^item> The node identifier of a key and the one that a validation carries are parameters, and so is the
    transaction that is made of a vote. The log is left out.
\<close>

type_synonym node_id = "160 word"

section \<open>Constants\<close>

definition kFlagLedgerInterval :: nat where "kFlagLedgerInterval = 256"

definition kNegativeUnlLowWaterMark :: nat where "kNegativeUnlLowWaterMark = kFlagLedgerInterval * 50 div 100"

definition kNegativeUnlHighWaterMark :: nat where "kNegativeUnlHighWaterMark = kFlagLedgerInterval * 80 div 100"

definition kNegativeUnlMinLocalValsToVote :: nat where "kNegativeUnlMinLocalValsToVote = kFlagLedgerInterval * 90 div 100"

definition kNewValidatorDisableSkip :: nat where "kNewValidatorDisableSkip = kFlagLedgerInterval * 2"

definition kNegativeUnlMaxListed :: rat where "kNegativeUnlMaxListed = 1 / 4"

lemmas unl_consts = kFlagLedgerInterval_def kNegativeUnlLowWaterMark_def kNegativeUnlHighWaterMark_def
  kNegativeUnlMinLocalValsToVote_def kNewValidatorDisableSkip_def

section \<open>State and inputs\<close>

record unl_vote =
  nv_myId :: node_id
  nv_newValidators :: "(node_id, 32 word) hm"

text \<open>What is read of the previous ledger; \<open>pl_hashes\<close> are the hashes of its ancestors, the parent last.\<close>

record 'key prev_ledger =
  pl_seq :: "32 word"
  pl_hash :: hash256
  pl_hashes :: "hash256 list option"
  pl_negativeUNL :: "'key list"
  pl_validatorToDisable :: "'key option"
  pl_validatorToReEnable :: "'key option"

datatype NegativeUNLModify = ToDisable | ToReEnable

record candidates =
  toDisableCandidates :: "node_id list"
  toReEnableCandidates :: "node_id list"

section \<open>New validators\<close>

definition newValidators :: "32 word \<Rightarrow> node_id list \<Rightarrow> unl_vote \<Rightarrow> unl_vote" where
  "newValidators s nowTrusted nv =
     nv\<lparr>nv_newValidators := fold (\<lambda>n m. if hm_find m n = None then hm_assign m n s else m) nowTrusted (nv_newValidators nv)\<rparr>"

definition purgeNewValidators :: "32 word \<Rightarrow> unl_vote \<Rightarrow> unl_vote" where
  "purgeNewValidators s nv =
     nv\<lparr>nv_newValidators := filter (\<lambda>(n, since). \<not> unat (s - since) > kNewValidatorDisableSkip) (nv_newValidators nv)\<rparr>"

section \<open>Scores\<close>

definition bump_score :: "node_id \<Rightarrow> (node_id, nat) hm \<Rightarrow> (node_id, nat) hm" where
  "bump_score n t = (case hm_find t n of None \<Rightarrow> t | Some c \<Rightarrow> hm_assign t n (Suc c))"

text \<open>The loop over the last ledgers; the validations change because their sets are touched.\<close>

definition score_step ::
  "('l, hash256) val_adaptor \<Rightarrow> (('key, hash256) validation \<Rightarrow> node_id) \<Rightarrow> 32 word \<Rightarrow> hash256 list \<Rightarrow> nat \<Rightarrow>
   ('n, 'key, 'l, hash256) validations \<times> (node_id, nat) hm \<Rightarrow> ('n, 'key, 'l, hash256) validations \<times> (node_id, nat) hm" where
  "score_step A nodeID s ancestors i = (\<lambda>(vs, table).
     case getTrustedForLedger A (ancestors ! (length ancestors - 1 - i)) (unat (s - 2 - of_nat i)) vs of
       (vs', vals) \<Rightarrow> (vs', fold (\<lambda>v. bump_score (nodeID v)) vals table))"

definition buildScoreTable ::
  "('l, hash256) val_adaptor \<Rightarrow> (('key, hash256) validation \<Rightarrow> node_id) \<Rightarrow> 'key prev_ledger \<Rightarrow> node_id list \<Rightarrow>
   ('n, 'key, 'l, hash256) validations \<Rightarrow> unl_vote \<Rightarrow> ('n, 'key, 'l, hash256) validations \<times> (node_id, nat) hm option" where
  "buildScoreTable A nodeID prevLedger unl vs nv =
     (let s = pl_seq prevLedger + 1;
          vs1 = setSeqToKeep (unat (s - 1)) (unat (s + of_nat kFlagLedgerInterval)) vs
      in case pl_hashes prevLedger of
           None \<Rightarrow> (vs1, None)
         | Some ledgerAncestors \<Rightarrow>
             if length ledgerAncestors < kFlagLedgerInterval then (vs1, None)
             else let (vs2, scoreTable) =
                        fold (score_step A nodeID s ledgerAncestors) [0..<kFlagLedgerInterval] (vs1, map (\<lambda>k. (k, 0)) unl);
                      myValidationCount = (case hm_find scoreTable (nv_myId nv) of Some c \<Rightarrow> c | None \<Rightarrow> 0)
                  in (vs2,
                      if myValidationCount < kNegativeUnlMinLocalValsToVote then None
                      else if kNegativeUnlMinLocalValsToVote < myValidationCount \<and> myValidationCount \<le> kFlagLedgerInterval
                      then Some scoreTable else None))"

section \<open>Candidates\<close>

text \<open>The product is computed in \<^verbatim>\<open>float\<close>.\<close>

definition maxNegativeListed :: "nat \<Rightarrow> nat" where
  "maxNegativeListed n = nat \<lceil>f32_mult (f32_of_nat n) kNegativeUnlMaxListed\<rceil>"

definition canAdd :: "node_id list \<Rightarrow> node_id list \<Rightarrow> bool" where
  "canAdd unl negUnl \<longleftrightarrow> length (filter (\<lambda>n. n \<in> set negUnl) unl) < maxNegativeListed (length unl)"

definition findAllCandidates :: "node_id list \<Rightarrow> node_id list \<Rightarrow> (node_id, nat) hm \<Rightarrow> unl_vote \<Rightarrow> candidates" where
  "findAllCandidates unl negUnl scoreTable nv =
     (let disable = map fst (filter (\<lambda>(n, score). canAdd unl negUnl \<and> score < kNegativeUnlLowWaterMark \<and>
                      n \<notin> set negUnl \<and> hm_find (nv_newValidators nv) n = None) scoreTable);
          reEnable = map fst (filter (\<lambda>(n, score). score > kNegativeUnlHighWaterMark \<and> n \<in> set negUnl) scoreTable)
      in \<lparr>toDisableCandidates = disable,
          toReEnableCandidates = (if reEnable = [] then filter (\<lambda>n. n \<notin> set unl) negUnl else reEnable)\<rparr>)"

text \<open>The pad is made of the first 20 bytes of the hash.\<close>

definition random_pad :: "hash256 \<Rightarrow> node_id" where
  "random_pad h = ucast (drop_bit 96 h)"

fun choose_loop :: "node_id \<Rightarrow> node_id list \<Rightarrow> node_id \<Rightarrow> node_id" where
  "choose_loop pad [] txNodeID = txNodeID"
| "choose_loop pad (c # cs) txNodeID =
     choose_loop pad cs (if xor c pad < xor txNodeID pad then c else txNodeID)"

text \<open>\<^verbatim>\<open>choose\<close>, and no choice when there is no candidate.\<close>

definition choose_node :: "hash256 \<Rightarrow> node_id list \<Rightarrow> node_id option" where
  "choose_node randomPadData cs = (case cs of [] \<Rightarrow> None | c # cs' \<Rightarrow> Some (choose_loop (random_pad randomPadData) cs' c))"

section \<open>Voting\<close>

definition addTx ::
  "(NegativeUNLModify \<Rightarrow> 32 word \<Rightarrow> 'key \<Rightarrow> shamap_item) \<Rightarrow> 32 word \<Rightarrow> 'key \<Rightarrow> NegativeUNLModify \<Rightarrow> tree \<Rightarrow> tree option" where
  "addTx mkTx s vp modify initialSet = map_option fst (addGiveItem TnTransactionNm (mkTx modify s vp) initialSet)"

definition emplace_key :: "('key \<Rightarrow> node_id) \<Rightarrow> 'key \<Rightarrow> (node_id, 'key) hm \<Rightarrow> (node_id, 'key) hm" where
  "emplace_key calcNodeID k m = fst (hm_emplace m (calcNodeID k) k)"

text \<open>The keys of the next negative UNL.\<close>

definition next_negUnlKeys :: "'key prev_ledger \<Rightarrow> 'key list" where
  "next_negUnlKeys prevLedger =
     (let ks = (case pl_validatorToDisable prevLedger of Some k \<Rightarrow> List.insert k (pl_negativeUNL prevLedger)
                                                    | None \<Rightarrow> pl_negativeUNL prevLedger)
      in case pl_validatorToReEnable prevLedger of Some k \<Rightarrow> removeAll k ks | None \<Rightarrow> ks)"

text \<open>A vote for a node that was chosen, if one was; \<open>at\<close> of the map throws when the key is missing.\<close>

definition vote_tx ::
  "(NegativeUNLModify \<Rightarrow> 32 word \<Rightarrow> 'key \<Rightarrow> shamap_item) \<Rightarrow> 32 word \<Rightarrow> (node_id, 'key) hm \<Rightarrow> NegativeUNLModify \<Rightarrow>
   node_id option \<Rightarrow> tree \<Rightarrow> tree option" where
  "vote_tx mkTx s nidToKeyMap modify chosen initialSet =
     (case chosen of
        None \<Rightarrow> Some initialSet
      | Some n \<Rightarrow> (case hm_find nidToKeyMap n of None \<Rightarrow> None | Some k \<Rightarrow> addTx mkTx s k modify initialSet))"

definition doVoting ::
  "('l, hash256) val_adaptor \<Rightarrow> (('key, hash256) validation \<Rightarrow> node_id) \<Rightarrow> ('key \<Rightarrow> node_id) \<Rightarrow>
   (NegativeUNLModify \<Rightarrow> 32 word \<Rightarrow> 'key \<Rightarrow> shamap_item) \<Rightarrow> 'key prev_ledger \<Rightarrow> 'key list \<Rightarrow>
   ('n, 'key, 'l, hash256) validations \<Rightarrow> unl_vote \<Rightarrow> tree \<Rightarrow>
   ('n, 'key, 'l, hash256) validations \<times> unl_vote \<times> tree option" where
  "doVoting A nodeID calcNodeID mkTx prevLedger unlKeys vs nv initialSet =
     (let unlNodeIDs = remdups (map calcNodeID unlKeys);
          nidToKeyMap = fold (emplace_key calcNodeID) unlKeys []
      in case buildScoreTable A nodeID prevLedger unlNodeIDs vs nv of
           (vs1, None) \<Rightarrow> (vs1, nv, Some initialSet)
         | (vs1, Some scoreTable) \<Rightarrow>
             let negUnlKeys = next_negUnlKeys prevLedger;
                 negUnlNodeIDs = remdups (map calcNodeID negUnlKeys);
                 keyMap = fold (emplace_key calcNodeID) negUnlKeys nidToKeyMap;
                 s = pl_seq prevLedger + 1;
                 nv1 = purgeNewValidators s nv;
                 cands = findAllCandidates unlNodeIDs negUnlNodeIDs scoreTable nv1;
                 set1 = vote_tx mkTx s keyMap ToDisable (choose_node (pl_hash prevLedger) (toDisableCandidates cands)) initialSet
             in (vs1, nv1,
                 case set1 of
                   None \<Rightarrow> None
                 | Some r \<Rightarrow> vote_tx mkTx s keyMap ToReEnable (choose_node (pl_hash prevLedger) (toReEnableCandidates cands)) r))"

end
