(* ===== verification/NegativeUNLVote_Correct.thy ===== *)
theory NegativeUNLVote_Correct
  imports NegativeUNLVote
begin

text \<open>
  Correctness of the votes for the negative UNL: all nodes that see the same ledger, trusted
  validators and scores choose the same validators, whatever the order of their hash tables; a vote to
  disable keeps within a quarter of the trusted validators; the scores count the validated ledgers.
\<close>

section \<open>The choice\<close>

lemma xor_pad_inj: "xor a pad = xor b pad \<Longrightarrow> a = (b :: 'a::len word)"
proof -
  assume "xor a pad = xor b pad"
  then have "xor (xor a pad) pad = xor (xor b pad) pad" by simp
  then show ?thesis by (simp add: xor.assoc)
qed

lemma choose_loop_min:
  "choose_loop pad cs t \<in> insert t (set cs) \<and> (\<forall>c \<in> insert t (set cs). xor (choose_loop pad cs t) pad \<le> xor c pad)"
proof (induction cs arbitrary: t)
  case (Cons c cs)
  show ?case using Cons.IH [of c] Cons.IH [of t] by (auto simp: not_less intro: order.trans less_imp_le)
qed simp

lemma choose_min:
  assumes "choose_node h cs = Some n"
  shows "n \<in> set cs" "\<And>c. c \<in> set cs \<Longrightarrow> xor n (random_pad h) \<le> xor c (random_pad h)"
proof -
  obtain c cs' where cs: "cs = c # cs'" "n = choose_loop (random_pad h) cs' c"
    using assms by (cases cs) (auto simp: choose_node_def)
  then show "n \<in> set cs" "\<And>c. c \<in> set cs \<Longrightarrow> xor n (random_pad h) \<le> xor c (random_pad h)"
    using choose_loop_min [of "random_pad h" cs' c] by auto
qed

lemma choose_None: "choose_node h cs = None \<longleftrightarrow> cs = []"
  by (simp add: choose_node_def split: list.splits)

lemma choose_cong:
  assumes "set cs = set cs'"
  shows "choose_node h cs = choose_node h cs'"
proof (cases "choose_node h cs")
  case None
  then show ?thesis using assms choose_None by (metis set_empty)
next
  case (Some n)
  then obtain n' where n': "choose_node h cs' = Some n'" using assms choose_None by (metis option.exhaust set_empty)
  have "xor n (random_pad h) = xor n' (random_pad h)"
    using choose_min [OF Some] choose_min [OF n'] assms by (intro antisym) auto
  from xor_pad_inj [OF this] show ?thesis using Some n' by simp
qed

text \<open>
  C22: Nodes agree on the vote. Two nodes with the same previous ledger, the same trusted validators and
  negative UNL, the same scores and the same new validators choose the same validator to disable and
  the same one to enable again, in whatever order their hash tables hold the entries; the choice is the
  candidate that is least after it is combined with the pad made of the ledger hash.
\<close>

theorem vote_independent_of_order:
  fixes unl unl' negUnl negUnl' :: "node_id list" and t t' :: "(node_id, nat) hm"
  assumes "set unl = set unl'" "distinct unl" "distinct unl'" "set negUnl = set negUnl'" "set t = set t'"
    and "\<And>n. hm_find (nv_newValidators nv) n = None \<longleftrightarrow> hm_find (nv_newValidators nv') n = None"
  defines "c \<equiv> findAllCandidates unl negUnl t nv" and "c' \<equiv> findAllCandidates unl' negUnl' t' nv'"
  shows "choose_node h (toDisableCandidates c) = choose_node h (toDisableCandidates c') \<and>
    choose_node h (toReEnableCandidates c) = choose_node h (toReEnableCandidates c') \<and>
    (\<forall>n. choose_node h (toDisableCandidates c) = Some n \<longrightarrow> n \<in> set (toDisableCandidates c) \<and>
       (\<forall>m \<in> set (toDisableCandidates c). xor n (random_pad h) \<le> xor m (random_pad h)))"
proof -
  have "length (filter P xs) = card {x \<in> set xs. P x}" if "distinct xs" for P and xs :: "node_id list"
    using distinct_card [OF distinct_filter [OF that, of P]] by simp
  moreover have "length unl = length unl'" using assms(1-3) by (metis distinct_card)
  ultimately have can: "canAdd unl negUnl = canAdd unl' negUnl'" by (simp add: canAdd_def assms(1-4))
  have dis: "set (toDisableCandidates c) = set (toDisableCandidates c')"
    using assms(4-6) by (auto simp: c_def c'_def findAllCandidates_def Let_def can)
  have re: "filter (\<lambda>(n, score). score > kNegativeUnlHighWaterMark \<and> n \<in> set negUnl) t = [] \<longleftrightarrow>
      filter (\<lambda>(n, score). score > kNegativeUnlHighWaterMark \<and> n \<in> set negUnl') t' = []"
    using assms(4,5) by (auto simp: filter_empty_conv)
  have en: "set (toReEnableCandidates c) = set (toReEnableCandidates c')"
    using re assms(1,4,5) by (auto simp: c_def c'_def findAllCandidates_def Let_def)
  show ?thesis
    by (intro conjI allI impI ballI) (rule choose_cong [OF dis], rule choose_cong [OF en], erule choose_min(1), erule (1) choose_min(2))
qed

theorem vote_independent_of_order_witness:
  "choose_node 5 (toDisableCandidates (findAllCandidates [1, 2, 3, 4] [] [(1, 200), (2, 10), (3, 20), (4, 250)] \<lparr>nv_myId = 4, nv_newValidators = []\<rparr>)) =
   choose_node 5 (toDisableCandidates (findAllCandidates [4, 3, 2, 1] [] [(3, 20), (4, 250), (1, 200), (2, 10)] \<lparr>nv_myId = 1, nv_newValidators = []\<rparr>))"
  using vote_independent_of_order [of "[1, 2, 3, 4]" "[4, 3, 2, 1]" "[]" "[]" "[(1, 200), (2, 10), (3, 20), (4, 250)]"
      "[(3, 20), (4, 250), (1, 200), (2, 10)]" "\<lparr>nv_myId = 4, nv_newValidators = []\<rparr>" "\<lparr>nv_myId = 1, nv_newValidators = []\<rparr>" 5]
  by (auto simp: hm_find_def)

section \<open>Bounds\<close>

lemma maxNegativeListed_quarter:
  assumes "n < 2 ^ 22"
  shows "maxNegativeListed n = (n + 3) div 4"
proof -
  have "f32_of_nat n = of_nat n" using f32_round_dyadic [OF assms, of 0] by (simp add: f32_of_nat_def)
  moreover have "f32_round (of_nat n * (1 / 4)) = of_int (int n) / of_int 4" using f32_round_dyadic [OF assms, of 2] by simp
  ultimately have "maxNegativeListed n = nat \<lceil>of_int (int n) / of_int 4 :: rat\<rceil>"
    by (simp only: maxNegativeListed_def f32_mult_def kNegativeUnlMaxListed_def)
  also have "\<dots> = nat (- (- int n div 4))" by (simp only: ceiling_divide_eq_div)
  also have "\<dots> = (n + 3) div 4" by linarith
  finally show ?thesis .
qed

lemma canAdd_bound:
  assumes "distinct unl" "length unl < 2 ^ 22" "canAdd unl negUnl" "n \<in> set unl"
  shows "card (set unl \<inter> insert n (set negUnl)) \<le> (length unl + 3) div 4"
proof -
  have "card (set unl \<inter> set negUnl) = length (filter (\<lambda>n. n \<in> set negUnl) unl)"
    using distinct_card [OF distinct_filter [OF assms(1)]] by (simp add: Int_def)
  then have "Suc (card (set unl \<inter> set negUnl)) \<le> (length unl + 3) div 4"
    using assms(3) by (simp add: canAdd_def maxNegativeListed_quarter [OF assms(2)])
  moreover have "card (set unl \<inter> insert n (set negUnl)) \<le> Suc (card (set unl \<inter> set negUnl))"
    using assms(4) by (simp add: card_insert_if)
  ultimately show ?thesis by simp
qed

text \<open>
  C21: At most a quarter of the trusted validators, rounded up, is disabled. The validator chosen to be
  disabled is trusted, is not disabled yet, is not new and validated fewer than 128 of the last 256
  ledgers, and with it the negative UNL has at most a quarter of the trusted validators. The validator
  chosen to be enabled is on the negative UNL, and it validated more than 204 of the ledgers or is not
  trusted any more.
\<close>

theorem negative_unl_bounded:
  fixes negUnl :: "node_id list" and nv :: unl_vote
  assumes "distinct unl" "length unl < 2 ^ 22" "map fst t = unl"
  defines "c \<equiv> findAllCandidates unl negUnl t nv"
  shows "(\<forall>n. choose_node h (toDisableCandidates c) = Some n \<longrightarrow>
      n \<in> set unl \<and> n \<notin> set negUnl \<and> hm_find (nv_newValidators nv) n = None \<and> (\<exists>s < 128. hm_find t n = Some s) \<and>
      card (set unl \<inter> insert n (set negUnl)) \<le> (length unl + 3) div 4) \<and>
    (\<forall>n. choose_node h (toReEnableCandidates c) = Some n \<longrightarrow>
      n \<in> set negUnl \<and> (n \<notin> set unl \<or> (\<exists>s > 204. hm_find t n = Some s)))"
proof (intro conjI allI impI)
  have t: "hm_wf t" using assms(1,3) by (simp add: hm_wf_def)
  { fix n assume "choose_node h (toDisableCandidates c) = Some n"
    from choose_min(1) [OF this] obtain s where "(n, s) \<in> set t" "s < 128" "canAdd unl negUnl" "n \<notin> set negUnl"
      "hm_find (nv_newValidators nv) n = None"
      by (auto simp: c_def findAllCandidates_def Let_def unl_consts)
    moreover from this have "n \<in> set unl" "hm_find t n = Some s" using assms(3) hm_set_find [OF t] by force+
    ultimately show "n \<in> set unl" "n \<notin> set negUnl" "hm_find (nv_newValidators nv) n = None" "\<exists>s < 128. hm_find t n = Some s"
      "card (set unl \<inter> insert n (set negUnl)) \<le> (length unl + 3) div 4"
      using canAdd_bound [OF assms(1,2)] by blast+ }
  { fix n assume "choose_node h (toReEnableCandidates c) = Some n"
    from choose_min(1) [OF this]
    show "n \<in> set negUnl" "n \<notin> set unl \<or> (\<exists>s > 204. hm_find t n = Some s)"
      using hm_set_find [OF t] by (force simp: c_def findAllCandidates_def Let_def unl_consts split: if_splits)+ }
qed

theorem negative_unl_bounded_witness:
  "choose_node 5 (toDisableCandidates (findAllCandidates [1, 2, 3, 4, 6] [6] [(1, 200), (2, 10), (3, 20), (4, 250), (6, 0)]
     \<lparr>nv_myId = 4, nv_newValidators = [(3, 1)]\<rparr>)) = Some 2 \<and>
   card (set [1, 2, 3, 4, 6] \<inter> insert (2 :: node_id) (set [6])) \<le> 2"
proof -
  let ?t = "[(1, 200), (2, 10), (3, 20), (4, 250), (6, 0)] :: (node_id, nat) hm"
  let ?nv = "\<lparr>nv_myId = 4, nv_newValidators = [(3, 1)]\<rparr>"
  have c: "choose_node 5 (toDisableCandidates (findAllCandidates [1, 2, 3, 4, 6] [6] ?t ?nv)) = Some 2"
    by (simp add: findAllCandidates_def Let_def canAdd_def maxNegativeListed_quarter unl_consts hm_find_def choose_node_def)
  have "map fst ?t = [1, 2, 3, 4, 6]" by simp
  from negative_unl_bounded [OF _ _ this, where h = 5 and negUnl = "[6]" and nv = ?nv] c
  have "card (set [1, 2, 3, 4, 6] \<inter> insert (2 :: node_id) (set [6])) \<le> (length [1, 2, 3, 4, 6 :: node_id] + 3) div 4" by fastforce
  then show ?thesis using c by simp
qed

section \<open>Scores\<close>

lemma bump_keys: "map fst (bump_score n t) = map fst t"
  by (auto simp: bump_score_def hm_assign_def hm_find_def update_keys map_of_eq_None_iff dest: map_of_SomeD split: option.splits)

lemma bump_find: "hm_find (bump_score n t) m = (if m = n then map_option Suc (hm_find t m) else hm_find t m)"
  by (auto simp: bump_score_def hm_simps hm_find_def hm_assign_def update_conv' split: option.splits)

lemma bump_all:
  "map fst (fold (\<lambda>v. bump_score (f v)) vals t) = map fst t"
  "hm_find (fold (\<lambda>v. bump_score (f v)) vals t) n = map_option (\<lambda>c. c + length (filter (\<lambda>v. f v = n) vals)) (hm_find t n)"
  by (induction vals arbitrary: t) (auto simp: bump_keys bump_find option.map_comp comp_def option.map_ident)

lemma aged_find_touch: "aged_find (aged_touch now k m) k' = aged_find m k'"
proof (cases "map_of m k")
  case (Some e)
  have "map_of (filter (\<lambda>(k', _). k' \<noteq> k) m) k' = (if k' = k then None else map_of m k')"
    by (induction m) auto
  then show ?thesis using Some by (auto simp: aged_find_def aged_touch_def map_add_def split: prod.splits option.splits)
qed (simp add: aged_touch_def)

text \<open>The validations of a ledger that count.\<close>

definition counted :: "('n, 'key, 'l, hash256) validations \<Rightarrow> hash256 \<Rightarrow> nat \<Rightarrow> ('key, hash256) validation list" where
  "counted vs h s = (case aged_find (vs_byLedger vs) h of None \<Rightarrow> [] | Some m \<Rightarrow> filter (\<lambda>v. va_trusted v \<and> va_full v \<and> va_seq v = s) (map snd m))"

lemma getTrusted_counted:
  "snd (getTrustedForLedger A h s vs) = counted vs h s"
  "counted (fst (getTrustedForLedger A h s vs)) h' s' = counted vs h' s'"
  by (simp_all add: getTrustedForLedger_def byLedger_def counted_def aged_find_touch split: option.splits)

definition votes_in ::
  "(('key, hash256) validation \<Rightarrow> node_id) \<Rightarrow> hash256 list \<Rightarrow> 32 word \<Rightarrow> ('n, 'key, 'l, hash256) validations \<Rightarrow> node_id \<Rightarrow> nat \<Rightarrow> nat" where
  "votes_in f hs s vs n i = length (filter (\<lambda>v. f v = n) (counted vs (hs ! (length hs - 1 - i)) (unat (s - 2 - of_nat i))))"

lemma score_loop:
  "map fst (snd (fold (score_step A f s hs) js (vs, t))) = map fst t"
  "hm_find (snd (fold (score_step A f s hs) js (vs, t))) n = map_option (\<lambda>c. c + sum_list (map (votes_in f hs s vs n) js)) (hm_find t n)"
proof -
  have step: "score_step A f s hs i (vs, t) = (fst (getTrustedForLedger A (hs ! (length hs - 1 - i)) (unat (s - 2 - of_nat i)) vs),
      fold (\<lambda>v. bump_score (f v)) (counted vs (hs ! (length hs - 1 - i)) (unat (s - 2 - of_nat i))) t)" for i vs t
    by (simp add: score_step_def case_prod_unfold getTrusted_counted)
  show "map fst (snd (fold (score_step A f s hs) js (vs, t))) = map fst t"
    by (induction js arbitrary: vs t) (simp_all add: step bump_all)
  have frame: "votes_in f hs s (fst (getTrustedForLedger A h q vs)) = votes_in f hs s vs" for h q vs
    by (intro ext) (simp add: votes_in_def getTrusted_counted)
  show "hm_find (snd (fold (score_step A f s hs) js (vs, t))) n =
      map_option (\<lambda>c. c + sum_list (map (votes_in f hs s vs n) js)) (hm_find t n)"
    by (induction js arbitrary: vs t)
      (simp_all add: step bump_all option.map_comp comp_def option.map_ident add.assoc frame votes_in_def [of f hs s _ n])
qed

text \<open>
  A node validated a ledger: the set of the ledger has a trusted full validation of the node with the
  sequence number of the ledger.
\<close>

definition validated :: "(node_id, 'key, 'l, hash256) validations \<Rightarrow> hash256 \<Rightarrow> nat \<Rightarrow> node_id \<Rightarrow> bool" where
  "validated vs h s n \<longleftrightarrow>
     (case aged_find (vs_byLedger vs) h of None \<Rightarrow> False
      | Some m \<Rightarrow> (case hm_find m n of None \<Rightarrow> False | Some v \<Rightarrow> va_trusted v \<and> va_full v \<and> va_seq v = s))"

text \<open>The sets hold a validation under the node that it names, once.\<close>

definition sets_ok :: "(('key, hash256) validation \<Rightarrow> node_id) \<Rightarrow> (node_id, 'key, 'l, hash256) validations \<Rightarrow> bool" where
  "sets_ok f vs \<longleftrightarrow> (\<forall>h m. aged_find (vs_byLedger vs) h = Some m \<longrightarrow> hm_wf m \<and> (\<forall>(n, v) \<in> set m. f v = n))"

lemma count_one:
  "hm_wf m \<Longrightarrow> \<forall>(n, v) \<in> set m. f v = n \<Longrightarrow>
   length (filter (\<lambda>v. f v = n) (filter P (map snd m))) = (case hm_find m n of None \<Rightarrow> 0 | Some v \<Rightarrow> if P v then 1 else 0)"
proof (induction m)
  case (Cons q m)
  obtain k v where q: "q = (k, v)" by (cases q)
  have none: "filter (\<lambda>v. f v = n) (filter P (map snd m)) = []" if "hm_find m n = None"
    using that Cons.prems(2) hm_set_find Cons.prems(1) by (fastforce simp: filter_empty_conv q hm_wf_Cons)
  show ?case using Cons none by (auto simp: q hm_wf_Cons hm_find_Cons split: option.splits)
qed (simp add: hm_find_def)

lemma votes_in_validated:
  assumes "sets_ok f vs"
  shows "votes_in f hs s vs n i = of_bool (validated vs (hs ! (length hs - 1 - i)) (unat (s - 2 - of_nat i)) n)"
proof (cases "aged_find (vs_byLedger vs) (hs ! (length hs - 1 - i))")
  case (Some m)
  then have m: "hm_wf m" "\<forall>(n, v) \<in> set m. f v = n" using assms by (simp_all add: sets_ok_def)
  show ?thesis unfolding votes_in_def counted_def validated_def Some option.case count_one [OF m] by (simp split: option.splits)
qed (simp add: votes_in_def counted_def validated_def)

lemma sum_list_of_bool: "sum_list (map (\<lambda>x. of_bool (P x)) xs) = length (filter P xs)"
  by (induction xs) auto

lemma min_local_vals: "kNegativeUnlMinLocalValsToVote = 230"
  by (simp add: unl_consts)

text \<open>
  C24: The score of a trusted validator is the number of the last 256 ledgers that it validated. There is
  a score table exactly when the ledger knows at least 256 ancestors and the local node is trusted and
  validated more than 230 of the last 256 ledgers; with 230, which the comments call the minimum, and
  with fewer there is no vote. The count never exceeds 256, so that the message about too many
  validations is written only for a count of 230.
\<close>

theorem score_table_counts:
  fixes vs :: "(node_id, 'key, 'l, hash256) validations" and prevLedger :: "'key prev_ledger"
  assumes "sets_ok nodeID vs" "distinct unl"
  defines "s \<equiv> pl_seq prevLedger + 1" and "hs \<equiv> (case pl_hashes prevLedger of Some hs \<Rightarrow> hs | None \<Rightarrow> [])"
  defines "score n \<equiv> length (filter (\<lambda>i. validated vs (hs ! (length hs - 1 - i)) (unat (s - 2 - of_nat i)) n) [0..<kFlagLedgerInterval])"
  shows "snd (buildScoreTable A nodeID prevLedger unl vs nv) =
    (if kFlagLedgerInterval \<le> length hs \<and> nv_myId nv \<in> set unl \<and> 230 < score (nv_myId nv) then Some (map (\<lambda>n. (n, score n)) unl) else None)"
proof (cases "kFlagLedgerInterval \<le> length hs")
  case True
  let ?vs = "setSeqToKeep (unat (s - 1)) (unat (s + of_nat kFlagLedgerInterval)) vs" and ?t = "map (\<lambda>k. (k, 0)) unl"
  define t where "t = snd (fold (score_step A nodeID s hs) [0..<kFlagLedgerInterval] (?vs, ?t))"
  have "sets_ok nodeID ?vs" "validated ?vs = validated vs"
    using assms(1) by (simp_all add: sets_ok_def setSeqToKeep_def validated_def fun_eq_iff)
  then have "votes_in nodeID hs s ?vs n = (\<lambda>i. of_bool (validated vs (hs ! (length hs - 1 - i)) (unat (s - 2 - of_nat i)) n))" for n
    by (intro ext) (simp only: votes_in_validated)
  then have sum: "sum_list (map (votes_in nodeID hs s ?vs n) [0..<kFlagLedgerInterval]) = score n" for n
    by (simp only: score_def sum_list_of_bool)
  have keys: "map fst t = unl" unfolding t_def by (simp add: score_loop comp_def)
  have find: "hm_find t n = (if n \<in> set unl then Some (score n) else None)" for n
    unfolding t_def score_loop(2) sum by (simp add: hm_find_def map_of_map_restrict)
  have t: "t = map (\<lambda>n. (n, score n)) unl"
  proof -
    have "(fst q, score (fst q)) = q" if "q \<in> set t" for q
      using find [of "fst q"] hm_set_find [of t "fst q" "snd q"] that keys assms(2) by (auto simp: hm_wf_def prod_eq_iff split: if_splits)
    then have "map (\<lambda>q. (fst q, score (fst q))) t = t" by (intro map_idI)
    then show ?thesis unfolding keys [symmetric] by (simp add: comp_def)
  qed
  have "score n \<le> kFlagLedgerInterval" for n
    using length_filter_le [of _ "[0..<kFlagLedgerInterval]"] by (simp add: score_def)
  moreover have "pl_hashes prevLedger = Some hs" using True by (simp add: hs_def kFlagLedgerInterval_def split: option.splits)
  ultimately show ?thesis
    using True find t by (simp add: buildScoreTable_def Let_def case_prod_unfold s_def [symmetric] t_def [symmetric] min_local_vals)
qed (simp add: buildScoreTable_def Let_def hs_def split: option.splits)

definition ex_score_val :: "nat \<Rightarrow> (nat, hash256) validation" where
  "ex_score_val s = \<lparr>va_ledgerID = of_nat s, va_seq = s, va_signTime = 0, va_seenTime = 0, va_key = 0, va_trusted = True,
     va_full = True, va_cookie = 0, va_loadFee = None\<rparr>"

text \<open>A node that validated all of the last 256 ledgers, whose hashes are their sequence numbers.\<close>

definition ex_score_vs :: "(node_id, nat, rcl_ledger, hash256) validations" where
  "ex_score_vs = (Validations_new rcl_ops ValidationParms)\<lparr>vs_byLedger := map (\<lambda>s. (of_nat s, 0, [(1, ex_score_val s)])) [0..<kFlagLedgerInterval]\<rparr>"

definition ex_score_prev :: "nat prev_ledger" where
  "ex_score_prev = \<lparr>pl_seq = 256, pl_hash = 5, pl_hashes = Some (map of_nat [0..<kFlagLedgerInterval]), pl_negativeUNL = [],
     pl_validatorToDisable = None, pl_validatorToReEnable = None\<rparr>"

lemma ex_score_find:
  assumes "j < kFlagLedgerInterval"
  shows "aged_find (vs_byLedger ex_score_vs) (of_nat j) = Some [(1, ex_score_val j)]"
proof -
  have inj: "(of_nat a :: hash256) = of_nat b \<longleftrightarrow> a = b" if "a < kFlagLedgerInterval" "b < kFlagLedgerInterval" for a b
    using that by (simp add: kFlagLedgerInterval_def word_of_nat_eq_iff take_bit_nat_eq_self)
  have "map_of (map (\<lambda>s. (of_nat s :: hash256, 0 :: int, [(1 :: node_id, ex_score_val s)])) xs) (of_nat j) = Some (0, [(1, ex_score_val j)])"
    if "j \<in> set xs" "set xs \<subseteq> {..<kFlagLedgerInterval}" for xs
    using that assms by (induction xs) (auto simp: inj)
  from this [of "[0..<kFlagLedgerInterval]"] show ?thesis using assms by (simp add: ex_score_vs_def aged_find_def lessThan_atLeast0)
qed

theorem score_table_counts_witness:
  "snd (buildScoreTable \<lparr>vd_now = 0, vd_clock = 0, vd_acquire = (\<lambda>_. None)\<rparr> (\<lambda>v. 1) ex_score_prev [1] ex_score_vs \<lparr>nv_myId = 1, nv_newValidators = []\<rparr>) = Some [(1, 256)]"
proof -
  have ok: "sets_ok (\<lambda>v. 1) ex_score_vs"
    by (auto simp: sets_ok_def ex_score_vs_def aged_find_def hm_wf_def dest!: map_of_SomeD)
  have "validated ex_score_vs (map of_nat [0..<kFlagLedgerInterval] ! (kFlagLedgerInterval - 1 - i)) (unat ((256 + 1 - 2 - of_nat i) :: 32 word)) 1"
    if "i < kFlagLedgerInterval" for i
  proof -
    have "unat ((255 - of_nat i) :: 32 word) = 255 - i" using that by (simp add: kFlagLedgerInterval_def unat_sub word_le_nat_alt unat_of_nat)
    then show ?thesis using that ex_score_find [of "255 - i"]
      by (simp add: validated_def kFlagLedgerInterval_def hm_find_def ex_score_val_def)
  qed
  then have "filter (\<lambda>i. validated ex_score_vs (map of_nat [0..<kFlagLedgerInterval] ! (kFlagLedgerInterval - 1 - i))
      (unat ((256 + 1 - 2 - of_nat i) :: 32 word)) 1) [0..<kFlagLedgerInterval] = [0..<kFlagLedgerInterval]"
    by (intro filter_True) simp
  then have "length (filter (\<lambda>i. validated ex_score_vs (map of_nat [0..<kFlagLedgerInterval] ! (kFlagLedgerInterval - 1 - i))
      (unat ((256 + 1 - 2 - of_nat i) :: 32 word)) 1) [0..<kFlagLedgerInterval]) = kFlagLedgerInterval" by simp
  then show ?thesis
    using score_table_counts [OF ok, of "[1]" "\<lparr>vd_now = 0, vd_clock = 0, vd_acquire = (\<lambda>_. None)\<rparr>" ex_score_prev "\<lparr>nv_myId = 1, nv_newValidators = []\<rparr>"]
    by (simp add: ex_score_prev_def) (simp add: kFlagLedgerInterval_def)
qed

section \<open>Voting\<close>

lemma emplace_key_find: "hm_find (emplace_key f k m) n = (case hm_find m n of Some k' \<Rightarrow> Some k' | None \<Rightarrow> if f k = n then Some k else None)"
  by (auto simp: emplace_key_def hm_emplace_def hm_find_def map_add_def split: option.splits)

lemma emplace_keys_find:
  "hm_find (fold (emplace_key f) ks m) n = None \<longleftrightarrow> hm_find m n = None \<and> n \<notin> f ` set ks"
  "hm_find (fold (emplace_key f) ks m) n = Some k \<Longrightarrow> hm_find m n = Some k \<or> f k = n \<and> k \<in> set ks"
proof -
  show "hm_find (fold (emplace_key f) ks m) n = None \<longleftrightarrow> hm_find m n = None \<and> n \<notin> f ` set ks"
    by (induction ks arbitrary: m) (auto simp: emplace_key_find split: option.splits)
  show "hm_find (fold (emplace_key f) ks m) n = Some k \<Longrightarrow> hm_find m n = Some k \<or> f k = n \<and> k \<in> set ks"
    by (induction ks arbitrary: m) (fastforce simp: emplace_key_find split: option.splits if_splits)+
qed

lemma vote_tx_spec:
  assumes inv: "shamap_inv TnTransactionNm r" and ok: "\<And>k. uint256_ok (si_key (mkTx modify s k))"
    and found: "\<forall>n. chosen = Some n \<longrightarrow> hm_find m n \<noteq> None"
  shows "\<exists>r'. vote_tx mkTx s m modify chosen r = Some r' \<and> shamap_inv TnTransactionNm r' \<and> set (tree_items r) \<subseteq> set (tree_items r') \<and>
    set (tree_items r') \<subseteq> set (tree_items r) \<union> mkTx modify s ` set_option (Option.bind chosen (hm_find m))"
proof (cases chosen)
  case (Some n)
  then obtain k where k: "hm_find m n = Some k" using found by blast
  from addGiveItem_spec [OF inv ok, of k] show ?thesis using Some k by (auto simp: vote_tx_def addTx_def)
qed (simp add: vote_tx_def inv)

lemma buildScoreTable_keys:
  "buildScoreTable A nodeID prevLedger unl vs nv = (vs', Some t) \<Longrightarrow> map fst t = unl"
  by (auto simp: buildScoreTable_def Let_def case_prod_unfold comp_def score_loop(1) split: option.splits if_splits)

text \<open>
  C23: A vote does not throw and touches the transaction set only by its own transactions. The initial
  set stays a well-formed map that keeps all its items; at most two are added: a transaction that
  disables a trusted validator that is not on the negative UNL, and one that enables a validator of the
  negative UNL, both for the next ledger.
\<close>

theorem doVoting_adds_votes:
  fixes calcNodeID :: "'key \<Rightarrow> node_id" and prevLedger :: "'key prev_ledger"
  assumes inv: "shamap_inv TnTransactionNm r" and ok: "\<And>m q k. uint256_ok (si_key (mkTx m q k))"
  defines "neg \<equiv> calcNodeID ` set (next_negUnlKeys prevLedger)" and "s \<equiv> pl_seq prevLedger + 1"
  shows "\<exists>vs' nv' r'. doVoting A nodeID calcNodeID mkTx prevLedger unlKeys vs nv r = (vs', nv', Some r') \<and>
    shamap_inv TnTransactionNm r' \<and> set (tree_items r) \<subseteq> set (tree_items r') \<and>
    (\<exists>d e. set (tree_items r') \<subseteq> set (tree_items r) \<union> mkTx ToDisable s ` set_option d \<union> mkTx ToReEnable s ` set_option e \<and>
      (\<forall>k. d = Some k \<longrightarrow> k \<in> set unlKeys \<and> calcNodeID k \<notin> neg) \<and> (\<forall>k. e = Some k \<longrightarrow> calcNodeID k \<in> neg))"
proof -
  obtain vs1 st where b: "buildScoreTable A nodeID prevLedger (remdups (map calcNodeID unlKeys)) vs nv = (vs1, st)" by fastforce
  show ?thesis
  proof (cases st)
    case None
    then show ?thesis using b inv by (auto simp: doVoting_def Let_def intro!: exI [of _ None])
  next
    case (Some t)
    let ?unl = "remdups (map calcNodeID unlKeys)" and ?neg = "remdups (map calcNodeID (next_negUnlKeys prevLedger))"
    let ?m = "fold (emplace_key calcNodeID) (next_negUnlKeys prevLedger) (fold (emplace_key calcNodeID) unlKeys [])"
    define c where "c = findAllCandidates ?unl ?neg t (purgeNewValidators s nv)"
    define d where "d = choose_node (pl_hash prevLedger) (toDisableCandidates c)"
    define e where "e = choose_node (pl_hash prevLedger) (toReEnableCandidates c)"
    have t: "fst ` set t = calcNodeID ` set unlKeys" using buildScoreTable_keys [OF b [unfolded Some]] by (metis list.set_map set_remdups)
    have dn: "n \<in> calcNodeID ` set unlKeys \<and> n \<notin> neg" if "d = Some n" for n
      using choose_min(1) [OF that [unfolded d_def]] t by (force simp: c_def findAllCandidates_def Let_def neg_def)
    have en: "n \<in> neg" if "e = Some n" for n
      using choose_min(1) [OF that [unfolded e_def]] by (auto simp: c_def findAllCandidates_def Let_def neg_def split: if_splits)
    have km: "hm_find ?m n \<noteq> None" if "n \<in> calcNodeID ` set unlKeys \<union> neg" for n
      using that by (simp only: emplace_keys_find(1) neg_def) auto
    have mk: "calcNodeID k = n \<and> (k \<in> set unlKeys \<or> n \<in> neg)" if "hm_find ?m n = Some k" for n k
      using emplace_keys_find(2) [OF that] emplace_keys_find(2) [of calcNodeID unlKeys "[]" n k] by (auto simp: neg_def hm_find_def)
    have fd: "\<forall>n. d = Some n \<longrightarrow> hm_find ?m n \<noteq> None" and fe: "\<forall>n. e = Some n \<longrightarrow> hm_find ?m n \<noteq> None"
      using dn en km by simp_all
    obtain r1 where r1: "vote_tx mkTx s ?m ToDisable d r = Some r1" "shamap_inv TnTransactionNm r1" "set (tree_items r) \<subseteq> set (tree_items r1)"
      "set (tree_items r1) \<subseteq> set (tree_items r) \<union> mkTx ToDisable s ` set_option (Option.bind d (hm_find ?m))"
      using vote_tx_spec [where modify = ToDisable and s = s and mkTx = mkTx and chosen = d, OF inv ok fd] by (elim exE conjE) (rule that)
    obtain r2 where r2: "vote_tx mkTx s ?m ToReEnable e r1 = Some r2" "shamap_inv TnTransactionNm r2" "set (tree_items r1) \<subseteq> set (tree_items r2)"
      "set (tree_items r2) \<subseteq> set (tree_items r1) \<union> mkTx ToReEnable s ` set_option (Option.bind e (hm_find ?m))"
      using vote_tx_spec [where modify = ToReEnable and s = s and mkTx = mkTx and chosen = e, OF r1(2) ok fe] by (elim exE conjE) (rule that)
    have run: "doVoting A nodeID calcNodeID mkTx prevLedger unlKeys vs nv r = (vs1, purgeNewValidators s nv, Some r2)"
      using b Some r1(1) r2(1) by (simp add: doVoting_def Let_def d_def e_def c_def s_def)
    let ?d = "Option.bind d (hm_find ?m)" and ?e = "Option.bind e (hm_find ?m)"
    have "set (tree_items r2) \<subseteq> set (tree_items r) \<union> mkTx ToDisable s ` set_option ?d \<union> mkTx ToReEnable s ` set_option ?e"
      using r1(4) r2(4) by blast
    moreover have "\<forall>k. ?d = Some k \<longrightarrow> k \<in> set unlKeys \<and> calcNodeID k \<notin> neg" "\<forall>k. ?e = Some k \<longrightarrow> calcNodeID k \<in> neg"
      unfolding bind_eq_Some_conv using dn en mk by metis+
    ultimately show ?thesis using run r2(2) r1(3) r2(3) by blast
  qed
qed

definition ex_vote_tx :: "NegativeUNLModify \<Rightarrow> 32 word \<Rightarrow> nat \<Rightarrow> shamap_item" where
  "ex_vote_tx m s k = \<lparr>si_key = replicate 32 (of_nat k), si_data = [if m = ToDisable then 1 else 0]\<rparr>"

theorem doVoting_adds_votes_witness:
  "\<exists>vs' nv' r'. doVoting \<lparr>vd_now = 0, vd_clock = 0, vd_acquire = (\<lambda>_. None)\<rparr> (\<lambda>v. 1) of_nat ex_vote_tx ex_score_prev [1, 2] ex_score_vs
      \<lparr>nv_myId = 1, nv_newValidators = []\<rparr> SHAMap_new = (vs', nv', Some r') \<and> shamap_inv TnTransactionNm r'"
proof -
  have "uint256_ok (si_key (ex_vote_tx m q k))" for m q k by (simp add: ex_vote_tx_def)
  from doVoting_adds_votes [where mkTx = ex_vote_tx, OF SHAMap_new_inv(1) this, of "\<lparr>vd_now = 0, vd_clock = 0, vd_acquire = (\<lambda>_. None)\<rparr>"
      "\<lambda>v. 1" of_nat ex_score_prev "[1, 2]" ex_score_vs "\<lparr>nv_myId = 1, nv_newValidators = []\<rparr>"]
  show ?thesis by (elim exE conjE) (intro exI conjI; assumption)
qed

end
