(* ===== verification/SHAMapProof.thy ===== *)
theory SHAMapProof
  imports SHAMap_Hash
begin

text \<open>
  Proofs of membership, the end of \<^verbatim>\<open>SHAMapSync.cpp\<close>: \<open>getProofPath\<close> gives the encodings of the nodes
  from the leaf of a key up to the root, and \<open>verifyProofPath\<close> checks such a path, which may come from
  the network, against a root hash.
\<close>

section \<open>The definitions\<close>

definition isLeafDepth :: "nat \<Rightarrow> bool" where
  "isLeafDepth depth \<longleftrightarrow> depth \<ge> kLeafDepth"

definition getProofPath :: "digest \<Rightarrow> tree \<Rightarrow> uint256 \<Rightarrow> byte list list option option" where
  "getProofPath sha root key = do {
     (_, stack) \<leftarrow> walkTowardsKey root key;
     Some (case stack of
             [] \<Rightarrow> None
           | (node, _) # _ \<Rightarrow>
               if leaf_key node \<noteq> Some key then None
               else Some (map (\<lambda>(n, _). serializeForWire (flatten sha n)) stack))
   }"

text \<open>The loop from the root to the leaf; an exception of the parser is the answer no.\<close>

fun verify_loop :: "digest \<Rightarrow> uint256 \<Rightarrow> nat \<Rightarrow> nat \<Rightarrow> uint256 \<Rightarrow> byte list list \<Rightarrow> bool" where
  "verify_loop sha key n depth h [] = False"
| "verify_loop sha key n depth h (blob # rest) =
     (case makeFromWire sha blob of
        PNull \<Rightarrow> False
      | PThrow \<Rightarrow> False
      | PNode node \<Rightarrow>
          if node_updateHash sha node \<noteq> h then False
          else (case node of
                  FInner m \<Rightarrow>
                    if isLeafDepth depth then False
                    else let nodeId = createID depth key
                         in verify_loop sha key n (Suc depth) (getChildHash m (selectBranch nodeId key)) rest
                | FLeaf t i \<Rightarrow> if si_key i \<noteq> key then False else depth + 1 = n))"

definition verifyProofPath :: "digest \<Rightarrow> uint256 \<Rightarrow> uint256 \<Rightarrow> byte list list \<Rightarrow> bool" where
  "verifyProofPath sha rootHash key path =
     (if path = [] \<or> length path > kLeafDepth + 1 then False
      else verify_loop sha key (length path) 0 rootHash (rev path))"

section \<open>Completeness\<close>

definition nonzero :: "digest \<Rightarrow> tree \<Rightarrow> bool" where
  "nonzero sha t \<longleftrightarrow> list_all (\<lambda>x. sha x \<noteq> zero256) (preimages sha t)"

lemma nonzero_child: "nonzero sha (SInner cs) \<Longrightarrow> child cs b = Some c \<Longrightarrow> nonzero sha c"
  using preimages_child [of cs b c sha] by (auto simp: nonzero_def list_all_iff)

lemma flatten_updateHash: "node_updateHash sha (flatten sha t) = tree_hash sha t"
  by (cases t) auto

lemma flatten_child:
  assumes "length cs = 16" "b < 16"
  shows "getChildHash (inner_of (map (map_option (tree_hash sha)) cs)) b = (case child cs b of None \<Rightarrow> zero256 | Some c \<Rightarrow> tree_hash sha c)"
  using assms by (auto simp: getChildHash_def isEmptyBranch_def inner_of_simps child_def split: option.splits)

text \<open>The path of a key below a node, root first.\<close>

fun proof_nodes :: "uint256 \<Rightarrow> nat \<Rightarrow> tree \<Rightarrow> tree list" where
  "proof_nodes k d (SLeaf t i) = [SLeaf t i]"
| "proof_nodes k d (SInner cs) = SInner cs # (case child cs (nibble k d) of None \<Rightarrow> [] | Some c \<Rightarrow> proof_nodes k (Suc d) c)"

lemma stack_proof_nodes: "rev (map fst ((terminal k d t, x) # stack_of k d (spine k d t))) = proof_nodes k d t"
proof (induction t arbitrary: d)
  case (SInner cs)
  show ?case
  proof (cases "child cs (nibble k d)")
    case (Some c)
    then show ?thesis using SInner.IH [OF child_mem [OF Some], of c "Suc d"] by simp
  qed simp
qed simp

lemma proof_nodes_depth:
  "tree_wf ty P t \<Longrightarrow> length P = d \<Longrightarrow> d + length (proof_nodes k d t) \<le> 65"
proof (induction t arbitrary: P d)
  case (SInner cs)
  show ?case
  proof (cases "child cs (nibble k d)")
    case (Some c)
    then show ?thesis
      using SInner.IH [OF child_mem [OF Some], of c "P @ [nibble k d]" "Suc d"] tree_wf_child [OF SInner.prems(1) Some] SInner.prems(2) by simp
  qed (use SInner.prems in \<open>simp add: tree_wf_Inner\<close>)
qed simp

lemma verify_complete:
  assumes sha: "\<And>x. uint256_ok (sha x)" and i: "i \<in> set (tree_items t)" and k: "si_key i = k"
  shows "tree_wf ty P t \<Longrightarrow> length P = d \<Longrightarrow> items_ok sha ty t \<Longrightarrow> nonzero sha t \<Longrightarrow> n = d + length (proof_nodes k d t) \<Longrightarrow>
    verify_loop sha k n d (tree_hash sha t) (map (\<lambda>n. serializeForWire (flatten sha n)) (proof_nodes k d t))"
  using i
proof (induction t arbitrary: P d)
  case (SLeaf t j)
  have "flat_ok sha (flatten sha (SLeaf t j))" using SLeaf.prems by (simp add: items_ok_def)
  then show ?case using SLeaf.prems k leaf_roundtrip(1) [of sha t j] flatten_updateHash [of sha "SLeaf t j"] by simp
next
  case (SInner cs)
  obtain c where c: "child cs (nibble k d) = Some c" "i \<in> set (tree_items c)"
    using SInner.prems(1,2,6) k by (auto simp: item_in_branch)
  note w = tree_wf_child [OF SInner.prems(1) c(1)]
  have d: "d < 64" "length cs = 16" using SInner.prems(1,2) by (simp_all add: tree_wf_Inner)
  have "flat_ok sha (flatten sha (SInner cs))"
    by (rule flatten_ok [OF SInner.prems(1) _ SInner.prems(3) sha]) (use SInner.prems(4,6) in \<open>auto simp: nonzero_def list_all_iff\<close>)
  then have parse: "makeFromWire sha (serializeForWire (flatten sha (SInner cs))) = PNode (flatten sha (SInner cs))" by (rule node_roundtrip)
  have "verify_loop sha k n (Suc d) (tree_hash sha c) (map (\<lambda>n. serializeForWire (flatten sha n)) (proof_nodes k (Suc d) c))"
    by (rule SInner.IH [OF child_mem [OF c(1)] _ w [THEN conjunct1]])
      (use SInner.prems c items_ok_child nonzero_child in auto)
  moreover have "selectBranch (createID d k) k = nibble k d" using d by (simp add: selectBranch_nibble createID_simps)
  ultimately show ?case
    using parse c(1) d flatten_child [OF d(2), of "nibble k d" sha] w flatten_updateHash [of sha "SInner cs"]
    by (simp add: isLeafDepth_def kLeafDepth_def)
qed

lemma getProofPath_spec:
  assumes inv: "shamap_inv ty root" and k: "uint256_ok k"
  shows "getProofPath sha root k = Some (if k \<in> tree_keys root
    then Some (rev (map (\<lambda>n. serializeForWire (flatten sha n)) (proof_nodes k 0 root))) else None)"
proof -
  have wf: "tree_wf ty [] root" using inv by (simp add: shamap_inv_def)
  let ?st = "(terminal k 0 root, createID (length (spine k 0 root)) k) # stack_of k 0 (spine k 0 root)"
  have "leaf_key (terminal k 0 root) = Some k \<longleftrightarrow> k \<in> tree_keys root"
    using terminal_key [OF wf, of 0 k] terminal_wf [OF k wf, of 0] by (cases "terminal k 0 root") (auto simp: leaf_key_def)
  moreover have "map (\<lambda>(n, _). serializeForWire (flatten sha n)) ?st = rev (map (\<lambda>n. serializeForWire (flatten sha n)) (proof_nodes k 0 root))"
    unfolding stack_proof_nodes [of k 0 root "createID (length (spine k 0 root)) k", symmetric] by (simp add: rev_map case_prod_unfold)
  ultimately show ?thesis by (simp add: getProofPath_def walkTowardsKey_spec [OF inv k])
qed

section \<open>Soundness\<close>

text \<open>Whatever the parser accepts as an inner node has 16 child hashes of 32 bytes.\<close>

definition inner_shape :: "inner_node \<Rightarrow> bool" where
  "inner_shape n \<longleftrightarrow> length (in_hashes n) = 16 \<and> list_all uint256_ok (in_hashes n)"

lemma inner_set_shape: "inner_shape n \<Longrightarrow> uint256_ok h \<Longrightarrow> inner_shape (inner_set i h n)"
  by (auto simp: inner_shape_def inner_set_def list_all_iff dest!: set_update_subset_insert [THEN subsetD])

lemma inner_empty_shape: "inner_shape inner_empty"
  by (simp add: inner_shape_def inner_empty_def list_all_iff)

lemma fold_set_shape: "(\<And>i. i \<in> set js \<Longrightarrow> uint256_ok (f i)) \<Longrightarrow> inner_shape n \<Longrightarrow> inner_shape (fold (\<lambda>i. inner_set i (f i)) js n)"
  by (induction js arbitrary: n) (auto simp: inner_set_shape)

lemma compressed_loop_shape:
  "length d mod 33 = 0 \<Longrightarrow> inner_shape n \<Longrightarrow> compressed_loop d n = Some n' \<Longrightarrow> inner_shape n'"
proof (induction d n rule: compressed_loop.induct)
  case (1 d n)
  show ?case
  proof (cases "d = []")
    case True
    then show ?thesis using 1 by (simp add: compressed_loop.simps [of "[]"])
  next
    case False
    then have "33 \<le> length d" using 1(2) by (metis mod_less length_0_conv not_less)
    moreover from this have "(length d - 33) mod 33 = 0" using 1(2) by (simp add: le_mod_geq [symmetric])
    ultimately show ?thesis
      using 1(1) [OF False refl refl] 1(3,4) False inner_set_shape [of n "take 32 d" "unat (d ! 32)"]
      by (subst (asm) compressed_loop.simps) (auto simp: Let_def split: if_splits)
  qed
qed

lemma makeFromWire_shape:
  assumes "makeFromWire sha raw = PNode (FInner m)"
  shows "inner_shape m"
proof -
  have "makeFullInner d = Some m \<Longrightarrow> inner_shape m" for d
    using fold_set_shape [of "[0..<16]" "\<lambda>i. take 32 (drop (32 * i) d)" inner_empty] inner_empty_shape
    by (auto simp: makeFullInner_def kBranchFactor_def split: if_splits)
  moreover have "makeCompressedInner d = Some m \<Longrightarrow> inner_shape m" for d
    using compressed_loop_shape [of d inner_empty m, OF _ inner_empty_shape] by (simp add: makeCompressedInner_def split: if_splits)
  ultimately show ?thesis
    using assms by (auto simp: makeFromWire_def parse_or_throw_def Let_def makeTransaction_def makeTransactionWithMeta_def
        makeAccountState_def split: if_splits option.splits)
qed

lemma getChildHash_shape: "inner_shape n \<Longrightarrow> i < 16 \<Longrightarrow> uint256_ok (getChildHash n i)"
  by (auto simp: inner_shape_def getChildHash_def list_all_iff)

lemma concat_blocks_inj:
  "list_all (\<lambda>x. length x = 32) xs \<Longrightarrow> list_all (\<lambda>x. length x = 32) ys \<Longrightarrow> length xs = length ys \<Longrightarrow> concat xs = concat ys \<Longrightarrow> xs = ys"
proof (induction xs arbitrary: ys)
  case (Cons x xs)
  obtain y ys' where "ys = y # ys'" using Cons.prems(3) by (cases ys) auto
  then show ?case using Cons.IH [of ys'] Cons.prems by simp
qed simp

lemma iterChildren_inj:
  assumes "inner_shape n" "inner_shape m" "iterChildren n = iterChildren m" "i < 16"
  shows "getChildHash n i = getChildHash m i"
proof -
  have l: "list_all (\<lambda>x. length x = 32) (map (getChildHash m) [0..<16])" if "inner_shape m" for m
    using getChildHash_shape [OF that] by (simp only: list_all_iff set_map set_upt) auto
  have "map (getChildHash n) [0..<16] = map (getChildHash m) [0..<16]"
    by (rule concat_blocks_inj [OF l [OF assms(1)] l [OF assms(2)]])
      (use assms(3) in \<open>simp_all only: iterChildren_def kBranchFactor_def length_map\<close>)
  from arg_cong [OF this, of "\<lambda>l. l ! i"] show ?thesis using assms(4) by (simp only: nth_map_upt diff_zero add_0)
qed

lemma flatten_shape:
  assumes "\<And>x. uint256_ok (sha x)" "length cs = 16"
  shows "inner_shape (inner_of (map (map_option (tree_hash sha)) cs))"
  using assms tree_hash_ok [OF assms(1)] by (auto simp: inner_shape_def inner_of_simps list_all_iff split: option.splits)

text \<open>The encodings that are hashed while a path is checked.\<close>

definition path_preimages :: "digest \<Rightarrow> byte list list \<Rightarrow> byte list list" where
  "path_preimages sha path = map (\<lambda>b. case makeFromWire sha b of PNode n \<Rightarrow> serializeWithPrefix n | _ \<Rightarrow> []) path"

lemma inner_hash_cases: "inner_updateHash sha m = zero256 \<and> in_isBranch m = 0 \<or> inner_updateHash sha m = sha (serializeWithPrefix (FInner m))"
  by (simp add: inner_updateHash_def inner_serializeWithPrefix_def)

lemma leaf_hash: "leaf_updateHash sha t i = sha (serializeWithPrefix (FLeaf t i))"
  by (cases t) simp_all

lemma prefix_differs: "serializeWithPrefix (FLeaf t i) \<noteq> serializeWithPrefix (FInner m)"
  by (cases t) (simp_all add: inner_serializeWithPrefix_def prefix_defs)

lemma verify_zero:
  "(\<And>x. x \<in> set (path_preimages sha blobs) \<Longrightarrow> sha x \<noteq> zero256) \<Longrightarrow> \<not> verify_loop sha k n d zero256 blobs"
proof (induction blobs arbitrary: d)
  case (Cons b bs)
  have IH: "\<not> verify_loop sha k n d' zero256 bs" for d' using Cons by (simp add: path_preimages_def)
  have hash: "node_updateHash sha node \<noteq> zero256 \<or> (\<exists>m. node = FInner m \<and> in_isBranch m = 0)" if "makeFromWire sha b = PNode node" for node
  proof (cases node)
    case (FInner m)
    then show ?thesis using Cons.prems [of "serializeWithPrefix node"] that inner_hash_cases [of sha m] by (auto simp: path_preimages_def)
  next
    case (FLeaf t i)
    then show ?thesis using Cons.prems [of "serializeWithPrefix node"] that leaf_hash [of sha t i] by (simp add: path_preimages_def)
  qed
  show ?case
  proof
    assume v: "verify_loop sha k n d zero256 (b # bs)"
    then obtain node where node: "makeFromWire sha b = PNode node" "node_updateHash sha node = zero256"
      by (auto split: parsed.splits if_splits)
    then obtain m where m: "node = FInner m" "in_isBranch m = 0" using hash by blast
    then have "getChildHash m i = zero256" for i by (simp add: getChildHash_def isEmptyBranch_def)
    then have "verify_loop sha k n (Suc d) zero256 bs" using v node m by (simp add: Let_def split: if_splits)
    then show False using IH by simp
  qed
qed simp

lemma verify_sound:
  assumes sha: "\<And>x. uint256_ok (sha x)" and k: "uint256_ok k"
  shows "tree_wf ty P t \<Longrightarrow> length P = d \<Longrightarrow> tree_items t \<noteq> [] \<Longrightarrow> items_ok sha ty t \<Longrightarrow> nonzero sha t \<Longrightarrow>
    \<not> collision sha (preimages sha t) (path_preimages sha blobs) \<Longrightarrow>
    (\<And>x. x \<in> set (path_preimages sha blobs) \<Longrightarrow> sha x \<noteq> zero256) \<Longrightarrow>
    verify_loop sha k (d + length blobs) d (tree_hash sha t) blobs \<Longrightarrow>
    \<exists>i. i \<in> set (tree_items t) \<and> si_key i = k \<and> makeFromWire sha (last blobs) = PNode (FLeaf ty i)"
proof (induction blobs arbitrary: t P d)
  case (Cons b bs)
  obtain node where node: "makeFromWire sha b = PNode node" "node_updateHash sha node = tree_hash sha t"
    using Cons.prems(8) by (auto split: parsed.splits if_splits)
  let ?x = "serializeWithPrefix (flatten sha t)"
  have t: "tree_hash sha t = sha ?x" "?x \<in> set (preimages sha t)" "tree_hash sha t \<noteq> zero256"
    using tree_hash_sha [OF Cons.prems(1,3), of sha] Cons.prems(5) by (auto simp: nonzero_def list_all_iff)
  have nodex: "node_updateHash sha node = sha (serializeWithPrefix node)"
  proof (cases node)
    case (FInner m)
    then show ?thesis using node t(3) inner_hash_cases [of sha m] by auto
  qed (simp add: leaf_hash)
  have eq: "serializeWithPrefix node = ?x"
    using Cons.prems(6) node t nodex by (fastforce simp: collision_def list_ex_iff path_preimages_def)
  show ?case
  proof (cases node)
    case (FLeaf t' i)
    have "flat_ok sha node" using makeFromWire_leaf_ok [of sha, OF sha, of b t' i] node(1) FLeaf by blast
    moreover have "flat_ok sha (flatten sha t)"
      by (rule flatten_ok [OF Cons.prems(1,3,4) sha]) (use Cons.prems(5) in \<open>auto simp: nonzero_def list_all_iff\<close>)
    ultimately have "flatten sha t = FLeaf t' i" using serializeWithPrefix_inj eq FLeaf by metis
    then have "t = SLeaf t' i" by (cases t) auto
    moreover have "si_key i = k \<and> bs = []" using Cons.prems(8) node FLeaf by (auto split: if_splits)
    ultimately show ?thesis using Cons.prems(1) node FLeaf by auto
  next
    case (FInner m)
    then obtain cs where cs: "t = SInner cs" using eq prefix_differs by (cases t) (blast, metis flatten.simps(1))
    have l: "length cs = 16" "d < 64" using Cons.prems(1,2) cs by (simp_all add: tree_wf_Inner)
    have sel: "selectBranch (createID d k) k = nibble k d" using l by (simp add: selectBranch_nibble createID_simps)
    have b: "nibble k d < 16" by (rule nibble_less)
    have "getChildHash m (nibble k d) = getChildHash (inner_of (map (map_option (tree_hash sha)) cs)) (nibble k d)"
      by (rule iterChildren_inj [OF makeFromWire_shape flatten_shape [OF sha l(1)] _ b])
        (use node FInner eq cs in \<open>simp_all add: inner_serializeWithPrefix_def\<close>)
    then have h: "getChildHash m (nibble k d) = (case child cs (nibble k d) of None \<Rightarrow> zero256 | Some c \<Rightarrow> tree_hash sha c)"
      by (simp add: flatten_child [OF l(1) b])
    have v: "verify_loop sha k (Suc d + length bs) (Suc d) (getChildHash m (nibble k d)) bs"
      using Cons.prems(8) node FInner sel by (simp add: Let_def split: if_splits)
    have nz: "\<And>x. x \<in> set (path_preimages sha bs) \<Longrightarrow> sha x \<noteq> zero256" using Cons.prems(7) by (simp add: path_preimages_def)
    obtain c where c: "child cs (nibble k d) = Some c" using v h verify_zero [OF nz] by (cases "child cs (nibble k d)") auto
    note w = tree_wf_child [OF Cons.prems(1) [unfolded cs] c]
    have col: "\<not> collision sha (preimages sha c) (path_preimages sha bs)"
      using Cons.prems(6) collision_mono [where sha = sha and ys = "path_preimages sha bs" and ys' = "path_preimages sha (b # bs)",
          OF _ preimages_child [OF c]] cs by (auto simp: path_preimages_def)
    have "verify_loop sha k (Suc d + length bs) (Suc d) (tree_hash sha c) bs" using v h c by simp
    then obtain i where i: "i \<in> set (tree_items c)" "si_key i = k" "makeFromWire sha (last bs) = PNode (FLeaf ty i)"
      using Cons.IH [OF w [THEN conjunct1], of "Suc d"] Cons.prems(2,4,5) items_ok_child nonzero_child c cs w compact_items col nz by auto
    moreover have "bs \<noteq> []" using \<open>verify_loop sha k (Suc d + length bs) (Suc d) (tree_hash sha c) bs\<close> by auto
    ultimately show ?thesis using c cs by (auto simp: item_in_Inner)
  qed
qed simp

section \<open>Properties\<close>

text \<open>
  C27: a proof exists for every item and is accepted. For a map of well-formed items on whose nodes the
  digest is not zero, \<^verbatim>\<open>getProofPath\<close> returns a path exactly for the keys of the map, and
  \<^verbatim>\<open>verifyProofPath\<close> accepts it for the map's root hash and that key.
\<close>

theorem proof_path_complete:
  assumes sha: "\<And>x. uint256_ok (sha x)" and inv: "shamap_inv ty root" and ok: "items_ok sha ty root" "nonzero sha root"
    and k: "uint256_ok key"
  shows "if key \<in> tree_keys root
    then \<exists>path. getProofPath sha root key = Some (Some path) \<and> verifyProofPath sha (getHash sha root) key path
    else getProofPath sha root key = Some None"
proof (cases "key \<in> tree_keys root")
  case True
  then obtain i where i: "i \<in> set (tree_items root)" "si_key i = key" by (auto simp: tree_keys_def)
  have wf: "tree_wf ty [] root" using inv by (simp add: shamap_inv_def)
  let ?path = "rev (map (\<lambda>n. serializeForWire (flatten sha n)) (proof_nodes key 0 root))"
  have "proof_nodes key 0 root \<noteq> []" by (cases root) simp_all
  then have "verifyProofPath sha (getHash sha root) key ?path"
    using verify_complete [OF sha i wf _ ok, of 0] proof_nodes_depth [OF wf, of 0 key]
    by (simp add: verifyProofPath_def getHash_def kLeafDepth_def)
  then show ?thesis using True getProofPath_spec [OF inv k, of sha] by simp
next
  case False
  then show ?thesis using getProofPath_spec [OF inv k, of sha] by simp
qed

theorem proof_path_complete_witness:
  "\<exists>path. getProofPath ex_sha (ex_map [1, 0x11]) (replicate 32 0x11) = Some (Some path) \<and>
     verifyProofPath ex_sha (getHash ex_sha (ex_map [1, 0x11])) (replicate 32 0x11) path"
proof -
  have "nonzero ex_sha (ex_map [1, 0x11])" using ex_map_facts(6) by (simp add: nonzero_def)
  moreover have "si_key (ex_item 0x11) \<in> tree_keys (ex_map [1, 0x11])" by code_simp
  then have "replicate 32 0x11 \<in> tree_keys (ex_map [1, 0x11])" by (simp only: ex_item_def shamap_item.simps)
  moreover have "\<And>x. uint256_ok (ex_sha x)" by (simp add: ex_sha_def)
  ultimately show ?thesis using proof_path_complete [OF _ ex_map_facts(2,4), of "replicate 32 0x11"] by simp
qed

text \<open>
  C8: an accepted proof is a proof of membership. If \<^verbatim>\<open>verifyProofPath\<close> accepts any path at all, from
  whatever source, for the root hash of a map and a key, then the map holds an item with that key, and
  it is the item of the leaf in the path, except when the digest collides between an encoding hashed
  for the path and one of a node of the map, or is zero on one of them.
\<close>

theorem proof_path_sound:
  assumes sha: "\<And>x. uint256_ok (sha x)" and inv: "shamap_inv ty root" and ok: "items_ok sha ty root" "nonzero sha root"
    and k: "uint256_ok key" and v: "verifyProofPath sha (getHash sha root) key path"
    and col: "\<not> collision sha (preimages sha root) (path_preimages sha path)"
    and nz: "list_all (\<lambda>x. sha x \<noteq> zero256) (path_preimages sha path)"
  shows "\<exists>item. item \<in> set (tree_items root) \<and> si_key item = key \<and> makeFromWire sha (hd path) = PNode (FLeaf ty item)"
proof -
  have wf: "tree_wf ty [] root" using inv by (simp add: shamap_inv_def)
  have path: "path \<noteq> []" "verify_loop sha key (length path) 0 (getHash sha root) (rev path)"
    using v by (auto simp: verifyProofPath_def split: if_splits)
  have rev: "set (path_preimages sha (rev path)) = set (path_preimages sha path)" by (simp add: path_preimages_def)
  have nz': "x \<in> set (path_preimages sha (rev path)) \<Longrightarrow> sha x \<noteq> zero256" for x using nz by (simp add: rev list_all_iff)
  have "tree_items root \<noteq> []" using path(2) verify_zero [OF nz'] getHash_empty(1) [OF inv, of sha] by auto
  moreover have "\<not> collision sha (preimages sha root) (path_preimages sha (rev path))"
    using col by (simp add: collision_def list_ex_iff rev)
  ultimately show ?thesis
    using verify_sound [of sha key, OF sha k wf, of 0 "rev path"] ok nz' path by (simp add: getHash_def last_rev)
qed

theorem proof_path_sound_witness:
  "\<exists>item. item \<in> set (tree_items (ex_map [1, 0x11])) \<and> si_key item = replicate 32 0x11"
proof -
  let ?root = "ex_map [1, 0x11]" and ?k = "si_key (ex_item 0x11)" and ?path = "the (the (getProofPath ex_sha (ex_map [1, 0x11]) (si_key (ex_item 0x11))))"
  have f: "verifyProofPath ex_sha (getHash ex_sha ?root) ?k ?path"
    "\<not> collision ex_sha (preimages ex_sha ?root) (path_preimages ex_sha ?path)"
    "list_all (\<lambda>x. ex_sha x \<noteq> zero256) (path_preimages ex_sha ?path)" by code_simp+
  have "nonzero ex_sha ?root" "uint256_ok ?k" "\<And>x. uint256_ok (ex_sha x)"
    using ex_map_facts(6) by (simp_all add: nonzero_def ex_item_def ex_sha_def)
  from proof_path_sound [OF this(3) ex_map_facts(2,4) this(1,2) f] show ?thesis by (auto simp: ex_item_def)
qed

end
