(* ===== verification/SHAMapSync.thy ===== *)
theory SHAMapSync
  imports SHAMapProof
begin

text \<open>
  Synchronising a SHAMap from its root hash, \<^verbatim>\<open>SHAMapSync.cpp\<close>, \<^verbatim>\<open>SHAMapAddNode.h\<close> and the states of
  \<^verbatim>\<open>SHAMap.h\<close>, for a map without a backing store (\<^verbatim>\<open>setUnbacked\<close>), the kind that consensus uses for
  the transaction sets it acquires. A node in memory is its stored hash, the branches and hashes it
  names, and the children that are hooked up; a branch may be named and not hooked. Without a backing
  store no read is deferred, so the walk of \<^verbatim>\<open>getMissingNodes\<close> is a recursion over the levels; its
  explicit stack holds the nodes the recursion is inside of. What lies outside is the environment of a
  call: the digest, the full-below cache and its generation, the cache of tree nodes, the two lookups
  of the sync filter, and the random starting branch. \<open>None\<close> is an exception.
\<close>

section \<open>Results of adding nodes\<close>

record SHAMapAddNode =
  an_good :: int
  an_bad :: int
  an_duplicate :: int

definition SHAMapAddNode_new :: SHAMapAddNode where
  "SHAMapAddNode_new = \<lparr>an_good = 0, an_bad = 0, an_duplicate = 0\<rparr>"

definition an_dup :: SHAMapAddNode where
  "an_dup = \<lparr>an_good = 0, an_bad = 0, an_duplicate = 1\<rparr>"

definition an_useful :: SHAMapAddNode where
  "an_useful = \<lparr>an_good = 1, an_bad = 0, an_duplicate = 0\<rparr>"

definition an_invalid :: SHAMapAddNode where
  "an_invalid = \<lparr>an_good = 0, an_bad = 1, an_duplicate = 0\<rparr>"

definition isGood :: "SHAMapAddNode \<Rightarrow> bool" where
  "isGood r \<longleftrightarrow> an_good r + an_duplicate r > an_bad r"

definition isInvalid :: "SHAMapAddNode \<Rightarrow> bool" where
  "isInvalid r \<longleftrightarrow> an_bad r > 0"

definition isUseful :: "SHAMapAddNode \<Rightarrow> bool" where
  "isUseful r \<longleftrightarrow> an_good r > 0"

section \<open>Nodes in memory\<close>

datatype mem_node =
    MInner uint256 inner_node "mem_node option list" "32 word"
  | MLeaf uint256 SHAMapNodeType shamap_item

fun mem_hash :: "mem_node \<Rightarrow> uint256" where
  "mem_hash (MInner h n cs g) = h"
| "mem_hash (MLeaf h t i) = h"

fun mem_isInner :: "mem_node \<Rightarrow> bool" where
  "mem_isInner (MInner h n cs g) = True"
| "mem_isInner (MLeaf h t i) = False"

fun mem_flat :: "mem_node \<Rightarrow> flat_node" where
  "mem_flat (MInner h n cs g) = FInner n"
| "mem_flat (MLeaf h t i) = FLeaf t i"

fun isFullBelow :: "32 word \<Rightarrow> mem_node \<Rightarrow> bool" where
  "isFullBelow generation (MInner h n cs g) \<longleftrightarrow> g = generation"
| "isFullBelow generation (MLeaf h t i) \<longleftrightarrow> False"

text \<open>A node fresh from a parser: no child is hooked, and it is in no generation.\<close>

fun mem_new :: "uint256 \<Rightarrow> flat_node \<Rightarrow> mem_node" where
  "mem_new h (FInner n) = MInner h n (replicate 16 None) 0"
| "mem_new h (FLeaf t i) = MLeaf h t i"

section \<open>The state of the map\<close>

datatype SHAMapState = StModifying | StImmutable | StSynching | StInvalid

record sync_map =
  sm_root :: mem_node
  sm_state :: SHAMapState

definition SHAMap_new_sync :: sync_map where
  "SHAMap_new_sync = \<lparr>sm_root = mem_new zero256 (FInner inner_empty), sm_state = StSynching\<rparr>"

definition trySetState :: "SHAMapState \<Rightarrow> sync_map \<Rightarrow> bool \<times> sync_map" where
  "trySetState desired m =
     (if desired = StInvalid then (True, m\<lparr>sm_state := StInvalid\<rparr>)
      else if sm_state m \<noteq> StInvalid then (True, m\<lparr>sm_state := desired\<rparr>)
      else (False, m))"

definition isValid :: "sync_map \<Rightarrow> bool" where
  "isValid m \<longleftrightarrow> sm_state m \<noteq> StInvalid"

definition isSynching :: "sync_map \<Rightarrow> bool" where
  "isSynching m \<longleftrightarrow> sm_state m = StSynching"

definition setImmutable :: "sync_map \<Rightarrow> bool \<times> sync_map" where
  "setImmutable m = trySetState StImmutable m"

definition setInvalid :: "sync_map \<Rightarrow> sync_map" where
  "setInvalid m = snd (trySetState StInvalid m)"

definition clearSynching :: "sync_map \<Rightarrow> sync_map" where
  "clearSynching m = (if sm_state m = StSynching then m\<lparr>sm_state := StModifying\<rparr> else m)"

section \<open>Finding a node\<close>

record sync_env =
  se_sha :: digest
  se_generation :: "32 word"
  se_touchIfExists :: "uint256 \<Rightarrow> bool"
  se_cacheLookup :: "uint256 \<Rightarrow> mem_node option"
  se_retrieve :: "uint256 \<Rightarrow> byte list option"
  se_fetchFromCache :: "uint256 \<Rightarrow> byte list option"
  se_randInt :: "node_id \<Rightarrow> nat"

text \<open>The sync filter of transaction sets, \<^verbatim>\<open>ConsensusTransSetSF::getNode\<close>.\<close>

definition sf_getNode :: "sync_env \<Rightarrow> uint256 \<Rightarrow> byte list option" where
  "sf_getNode env nodeHash =
     (case se_retrieve env nodeHash of
        Some nodeData \<Rightarrow> Some nodeData
      | None \<Rightarrow>
          (case se_fetchFromCache env nodeHash of
             Some txn \<Rightarrow> Some (prefix_TransactionId @ txn)
           | None \<Rightarrow> None))"

definition checkFilter :: "sync_env \<Rightarrow> uint256 \<Rightarrow> mem_node option" where
  "checkFilter env h =
     (case sf_getNode env h of
        None \<Rightarrow> None
      | Some nodeData \<Rightarrow>
          (case makeFromPrefix (se_sha env) nodeData h of
             (PNode n, h') \<Rightarrow> Some (mem_new h' n)
           | (_, _) \<Rightarrow> None))"

definition fetchNodeNT :: "sync_env \<Rightarrow> uint256 \<Rightarrow> mem_node option" where
  "fetchNodeNT env h =
     (case se_cacheLookup env h of
        Some node \<Rightarrow> Some node
      | None \<Rightarrow> checkFilter env h)"

definition canonicalizeChild :: "nat \<Rightarrow> mem_node \<Rightarrow> mem_node option list \<Rightarrow> mem_node \<times> mem_node option list" where
  "canonicalizeChild branch node cs =
     (case cs ! branch of
        Some hooked \<Rightarrow> (hooked, cs)
      | None \<Rightarrow> (node, cs[branch := Some node]))"

definition descend :: "sync_env \<Rightarrow> inner_node \<Rightarrow> mem_node option list \<Rightarrow> nat \<Rightarrow> mem_node option \<times> mem_node option list" where
  "descend env n cs branch =
     (case cs ! branch of
        Some c \<Rightarrow> (Some c, cs)
      | None \<Rightarrow>
          (case fetchNodeNT env (getChildHash n branch) of
             None \<Rightarrow> (None, cs)
           | Some childNode \<Rightarrow> let (c, cs') = canonicalizeChild branch childNode cs in (Some c, cs')))"

definition descendAsync :: "sync_env \<Rightarrow> inner_node \<Rightarrow> mem_node option list \<Rightarrow> nat \<Rightarrow> mem_node option \<times> mem_node option list" where
  "descendAsync env n cs branch =
     (case cs ! branch of
        Some c \<Rightarrow> (Some c, cs)
      | None \<Rightarrow>
          let h = getChildHash n branch;
              ptr = (case se_cacheLookup env h of Some p \<Rightarrow> Some p | None \<Rightarrow> checkFilter env h)
          in case ptr of
               None \<Rightarrow> (None, cs)
             | Some p \<Rightarrow> let (c, cs') = canonicalizeChild branch p cs in (Some c, cs'))"

section \<open>Adding nodes\<close>

text \<open>What \<^verbatim>\<open>gotNode\<close> of the filter is told: the hash of a new node and its encoding.\<close>

type_synonym got_node = "uint256 \<times> byte list"

definition addRootNode :: "uint256 \<Rightarrow> mem_node \<Rightarrow> sync_map \<Rightarrow> SHAMapAddNode \<times> sync_map" where
  "addRootNode h rootNode m =
     (if mem_hash (sm_root m) \<noteq> zero256
      then (if mem_hash (sm_root m) \<noteq> h then (an_invalid, m) else (an_dup, m))
      else if mem_hash rootNode \<noteq> h then (an_invalid, m)
      else
        let m' = m\<lparr>sm_root := rootNode\<rparr>
        in (an_useful, if \<not> mem_isInner rootNode then clearSynching m' else m'))"

lemma child_id_depth [termination_simp]: "getChildNodeID i b = Some i' \<Longrightarrow> ni_depth i' = Suc (ni_depth i) \<and> ni_depth i < 64"
  by (auto simp: getChildNodeID_def SHAMapNodeID_new_def kLeafDepth_def Let_def split: if_splits)

text \<open>
  The loop of \<^verbatim>\<open>addKnownNode\<close> from a node at \<open>currNodeID\<close>: the result, the node with what was hooked
  below it, whether the map became invalid, and what the filter was told.
\<close>

function known_loop :: "sync_env \<Rightarrow> node_id \<Rightarrow> mem_node \<Rightarrow> node_id \<Rightarrow> mem_node \<Rightarrow>
    (SHAMapAddNode \<times> mem_node \<times> bool \<times> got_node list) option" where
  "known_loop env nodeID treeNode currNodeID (MLeaf h t i) = Some (an_dup, MLeaf h t i, False, [])"
| "known_loop env nodeID treeNode currNodeID (MInner h n cs g) =
     (if isFullBelow (se_generation env) (MInner h n cs g) \<or> \<not> ni_depth currNodeID < ni_depth nodeID
      then Some (an_dup, MInner h n cs g, False, [])
      else
        let branch = selectBranch currNodeID (ni_id nodeID)
        in if isEmptyBranch n branch then Some (an_invalid, MInner h n cs g, False, [])
           else
             let childHash = getChildHash n branch
             in if \<not> isLeafDepth (ni_depth currNodeID + 1) \<and> se_touchIfExists env childHash
                then Some (an_dup, MInner h n cs g, False, [])
                else
                  (case getChildNodeID currNodeID branch of
                     None \<Rightarrow> None
                   | Some childID \<Rightarrow>
                       (case descend env n cs branch of
                          (Some c, cs') \<Rightarrow>
                            map_option (\<lambda>(r, c', bad, got). (r, MInner h n (cs'[branch := Some c']) g, bad, got))
                              (known_loop env nodeID treeNode childID c)
                        | (None, cs') \<Rightarrow>
                            Some (if childHash \<noteq> mem_hash treeNode then (an_invalid, MInner h n cs' g, False, [])
                                  else if mem_isInner treeNode \<and> isLeafDepth (ni_depth childID)
                                  then (an_invalid, MInner h n cs' g, True, [])
                                  else if childID \<noteq> nodeID then (an_invalid, MInner h n cs' g, False, [])
                                  else
                                    let (c, cs'') = canonicalizeChild branch treeNode cs'
                                    in (an_useful, MInner h n cs'' g, False,
                                        [(childHash, serializeWithPrefix (mem_flat c))])))))"
  by pat_completeness auto
termination
  by (relation "measure (\<lambda>(env, nodeID, treeNode, currNodeID, node). ni_depth nodeID - ni_depth currNodeID)")
    (auto dest: child_id_depth)

declare known_loop.simps(2) [simp del]

definition addKnownNode :: "sync_env \<Rightarrow> node_id \<Rightarrow> mem_node \<Rightarrow> sync_map \<Rightarrow> (SHAMapAddNode \<times> sync_map \<times> got_node list) option" where
  "addKnownNode env nodeID treeNode m =
     (if \<not> isSynching m then Some (an_dup, m, [])
      else
        map_option (\<lambda>(r, root, bad, got).
            let m' = m\<lparr>sm_root := root\<rparr> in (r, if bad then setInvalid m' else m', got))
          (known_loop env nodeID treeNode node_id_root (sm_root m)))"

section \<open>Missing nodes\<close>

record missing_nodes =
  mn_max :: int
  mn_missingNodes :: "(node_id \<times> uint256) list"
  mn_missingHashes :: "uint256 list"

text \<open>The walk inside one inner node: its children, and the variables of the code.\<close>

record walk =
  wk_children :: "mem_node option list"
  wk_fullBelow :: bool
  wk_mn :: missing_nodes
  wk_invalid :: bool

definition walk_stop :: "walk \<Rightarrow> bool" where
  "walk_stop w \<longleftrightarrow> wk_invalid w \<or> mn_max (wk_mn w) \<le> 0"

definition mn_missing :: "node_id \<Rightarrow> uint256 \<Rightarrow> missing_nodes \<Rightarrow> missing_nodes" where
  "mn_missing childID childHash mn = mn\<lparr>
     mn_missingHashes := childHash # mn_missingHashes mn,
     mn_missingNodes := mn_missingNodes mn @ [(childID, childHash)],
     mn_max := mn_max mn - 1\<rparr>"

definition gmn_branch :: "(node_id \<Rightarrow> mem_node \<Rightarrow> missing_nodes \<Rightarrow> (mem_node \<times> walk) option) \<Rightarrow>
    sync_env \<Rightarrow> node_id \<Rightarrow> inner_node \<Rightarrow> nat \<Rightarrow> walk \<Rightarrow> walk option" where
  "gmn_branch visit env nodeID n branch w =
     (if isEmptyBranch n branch then Some w
      else
        let childHash = getChildHash n branch
        in if childHash \<in> set (mn_missingHashes (wk_mn w)) then Some (w\<lparr>wk_fullBelow := False\<rparr>)
           else
             (case descendAsync env n (wk_children w) branch of
                (None, cs') \<Rightarrow>
                  (case getChildNodeID nodeID branch of
                     None \<Rightarrow> None
                   | Some childID \<Rightarrow>
                       Some (w\<lparr>wk_children := cs', wk_fullBelow := False,
                               wk_mn := mn_missing childID childHash (wk_mn w)\<rparr>))
              | (Some d, cs') \<Rightarrow>
                  if mem_isInner d \<and> isLeafDepth (ni_depth nodeID + 1)
                  then Some (w\<lparr>wk_children := cs', wk_invalid := True\<rparr>)
                  else if mem_isInner d \<and> \<not> isFullBelow (se_generation env) d
                  then
                    (case getChildNodeID nodeID branch of
                       None \<Rightarrow> None
                     | Some childID \<Rightarrow>
                         (case visit childID d (wk_mn w) of
                            None \<Rightarrow> None
                          | Some (d', w') \<Rightarrow>
                              Some \<lparr>wk_children = cs'[branch := Some d'],
                                    wk_fullBelow = wk_fullBelow w \<and> wk_fullBelow w',
                                    wk_mn = wk_mn w', wk_invalid = wk_invalid w'\<rparr>))
                  else Some (w\<lparr>wk_children := cs'\<rparr>)))"

fun gmn_branches :: "(node_id \<Rightarrow> mem_node \<Rightarrow> missing_nodes \<Rightarrow> (mem_node \<times> walk) option) \<Rightarrow>
    sync_env \<Rightarrow> node_id \<Rightarrow> inner_node \<Rightarrow> nat list \<Rightarrow> walk \<Rightarrow> walk option" where
  "gmn_branches visit env nodeID n [] w = Some w"
| "gmn_branches visit env nodeID n (b # bs) w =
     (if walk_stop w then Some w
      else (case gmn_branch visit env nodeID n b w of
              None \<Rightarrow> None
            | Some w' \<Rightarrow> gmn_branches visit env nodeID n bs w'))"

definition gmn_order :: "nat \<Rightarrow> nat list" where
  "gmn_order firstChild = map (\<lambda>currentChild. (firstChild + currentChild) mod kBranchFactor) [0..<kBranchFactor]"

text \<open>One inner node with \<open>levels\<close> levels of the tree from it down; a leaf is never entered.\<close>

primrec gmnProcessNodes :: "nat \<Rightarrow> sync_env \<Rightarrow> node_id \<Rightarrow> mem_node \<Rightarrow> missing_nodes \<Rightarrow> (mem_node \<times> walk) option" where
  "gmnProcessNodes 0 = (\<lambda>env nodeID node mn. None)"
| "gmnProcessNodes (Suc levels) = (\<lambda>env nodeID node mn.
     (case node of
        MLeaf h t i \<Rightarrow> None
      | MInner h n cs g \<Rightarrow>
          map_option
            (\<lambda>w. (MInner h n (wk_children w) (if \<not> walk_stop w \<and> wk_fullBelow w then se_generation env else g), w))
            (gmn_branches (gmnProcessNodes levels env) env nodeID n (gmn_order (se_randInt env nodeID))
               \<lparr>wk_children = cs, wk_fullBelow = True, wk_mn = mn, wk_invalid = False\<rparr>)))"

definition getMissingNodes :: "sync_env \<Rightarrow> int \<Rightarrow> sync_map \<Rightarrow> ((node_id \<times> uint256) list \<times> sync_map) option" where
  "getMissingNodes env max_nodes m =
     (if \<not> isValid m then Some ([], m)
      else if \<not> mem_isInner (sm_root m) \<or> isFullBelow (se_generation env) (sm_root m)
      then Some ([], clearSynching m)
      else
        (case gmnProcessNodes kLeafDepth env node_id_root (sm_root m)
                \<lparr>mn_max = max_nodes, mn_missingNodes = [], mn_missingHashes = []\<rparr> of
           None \<Rightarrow> None
         | Some (root, w) \<Rightarrow>
             let m' = m\<lparr>sm_root := root\<rparr>
             in if wk_invalid w then Some ([], setInvalid m')
                else if mn_max (wk_mn w) \<le> 0 then Some (mn_missingNodes (wk_mn w), m')
                else Some (mn_missingNodes (wk_mn w),
                           if mn_missingNodes (wk_mn w) = [] then clearSynching m' else m')))"

end
