(* ===== verification/SHAMapSync_Correct.thy ===== *)
theory SHAMapSync_Correct
  imports SHAMapSync
begin

text \<open>
  What a synchronising map holds: every node in memory was checked against the hash its parent names,
  and a node is marked full below only when everything below it is hooked. From this it follows that a
  complete map holds the items of the tree its root hash commits to, that a missing node is reported
  only where one is missing, and that a map is called invalid only when its root hash commits to no
  tree.
\<close>

section \<open>Nodes that are linked by their hashes\<close>

definition hooked :: "mem_node option list \<Rightarrow> nat \<Rightarrow> mem_node option" where
  "hooked cs b = (if b < length cs then cs ! b else None)"

fun mem_complete :: "mem_node \<Rightarrow> bool" where
  "mem_complete (MLeaf h t i) \<longleftrightarrow> True"
| "mem_complete (MInner h n cs g) \<longleftrightarrow>
     list_all (\<lambda>b. isEmptyBranch n b \<or> hooked cs b \<noteq> None) [0..<16] \<and> list_all (case_option True mem_complete) cs"

text \<open>An empty inner node has hash zero, every other node the digest of its encoding.\<close>

definition inner_hash_ok :: "digest \<Rightarrow> uint256 \<Rightarrow> inner_node \<Rightarrow> bool" where
  "inner_hash_ok sha h n \<longleftrightarrow> h = sha (inner_serializeWithPrefix n) \<or> h = zero256 \<and> in_isBranch n = 0"

fun mem_ok :: "digest \<Rightarrow> mem_node \<Rightarrow> bool" where
  "mem_ok sha (MLeaf h t i) \<longleftrightarrow> h = leaf_updateHash sha t i \<and> flat_ok sha (FLeaf t i)"
| "mem_ok sha (MInner h n cs g) \<longleftrightarrow> inner_hash_ok sha h n \<and> inner_shape n \<and> length cs = 16 \<and>
     (g = 0 \<or> mem_complete (MInner h n cs g)) \<and> list_all (case_option True (mem_ok sha)) cs \<and>
     list_all (\<lambda>b. case hooked cs b of None \<Rightarrow> True | Some c \<Rightarrow> \<not> isEmptyBranch n b \<and> mem_hash c = getChildHash n b) [0..<16]"

lemma hooked_mem: "hooked cs b = Some c \<Longrightarrow> Some c \<in> set cs"
  by (metis hooked_def nth_mem option.distinct(1))

lemma mem_hooked: "Some c \<in> set cs \<longleftrightarrow> (\<exists>b. hooked cs b = Some c)"
  by (auto simp: hooked_def in_set_conv_nth split: if_splits)

lemma all_hooked: "list_all (case_option True P) cs \<longleftrightarrow> (\<forall>b c. hooked cs b = Some c \<longrightarrow> P c)"
  by (auto simp: list_all_iff mem_hooked split: option.splits)

lemma list_all_upt: "list_all P [0..<n] \<longleftrightarrow> (\<forall>b < n. P b)"
  by (auto simp: list_all_iff)

lemma hooked_update:
  "b < length cs \<Longrightarrow> hooked (cs[b := x]) b' = (if b' = b then x else hooked cs b')"
  by (simp add: hooked_def)

lemma mem_complete_Inner:
  "mem_complete (MInner h n cs g) \<longleftrightarrow>
     (\<forall>b < 16. \<not> isEmptyBranch n b \<longrightarrow> hooked cs b \<noteq> None) \<and> (\<forall>b c. hooked cs b = Some c \<longrightarrow> mem_complete c)"
  by (simp only: mem_complete.simps all_hooked list_all_upt) blast

lemma mem_ok_Inner:
  "mem_ok sha (MInner h n cs g) \<longleftrightarrow> inner_hash_ok sha h n \<and> inner_shape n \<and> length cs = 16 \<and>
     (g = 0 \<or> mem_complete (MInner h n cs g)) \<and>
     (\<forall>b c. hooked cs b = Some c \<longrightarrow> b < 16 \<and> mem_ok sha c \<and> \<not> isEmptyBranch n b \<and> mem_hash c = getChildHash n b)"
proof -
  have "b < length cs" if "hooked cs b = Some c" for b c using that by (simp add: hooked_def split: if_splits)
  then show ?thesis
    by (simp only: mem_ok.simps all_hooked list_all_upt) (fastforce split: option.splits)
qed

declare mem_complete.simps(2) [simp del] mem_ok.simps(2) [simp del]

lemma isEmptyBranch_bound: "\<not> isEmptyBranch n b \<Longrightarrow> b < 16"
  using bit_imp_le_length [of "in_isBranch n" b] by (simp add: isEmptyBranch_def)

text \<open>What every operation does to a node: it keeps the hash and the encoding, and only hooks more.\<close>

definition extends :: "digest \<Rightarrow> mem_node \<Rightarrow> mem_node \<Rightarrow> bool" where
  "extends sha p p' \<longleftrightarrow> mem_ok sha p' \<and> mem_hash p' = mem_hash p \<and> mem_flat p' = mem_flat p \<and> (mem_complete p \<longrightarrow> mem_complete p')"

lemma extends_refl: "mem_ok sha p \<Longrightarrow> extends sha p p"
  by (simp add: extends_def)

lemma extends_trans: "extends sha p q \<Longrightarrow> extends sha q r \<Longrightarrow> extends sha p r"
  by (simp add: extends_def)

lemma hook_extends:
  assumes ok: "mem_ok sha (MInner h n cs g)" and b: "\<not> isEmptyBranch n b"
    and c: "mem_ok sha c" "mem_hash c = getChildHash n b" "\<And>c0. hooked cs b = Some c0 \<Longrightarrow> mem_complete c0 \<Longrightarrow> mem_complete c"
  shows "extends sha (MInner h n cs g) (MInner h n (cs[b := Some c]) g)"
proof -
  have l: "b < length cs" using ok isEmptyBranch_bound [OF b] by (simp add: mem_ok_Inner)
  have comp: "mem_complete (MInner h n (cs[b := Some c]) g)" if m: "mem_complete (MInner h n cs g)"
  proof -
    obtain c0 where "hooked cs b = Some c0" using m b isEmptyBranch_bound [OF b] unfolding mem_complete_Inner by blast
    then show ?thesis using m c(3) by (auto simp: mem_complete_Inner hooked_update [OF l])
  qed
  then show ?thesis
    using ok b c(1,2) isEmptyBranch_bound [OF b] by (auto simp: extends_def mem_ok_Inner hooked_update [OF l])
qed

section \<open>Nodes from the wire and from the filter\<close>

lemma mem_new_ok:
  assumes "case n of FInner m \<Rightarrow> inner_hash_ok sha h m \<and> inner_shape m | FLeaf t i \<Rightarrow> h = leaf_updateHash sha t i \<and> flat_ok sha (FLeaf t i)"
  shows "mem_ok sha (mem_new h n) \<and> mem_hash (mem_new h n) = h \<and> mem_flat (mem_new h n) = n"
  using assms by (cases n) (auto simp: mem_ok_Inner hooked_def)

lemma inner_updateHash_ok: "inner_hash_ok sha (inner_updateHash sha m) m"
  by (simp add: inner_hash_ok_def inner_updateHash_def inner_serializeWithPrefix_def)

lemma wire_node_ok:
  assumes "\<And>x. uint256_ok (sha x)" "makeFromWire sha raw = PNode n"
  shows "mem_ok sha (mem_new (node_updateHash sha n) n) \<and> mem_hash (mem_new (node_updateHash sha n) n) = node_updateHash sha n"
proof -
  have "case n of FInner m \<Rightarrow> inner_hash_ok sha (node_updateHash sha n) m \<and> inner_shape m
    | FLeaf t i \<Rightarrow> node_updateHash sha n = leaf_updateHash sha t i \<and> flat_ok sha (FLeaf t i)"
    using assms(2) makeFromWire_shape [of sha raw] makeFromWire_leaf_ok [of sha, OF assms(1), of raw] inner_updateHash_ok
    by (auto split: flat_node.splits)
  from mem_new_ok [OF this] show ?thesis by simp
qed

lemma makeFullInner_ok:
  assumes "makeFullInner d = Some n"
  shows "inner_shape n" "iterChildren n = d" "\<forall>j < 16. bit (in_isBranch n) j \<longleftrightarrow> getChildHash n j \<noteq> zero256"
proof -
  let ?f = "\<lambda>i. take 32 (drop (32 * i) d)"
  have len: "length d = 512" and n: "n = fold (\<lambda>i. inner_set i (?f i)) [0..<16] inner_empty"
    using assms by (simp_all add: makeFullInner_def kBranchFactor_def split: if_splits)
  show "inner_shape n"
    unfolding n by (rule fold_set_shape [OF _ inner_empty_shape]) (simp add: len)
  have j: "in_hashes n ! j = ?f j \<and> (bit (in_isBranch n) j \<longleftrightarrow> ?f j \<noteq> zero256)" if "j < 16" for j
    using inner_set_fold [of "[0..<16]" inner_empty ?f] that unfolding n by (simp add: inner_empty_def list_all_upt del: upt_rec)
  then have h: "getChildHash n j = ?f j" if "j < 16" for j
    using that by (auto simp: getChildHash_def isEmptyBranch_def)
  show "\<forall>j < 16. bit (in_isBranch n) j \<longleftrightarrow> getChildHash n j \<noteq> zero256" using j h by simp
  have "concat (map (\<lambda>i. take 32 (drop (32 * i) e)) [0..<k]) = take (32 * k) e" for k and e :: "byte list"
    by (induction k) (simp_all add: take_add add.commute [of 32])
  from this [of d 16] have "concat (map ?f [0..<16]) = d" using len by (simp del: upt_rec_numeral)
  moreover have "map (getChildHash n) [0..<16] = map ?f [0..<16]" by (rule map_cong) (simp_all only: h set_upt atLeastLessThan_iff refl)
  ultimately show "iterChildren n = d" by (simp only: iterChildren_def kBranchFactor_def)
qed

lemma leaf_parsers_ok:
  assumes "\<And>x. uint256_ok (sha x)"
  shows "makeTransaction sha d = Some n \<Longrightarrow> serializeWithPrefix n = prefix_TransactionId @ d \<and> (\<exists>t i. n = FLeaf t i \<and> flat_ok sha n)"
    "makeTransactionWithMeta d = Some n \<Longrightarrow> serializeWithPrefix n = prefix_TxNode @ d \<and> (\<exists>t i. n = FLeaf t i \<and> flat_ok sha n)"
    "makeAccountState d = Some n \<Longrightarrow> serializeWithPrefix n = prefix_LeafNode @ d \<and> (\<exists>t i. n = FLeaf t i \<and> flat_ok sha n)"
  using assms by (auto simp: makeTransaction_def makeTransactionWithMeta_def makeAccountState_def Let_def split: if_splits)

lemma makeFromPrefix_ok:
  assumes sha: "\<And>x. uint256_ok (sha x)" and p: "makeFromPrefix sha raw h = (PNode n, h')"
  shows "h' = h \<and> serializeWithPrefix n = raw \<and>
    (case n of FInner m \<Rightarrow> makeFullInner (drop 4 raw) = Some m | FLeaf t i \<Rightarrow> flat_ok sha (FLeaf t i))"
proof -
  have split: "raw = take 4 raw @ drop 4 raw" by simp
  have h: "h' = h" and len: "\<not> length raw < 4" using p by (auto simp: makeFromPrefix_def Let_def split: if_splits)
  note parse = p [unfolded makeFromPrefix_def Let_def parse_or_throw_def]
  consider (nm) "take 4 raw = prefix_TransactionId" | (as) "take 4 raw = prefix_LeafNode" | (inner) "take 4 raw = prefix_InnerNode"
    | (md) "take 4 raw = prefix_TxNode" using parse by (auto split: if_splits)
  then show ?thesis
  proof cases
    case nm
    then have "makeTransaction sha (drop 4 raw) = Some n" using parse len by (auto split: option.splits)
    from leaf_parsers_ok(1) [of sha, OF sha this] show ?thesis using h split nm by auto
  next
    case as
    then have "take 4 raw \<noteq> prefix_TransactionId" by (simp add: prefix_defs)
    then have "makeAccountState (drop 4 raw) = Some n" using parse len as by (auto split: option.splits)
    from leaf_parsers_ok(3) [of sha, OF sha this] show ?thesis using h split as by auto
  next
    case inner
    then have "take 4 raw \<noteq> prefix_TransactionId" "take 4 raw \<noteq> prefix_LeafNode" by (simp_all add: prefix_defs)
    then obtain m where m: "n = FInner m" "makeFullInner (drop 4 raw) = Some m"
      using parse len inner by (auto split: if_splits option.splits)
    then show ?thesis using h split inner makeFullInner_ok(2) [OF m(2)] by (simp add: inner_serializeWithPrefix_def)
  next
    case md
    then have "take 4 raw \<noteq> prefix_TransactionId" "take 4 raw \<noteq> prefix_LeafNode" "take 4 raw \<noteq> prefix_InnerNode"
      by (simp_all add: prefix_defs)
    then have "makeTransactionWithMeta (drop 4 raw) = Some n" using parse len md by (auto split: option.splits)
    from leaf_parsers_ok(2) [of sha, OF sha this] show ?thesis using h split md by auto
  qed
qed

text \<open>
  What a map relies on: the cache of tree nodes holds nodes of other maps under their hashes, the node
  cache holds what the filter was told, the encoding of a node under its hash, a transaction is found
  under its identifier, and the generation of the full-below cache, which starts at one, is not zero.
\<close>

definition env_ok :: "sync_env \<Rightarrow> bool" where
  "env_ok env \<longleftrightarrow> se_generation env \<noteq> 0 \<and> (\<forall>x. uint256_ok (se_sha env x)) \<and>
     (\<forall>h p. se_cacheLookup env h = Some p \<longrightarrow> mem_hash p = h \<and> mem_ok (se_sha env) p) \<and>
     (\<forall>h d. se_retrieve env h = Some d \<longrightarrow> (\<exists>m. h = node_updateHash (se_sha env) m \<and> d = serializeWithPrefix m)) \<and>
     (\<forall>h s. se_fetchFromCache env h = Some s \<longrightarrow> se_sha env (prefix_TransactionId @ s) = h)"

lemma env_okD:
  assumes "env_ok env"
  shows "se_generation env \<noteq> 0" "\<And>x. uint256_ok (se_sha env x)"
    "\<And>h p. se_cacheLookup env h = Some p \<Longrightarrow> mem_hash p = h \<and> mem_ok (se_sha env) p"
  using assms by (simp_all add: env_ok_def)

lemma sf_getNode_ok:
  assumes "env_ok env" "sf_getNode env h = Some d"
  shows "\<exists>m. h = node_updateHash (se_sha env) m \<and> d = serializeWithPrefix m"
proof (cases "se_retrieve env h")
  case None
  then obtain s where s: "se_fetchFromCache env h = Some s" "d = prefix_TransactionId @ s"
    using assms(2) by (auto simp: sf_getNode_def split: option.splits)
  then have "h = node_updateHash (se_sha env) (FLeaf TnTransactionNm \<lparr>si_key = [], si_data = s\<rparr>)"
    using assms(1) by (auto simp: env_ok_def)
  then show ?thesis using s(2) by (intro exI [of _ "FLeaf TnTransactionNm \<lparr>si_key = [], si_data = s\<rparr>"]) simp
next
  case (Some d')
  then show ?thesis using assms by (auto simp: env_ok_def sf_getNode_def)
qed

lemma no_branch_hashes: "in_isBranch m = 0 \<Longrightarrow> getChildHash m j = zero256"
  by (simp add: getChildHash_def isEmptyBranch_def)

lemma checkFilter_ok:
  assumes env: "env_ok env" and f: "checkFilter env h = Some p"
  shows "mem_hash p = h \<and> mem_ok (se_sha env) p"
proof -
  let ?sha = "se_sha env"
  obtain d n h' where d: "sf_getNode env h = Some d" and pf: "makeFromPrefix ?sha d h = (PNode n, h')" and p: "p = mem_new h' n"
    using f by (auto simp: checkFilter_def split: option.splits prod.splits parsed.splits)
  obtain m where m: "h = node_updateHash ?sha m" "d = serializeWithPrefix m" using sf_getNode_ok [OF env d] by blast
  note o = makeFromPrefix_ok [OF env_okD(2) [OF env] pf]
  have "case n of FInner m \<Rightarrow> inner_hash_ok ?sha h m \<and> inner_shape m | FLeaf t i \<Rightarrow> h = leaf_updateHash ?sha t i \<and> flat_ok ?sha (FLeaf t i)"
  proof (cases n)
    case (FLeaf t i)
    then have "serializeWithPrefix (FLeaf t i) = serializeWithPrefix m" using o m(2) by simp
    then obtain t' i' where "m = FLeaf t' i'" using prefix_differs [of t i] by (cases m) blast+
    then have "h = ?sha d" using m by (simp add: leaf_hash)
    then show ?thesis using o FLeaf leaf_hash [of ?sha t i] by simp
  next
    case (FInner k)
    then have full: "makeFullInner (drop 4 d) = Some k" and ser: "inner_serializeWithPrefix k = d" using o by simp_all
    then have "serializeWithPrefix m = serializeWithPrefix (FInner k)" using m(2) by simp
    then obtain m' where m': "m = FInner m'" using prefix_differs [of _ _ k] by (cases m) blast+
    then have it: "iterChildren k = iterChildren m'" using ser m(2) by (simp add: inner_serializeWithPrefix_def)
    have "inner_hash_ok ?sha h k"
    proof (cases "in_isBranch m' = 0")
      case True
      have e: "in_isBranch inner_empty = 0" by (simp add: inner_empty_def)
      have "map (getChildHash inner_empty) [0..<kBranchFactor] = map (getChildHash m') [0..<kBranchFactor]"
        by (rule map_cong) (simp_all only: no_branch_hashes [OF e] no_branch_hashes [OF True])
      then have "iterChildren k = iterChildren inner_empty" using it by (simp only: iterChildren_def)
      then have "getChildHash k j = zero256" if "j < 16" for j
        using iterChildren_inj [OF makeFullInner_ok(1) [OF full] inner_empty_shape _ that] no_branch_hashes [OF e] by simp
      then have "\<not> bit (in_isBranch k) j" for j
        using makeFullInner_ok(3) [OF full] bit_imp_le_length [of "in_isBranch k" j] by auto
      then have "in_isBranch k = 0" by (simp add: bit_eq_iff)
      then show ?thesis using m' m(1) True by (simp add: inner_hash_ok_def inner_updateHash_def)
    next
      case False
      then show ?thesis using m' m(1) it by (simp add: inner_hash_ok_def inner_updateHash_def inner_serializeWithPrefix_def)
    qed
    then show ?thesis using FInner makeFullInner_ok(1) [OF full] by simp
  qed
  from mem_new_ok [OF this] show ?thesis using p o by simp
qed

section \<open>Positions as paths\<close>

definition path_key :: "nat list \<Rightarrow> uint256" where
  "path_key P = (let Q = P @ replicate 64 0 in map (\<lambda>j. of_nat (16 * Q ! (2 * j) + Q ! (2 * j + 1))) [0..<32])"

definition path_id :: "nat list \<Rightarrow> node_id" where
  "path_id P = createID (length P) (path_key P)"

definition path_ok :: "nat list \<Rightarrow> bool" where
  "path_ok P \<longleftrightarrow> length P \<le> 64 \<and> list_all (\<lambda>b. b < 16) P"

lemma byte_of_nibbles:
  assumes "a < 16" "b < 16"
  shows "unat (drop_bit 4 (of_nat (16 * a + b) :: byte)) = a" "unat ((of_nat (16 * a + b) :: byte) AND 0xF) = b"
proof -
  have u: "unat (of_nat (16 * a + b) :: byte) = 16 * a + b"
    unfolding unat_of_nat using assms by simp
  show "unat (drop_bit 4 (of_nat (16 * a + b) :: byte)) = a"
    unfolding unat_drop_bit_eq u by (simp add: drop_bit_eq_div assms)
  have "(0xF :: byte) = mask 4" by (simp add: mask_eq_exp_minus_1)
  then show "unat ((of_nat (16 * a + b) :: byte) AND 0xF) = b"
    using u assms by (simp only: take_bit_eq_mask [symmetric] unsigned_take_bit_eq) (simp add: take_bit_eq_mod)
qed

lemma nibble_path_key:
  assumes "path_ok P" "d < 64"
  shows "nibble (path_key P) d = (P @ replicate 64 0) ! d"
proof -
  let ?Q = "P @ replicate 64 0"
  have Q: "?Q ! e < 16" if "e < 64" for e
    using assms(1) that by (auto simp: path_ok_def nth_append list_all_length)
  have j: "path_key P ! (d div 2) = of_nat (16 * ?Q ! (2 * (d div 2)) + ?Q ! (2 * (d div 2) + 1))"
    unfolding path_key_def Let_def by (subst nth_map_upt) (use assms(2) in auto)
  have b: "2 * (d div 2) < 64" "2 * (d div 2) + 1 < 64" using assms(2) by presburger+
  show ?thesis
  proof (cases "odd d")
    case True
    then have "2 * (d div 2) + 1 = d" by presburger
    then show ?thesis unfolding nibble_def j using True byte_of_nibbles(2) [OF Q [OF b(1)] Q [OF b(2)]] by simp
  next
    case False
    then have "2 * (d div 2) = d" by simp
    then show ?thesis unfolding nibble_def j using False byte_of_nibbles(1) [OF Q [OF b(1)] Q [OF b(2)]] by simp
  qed
qed

lemma path_key_ok [simp]: "uint256_ok (path_key P)"
  by (simp add: path_key_def Let_def)

lemma path_id_prefix:
  assumes "path_ok (P @ R)"
  shows "createID (length P) (path_key (P @ R)) = path_id P"
proof -
  have P: "path_ok P" "length P \<le> 64" using assms by (simp_all add: path_ok_def)
  have "take (length P) (nibbles (path_key (P @ R))) = take (length P) (nibbles (path_key P))"
    using assms P by (auto simp: list_eq_iff_nth_eq nibbles_nth nibble_path_key nth_append)
  then have "maskedToDepth (path_key (P @ R)) (length P) = maskedToDepth (path_key P) (length P)"
    using P(2) by (simp add: maskedToDepth_eq_iff)
  then show ?thesis using P(2) by (simp add: path_id_def createID_def kLeafDepth_def)
qed

lemma path_id_simps:
  assumes "path_ok P"
  shows "ni_depth (path_id P) = length P" "node_id_ok (path_id P)"
  using assms by (simp_all add: path_id_def createID_simps createID_ok path_ok_def)

lemma path_id_child:
  assumes "path_ok P" "b < 16" "length P < 64"
  shows "getChildNodeID (path_id P) b = Some (path_id (P @ [b]))"
proof -
  have ok: "path_ok (P @ [b])" using assms by (simp add: path_ok_def)
  have "nibble (path_key (P @ [b])) (length P) = b" using nibble_path_key [OF ok assms(3)] by simp
  then show ?thesis
    using createID_child [of "path_key (P @ [b])" "length P"] path_id_prefix [OF ok] assms(3) by (simp add: path_id_def)
qed

lemma path_id_branch:
  assumes "path_ok (P @ b # R)"
  shows "selectBranch (path_id P) (ni_id (path_id (P @ b # R))) = b"
proof -
  have P: "path_ok P" "length P < 64" "length (P @ b # R) \<le> 64" using assms by (simp_all add: path_ok_def)
  have "nibble (maskedToDepth (path_key (P @ b # R)) (length (P @ b # R))) (length P) = b"
    using nibble_masked [OF path_key_ok P(3,2)] nibble_path_key [OF assms P(2)] by simp
  then show ?thesis
    using P by (simp add: selectBranch_nibble path_id_simps(1) path_id_def createID_simps)
qed

lemma path_id_root: "path_id [] = node_id_root"
  using node_id_root_eq [of "path_key []"] by (simp add: path_id_def)

lemma path_id_inj:
  assumes "path_ok P" "path_ok Q" "path_id P = path_id Q"
  shows "P = Q"
proof -
  have l: "length P = length Q" using assms path_id_simps(1) by metis
  have "nibble (ni_id (path_id R)) e = R ! e" if "path_ok R" "e < length R" for R e
    using that nibble_masked [of "path_key R" "length R" e] nibble_path_key [of R e]
    by (simp add: path_id_def createID_simps path_ok_def nth_append)
  then show ?thesis using assms l by (metis nth_equalityI)
qed

section \<open>Every operation only hooks nodes\<close>

lemma descendAsync_eq: "descendAsync env n cs b = descend env n cs b"
  unfolding descendAsync_def descend_def fetchNodeNT_def Let_def by (rule refl)

lemma fetchNodeNT_ok: "env_ok env \<Longrightarrow> fetchNodeNT env h = Some p \<Longrightarrow> mem_hash p = h \<and> mem_ok (se_sha env) p"
  using env_okD(3) [of env h p] checkFilter_ok [of env h p] by (auto simp: fetchNodeNT_def split: option.splits)

lemma descend_ok:
  assumes env: "env_ok env" and ok: "mem_ok (se_sha env) (MInner h n cs g)" and b: "\<not> isEmptyBranch n b"
    and d: "descend env n cs b = (r, cs')"
  shows "extends (se_sha env) (MInner h n cs g) (MInner h n cs' g)"
    "r = None \<Longrightarrow> cs' = cs \<and> hooked cs b = None \<and> fetchNodeNT env (getChildHash n b) = None"
    "r = Some c \<Longrightarrow> hooked cs' b = Some c \<and> mem_ok (se_sha env) c \<and> mem_hash c = getChildHash n b"
    "length cs' = 16" "\<And>b'. b' \<noteq> b \<Longrightarrow> hooked cs' b' = hooked cs b'"
proof -
  have l: "length cs = 16" "b < 16" using ok isEmptyBranch_bound [OF b] by (simp_all add: mem_ok_Inner)
  consider (hooked) c0 where "cs ! b = Some c0" "r = Some c0" "cs' = cs"
    | (fetched) c0 where "cs ! b = None" "fetchNodeNT env (getChildHash n b) = Some c0" "r = Some c0" "cs' = cs[b := Some c0]"
    | (none) "cs ! b = None" "fetchNodeNT env (getChildHash n b) = None" "r = None" "cs' = cs"
    using d by (auto simp: descend_def canonicalizeChild_def split: option.splits)
  note cases = this
  show "extends (se_sha env) (MInner h n cs g) (MInner h n cs' g)"
  proof (cases rule: cases)
    case fetched
    then show ?thesis using hook_extends [OF ok b] fetchNodeNT_ok [OF env fetched(2)] l by (auto simp: hooked_def)
  qed (use ok extends_refl in auto)
  show "r = None \<Longrightarrow> cs' = cs \<and> hooked cs b = None \<and> fetchNodeNT env (getChildHash n b) = None"
    by (cases rule: cases) (auto simp: hooked_def l)
  show "r = Some c \<Longrightarrow> hooked cs' b = Some c \<and> mem_ok (se_sha env) c \<and> mem_hash c = getChildHash n b"
  proof (cases rule: cases)
    case hooked
    then have "hooked cs b = Some c0" using l by (simp add: hooked_def)
    then show "r = Some c \<Longrightarrow> ?thesis" using hooked ok by (auto simp: mem_ok_Inner)
  next
    case fetched
    then show "r = Some c \<Longrightarrow> ?thesis" using fetchNodeNT_ok [OF env fetched(2)] l by (auto simp: hooked_def)
  qed simp
  show "length cs' = 16" by (cases rule: cases) (simp_all add: l)
  show "hooked cs' b' = hooked cs b'" if "b' \<noteq> b" for b' by (cases rule: cases) (use that in \<open>simp_all add: hooked_def l\<close>)
qed

text \<open>Replacing a hooked child by one that extends it.\<close>

lemma child_extends:
  assumes "mem_ok sha (MInner h n cs g)" "hooked cs b = Some c" "extends sha c c'"
  shows "extends sha (MInner h n cs g) (MInner h n (cs[b := Some c']) g)"
  by (rule hook_extends) (use assms in \<open>auto simp: mem_ok_Inner extends_def\<close>)

lemma known_loop_extends:
  "env_ok env \<Longrightarrow> mem_ok (se_sha env) treeNode \<Longrightarrow> mem_ok (se_sha env) p \<Longrightarrow>
    known_loop env nodeID treeNode cur p = Some (r, p', bad, got) \<Longrightarrow> extends (se_sha env) p p'"
proof (induction env nodeID treeNode cur p arbitrary: r p' bad got rule: known_loop.induct)
  case (2 env nodeID treeNode cur h n cs g)
  let ?b = "selectBranch cur (ni_id nodeID)"
  show ?case
  proof (cases "isFullBelow (se_generation env) (MInner h n cs g) \<or> \<not> ni_depth cur < ni_depth nodeID \<or> isEmptyBranch n ?b \<or>
      \<not> isLeafDepth (ni_depth cur + 1) \<and> se_touchIfExists env (getChildHash n ?b)")
    case True
    then have "p' = MInner h n cs g" using 2(5) by (auto simp: known_loop.simps(2) Let_def split: if_splits)
    then show ?thesis using 2(4) extends_refl by blast
  next
    case False
    then obtain childID where id: "getChildNodeID cur ?b = Some childID"
      using 2(5) by (auto simp: known_loop.simps(2) Let_def split: if_splits option.splits)
    obtain c cs' where d: "descend env n cs ?b = (c, cs')" by fastforce
    have b: "\<not> isEmptyBranch n ?b" using False by blast
    note dk = descend_ok [OF 2(2) 2(4) b d]
    have ok': "mem_ok (se_sha env) (MInner h n cs' g)" using dk(1) by (simp add: extends_def)
    show ?thesis
    proof (cases c)
      case None
      have l: "?b < length cs'" using dk(4) isEmptyBranch_bound [OF b] by simp
      have ex: "extends (se_sha env) (MInner h n cs g) (MInner h n (cs'[?b := Some treeNode]) g)"
        if "getChildHash n ?b = mem_hash treeNode"
        by (rule extends_trans [OF dk(1) hook_extends [OF ok' b 2(3)]])
          (use that dk(2) None in auto)
      have "cs' ! ?b = None" using dk(2) None l by (simp add: hooked_def)
      then show ?thesis
        using 2(5) False id d None dk(1) ex
        by (auto simp: known_loop.simps(2) Let_def canonicalizeChild_def split: if_splits)
    next
      case (Some c0)
      then obtain c' where rec: "known_loop env nodeID treeNode childID c0 = Some (r, c', bad, got)"
          "p' = MInner h n (cs'[?b := Some c']) g"
        using 2(5) False id d by (auto simp: known_loop.simps(2) Let_def)
      note c0 = dk(3) [OF Some]
      have "extends (se_sha env) c0 c'"
        using 2(1) [of ?b "getChildHash n ?b" childID c cs' c0] 2(2,3) False id d Some rec(1) c0 by auto
      from extends_trans [OF dk(1) child_extends [OF ok' _ this]] c0 show ?thesis unfolding rec(2) by blast
    qed
  qed
qed (simp_all add: extends_refl)

section \<open>Missing nodes\<close>

lemma mem_size [termination_simp]: "hooked cs b = Some c \<Longrightarrow> size c < Suc (size_list (size_option size) cs)"
  using size_list_estimation' [OF hooked_mem, of cs b c "size_option size (Some c)" "size_option size"] by simp

fun mem_missing :: "nat list \<Rightarrow> mem_node \<Rightarrow> (node_id \<times> uint256) set" where
  "mem_missing P (MLeaf h t i) = {}"
| "mem_missing P (MInner h n cs g) = (\<Union>b < 16.
     if isEmptyBranch n b then {}
     else case hooked cs b of
       None \<Rightarrow> {(path_id (P @ [b]), getChildHash n b)}
     | Some c \<Rightarrow> mem_missing (P @ [b]) c)"

definition missing_at :: "nat list \<Rightarrow> inner_node \<Rightarrow> mem_node option list \<Rightarrow> nat \<Rightarrow> (node_id \<times> uint256) set" where
  "missing_at P n cs b =
     (if isEmptyBranch n b then {}
      else case hooked cs b of
        None \<Rightarrow> {(path_id (P @ [b]), getChildHash n b)}
      | Some c \<Rightarrow> mem_missing (P @ [b]) c)"

lemma mem_missing_Inner: "mem_missing P (MInner h n cs g) = (\<Union>b < 16. missing_at P n cs b)"
  by (simp add: missing_at_def)

declare mem_missing.simps(2) [simp del]

lemma mem_missing_complete: "mem_ok sha p \<Longrightarrow> mem_missing P p = {} \<longleftrightarrow> mem_complete p"
proof (induction p arbitrary: P)
  case (MInner h n cs g)
  have IH: "mem_missing (P @ [b]) c = {} \<longleftrightarrow> mem_complete c" if "hooked cs b = Some c" for b c
    using MInner.IH [OF hooked_mem [OF that], of c] that MInner.prems by (auto simp: mem_ok_Inner)
  have m: "missing_at P n cs b = {} \<longleftrightarrow> isEmptyBranch n b \<or> (\<exists>c. hooked cs b = Some c \<and> mem_complete c)" for b
    using IH [of b] by (cases "hooked cs b") (auto simp: missing_at_def)
  have h: "b < 16 \<and> \<not> isEmptyBranch n b" if "hooked cs b = Some c" for b c using that MInner.prems by (auto simp: mem_ok_Inner)
  have "mem_missing P (MInner h n cs g) = {} \<longleftrightarrow> (\<forall>b < 16. missing_at P n cs b = {})"
    by (auto simp only: mem_missing_Inner lessThan_iff UN_iff set_eq_iff empty_iff)
  also have "\<dots> \<longleftrightarrow> mem_complete (MInner h n cs g)"
  proof
    assume a: "\<forall>b < 16. missing_at P n cs b = {}"
    have "mem_complete c" if "hooked cs b = Some c" for b c using a h [OF that] that m [of b] by auto
    moreover have "hooked cs b \<noteq> None" if "b < 16" "\<not> isEmptyBranch n b" for b using a that m [of b] by auto
    ultimately show "mem_complete (MInner h n cs g)" by (simp only: mem_complete_Inner) blast
  next
    assume c: "mem_complete (MInner h n cs g)"
    have "missing_at P n cs b = {}" if "b < 16" for b
      using c that unfolding mem_complete_Inner m by (cases "hooked cs b") blast+
    then show "\<forall>b < 16. missing_at P n cs b = {}" by blast
  qed
  finally show ?case .
qed simp

text \<open>What a walk adds to the list of missing nodes.\<close>

definition mn_add :: "missing_nodes \<Rightarrow> (node_id \<times> uint256) list \<Rightarrow> missing_nodes" where
  "mn_add mn new = mn\<lparr>mn_missingHashes := rev (map snd new) @ mn_missingHashes mn,
     mn_missingNodes := mn_missingNodes mn @ new, mn_max := mn_max mn - int (length new)\<rparr>"

definition reported :: "sync_env \<Rightarrow> missing_nodes \<Rightarrow> missing_nodes \<Rightarrow> (node_id \<times> uint256) set \<Rightarrow> bool" where
  "reported env mn mn' S \<longleftrightarrow> (\<exists>new. mn' = mn_add mn new \<and> set new \<subseteq> S \<and>
     distinct (map snd new) \<and> set (map snd new) \<inter> set (mn_missingHashes mn) = {} \<and>
     (\<forall>(i, h) \<in> set new. fetchNodeNT env h = None) \<and> (new = [] \<or> 0 \<le> mn_max mn'))"

lemma reported_refl: "reported env mn mn S"
  unfolding reported_def by (rule exI [of _ "[]"]) (simp add: mn_add_def)

lemma reported_mono: "reported env mn mn' S \<Longrightarrow> S \<subseteq> T \<Longrightarrow> reported env mn mn' T"
  unfolding reported_def by blast

lemma reported_trans:
  assumes "reported env mn mn' S" "reported env mn' mn'' T"
  shows "reported env mn mn'' (S \<union> T)"
proof -
  obtain new new' where n: "mn' = mn_add mn new" "set new \<subseteq> S" "distinct (map snd new)" "set (map snd new) \<inter> set (mn_missingHashes mn) = {}"
      "\<forall>(i, h) \<in> set new. fetchNodeNT env h = None" "new = [] \<or> 0 \<le> mn_max mn'"
    and n': "mn'' = mn_add mn' new'" "set new' \<subseteq> T" "distinct (map snd new')" "set (map snd new') \<inter> set (mn_missingHashes mn') = {}"
      "\<forall>(i, h) \<in> set new'. fetchNodeNT env h = None" "new' = [] \<or> 0 \<le> mn_max mn''"
    using assms unfolding reported_def by (elim exE conjE) (rule that)
  have "set (map snd new') \<inter> set (map snd new) = {}" "set (map snd new') \<inter> set (mn_missingHashes mn) = {}"
    using n'(4) n(1) by (auto simp: mn_add_def)
  moreover have "mn'' = mn_add mn (new @ new')" "new' = [] \<Longrightarrow> mn'' = mn'" using n(1) n'(1) by (simp_all add: mn_add_def)
  ultimately show ?thesis
    unfolding reported_def using n n' by (intro exI [of _ "new @ new'"]) (auto simp del: set_map)
qed

lemma reported_one:
  "h \<notin> set (mn_missingHashes mn) \<Longrightarrow> fetchNodeNT env h = None \<Longrightarrow> 0 < mn_max mn \<Longrightarrow> reported env mn (mn_missing i h mn) {(i, h)}"
  unfolding reported_def by (rule exI [of _ "[(i, h)]"]) (simp add: mn_add_def mn_missing_def)

section \<open>The walk\<close>

text \<open>An inner node hooked where only a leaf may be, below a node at depth \<open>d\<close>.\<close>

fun mem_deep :: "nat \<Rightarrow> mem_node \<Rightarrow> bool" where
  "mem_deep d (MLeaf h t i) \<longleftrightarrow> False"
| "mem_deep d (MInner h n cs g) \<longleftrightarrow> 64 \<le> d \<or> list_ex (case_option False (mem_deep (Suc d))) cs"

lemma mem_deep_Inner: "mem_deep d (MInner h n cs g) \<longleftrightarrow> 64 \<le> d \<or> (\<exists>b c. hooked cs b = Some c \<and> mem_deep (Suc d) c)"
proof -
  have "list_ex (case_option False (mem_deep (Suc d))) cs \<longleftrightarrow> (\<exists>c. Some c \<in> set cs \<and> mem_deep (Suc d) c)"
    by (auto simp: list_ex_iff split: option.splits)
  then show ?thesis by (simp only: mem_deep.simps mem_hooked) blast
qed

declare mem_deep.simps(2) [simp del]

text \<open>What the visit of one inner node guarantees.\<close>

definition visited :: "sync_env \<Rightarrow> nat list \<Rightarrow> mem_node \<Rightarrow> missing_nodes \<Rightarrow> mem_node \<Rightarrow> walk \<Rightarrow> bool" where
  "visited env P p mn p' w \<longleftrightarrow> extends (se_sha env) p p' \<and> reported env mn (wk_mn w) (mem_missing P p') \<and>
     (\<not> walk_stop w \<longrightarrow> wk_fullBelow w \<longrightarrow> mem_complete p') \<and>
     (\<not> wk_fullBelow w \<longrightarrow> mn_missingHashes (wk_mn w) \<noteq> []) \<and> (wk_invalid w \<longrightarrow> mem_deep (length P) p')"

text \<open>The same for the branches in \<open>done\<close> of the node at \<open>P\<close>, before its mark is set.\<close>

definition walked :: "sync_env \<Rightarrow> nat list \<Rightarrow> uint256 \<Rightarrow> inner_node \<Rightarrow> 32 word \<Rightarrow> mem_node option list \<Rightarrow> missing_nodes \<Rightarrow> nat set \<Rightarrow> walk \<Rightarrow> bool" where
  "walked env P h n g cs mn done w \<longleftrightarrow>
     extends (se_sha env) (MInner h n cs g) (MInner h n (wk_children w) g) \<and>
     reported env mn (wk_mn w) (\<Union>b\<in>done. missing_at P n (wk_children w) b) \<and>
     (\<not> walk_stop w \<longrightarrow> wk_fullBelow w \<longrightarrow> (\<forall>b\<in>done. missing_at P n (wk_children w) b = {})) \<and>
     (\<not> wk_fullBelow w \<longrightarrow> mn_missingHashes (wk_mn w) \<noteq> []) \<and>
     (wk_invalid w \<longrightarrow> (\<exists>b c. hooked (wk_children w) b = Some c \<and> mem_deep (Suc (length P)) c))"

lemma reported_hashes: "reported env mn mn' S \<Longrightarrow> mn_missingHashes mn \<noteq> [] \<Longrightarrow> mn_missingHashes mn' \<noteq> []"
  by (auto simp: reported_def mn_add_def)

lemma missing_at_other:
  "(\<And>b'. b' \<noteq> b \<Longrightarrow> hooked cs' b' = hooked cs b') \<Longrightarrow> b \<notin> S \<Longrightarrow> b' \<in> S \<Longrightarrow> missing_at P n cs' b' = missing_at P n cs b'"
  unfolding missing_at_def by metis

text \<open>One more branch, given what it leaves there.\<close>

lemma walked_step:
  assumes w: "walked env P h n g cs mn done w" and b: "b \<notin> done" and run: "\<not> walk_stop w"
    and ext: "extends (se_sha env) (MInner h n (wk_children w) g) (MInner h n (wk_children w') g)"
    and other: "\<And>b'. b' \<noteq> b \<Longrightarrow> hooked (wk_children w') b' = hooked (wk_children w) b'"
    and rep: "reported env (wk_mn w) (wk_mn w') (missing_at P n (wk_children w') b)"
    and full: "\<not> walk_stop w' \<Longrightarrow> wk_fullBelow w' \<Longrightarrow> wk_fullBelow w \<and> missing_at P n (wk_children w') b = {}"
    and part: "\<not> wk_fullBelow w' \<Longrightarrow> \<not> wk_fullBelow w \<or> mn_missingHashes (wk_mn w') \<noteq> []"
    and deep: "wk_invalid w' \<Longrightarrow> \<exists>c. hooked (wk_children w') b = Some c \<and> mem_deep (Suc (length P)) c"
  shows "walked env P h n g cs mn (insert b done) w'"
proof -
  let ?cs = "wk_children w" and ?cs' = "wk_children w'"
  have same: "missing_at P n ?cs' b' = missing_at P n ?cs b'" if "b' \<in> done" for b'
    by (rule missing_at_other [OF other b that])
  have u: "(\<Union>b\<in>done. missing_at P n ?cs' b) = (\<Union>b\<in>done. missing_at P n ?cs b)"
    by (rule SUP_cong [OF refl same])
  have ins: "(\<Union>b\<in>insert b done. missing_at P n ?cs' b) = (\<Union>b\<in>done. missing_at P n ?cs b) \<union> missing_at P n ?cs' b"
    using u by (simp add: Un_commute)
  have r: "reported env mn (wk_mn w) (\<Union>b\<in>done. missing_at P n ?cs b)" using w by (simp only: walked_def)
  have "reported env mn (wk_mn w') (\<Union>b\<in>insert b done. missing_at P n ?cs' b)"
    unfolding ins by (rule reported_trans [OF r rep])
  moreover have "extends (se_sha env) (MInner h n cs g) (MInner h n ?cs' g)"
    using w ext extends_trans unfolding walked_def by blast
  moreover have "\<forall>b'\<in>insert b done. missing_at P n ?cs' b' = {}" if "\<not> walk_stop w'" "wk_fullBelow w'"
    using full [OF that] w run same unfolding walked_def by blast
  moreover have "mn_missingHashes (wk_mn w') \<noteq> []" if "\<not> wk_fullBelow w'"
    using part [OF that] w reported_hashes [OF rep] unfolding walked_def by blast
  ultimately show ?thesis using deep unfolding walked_def by blast
qed

lemma walk_stop_update [simp]:
  "walk_stop (w\<lparr>wk_fullBelow := f\<rparr>) = walk_stop w" "walk_stop (w\<lparr>wk_children := cs\<rparr>) = walk_stop w"
  by (simp_all add: walk_stop_def)

lemma full_below_complete:
  "mem_ok sha c \<Longrightarrow> generation \<noteq> 0 \<Longrightarrow> \<not> (mem_isInner c \<and> \<not> isFullBelow generation c) \<Longrightarrow> mem_complete c"
  by (cases c) (auto simp: mem_ok_Inner)

lemma gmn_branch_ok:
  assumes env: "env_ok env" and w: "walked env P h n g cs mn done w" and b: "b \<notin> done" and run: "\<not> walk_stop w"
    and P: "path_ok P" "length P < 64"
    and visit: "\<And>c mn'. length P + 1 < 64 \<Longrightarrow> b < 16 \<Longrightarrow> mem_ok (se_sha env) c \<Longrightarrow> mem_isInner c \<Longrightarrow> 0 < mn_max mn' \<Longrightarrow>
      \<exists>c' w'. visit (path_id (P @ [b])) c mn' = Some (c', w') \<and> visited env (P @ [b]) c mn' c' w'"
  shows "\<exists>w'. gmn_branch visit env (path_id P) n b w = Some w' \<and> walked env P h n g cs mn (insert b done) w'"
proof -
  let ?sha = "se_sha env" and ?cs = "wk_children w" and ?h = "getChildHash n b"
  note step = walked_step [OF w b run]
  have valid: "\<not> wk_invalid w" using run by (simp add: walk_stop_def)
  have ok: "mem_ok ?sha (MInner h n ?cs g)" using w by (simp add: walked_def extends_def)
  show ?thesis
  proof (cases "isEmptyBranch n b \<or> ?h \<in> set (mn_missingHashes (wk_mn w))")
    case True
    show ?thesis
    proof (cases "isEmptyBranch n b")
      case e: True
      have "walked env P h n g cs mn (insert b done) w"
        by (rule step) (use e ok valid in \<open>auto simp: extends_refl reported_refl missing_at_def\<close>)
      then show ?thesis using e by (simp add: gmn_branch_def)
    next
      case e: False
      have "walked env P h n g cs mn (insert b done) (w\<lparr>wk_fullBelow := False\<rparr>)"
        by (rule step) (use e True ok valid in \<open>auto simp: extends_refl reported_refl\<close>)
      then show ?thesis using e True by (simp add: gmn_branch_def Let_def)
    qed
  next
    case False
    then have ne: "\<not> isEmptyBranch n b" and new: "?h \<notin> set (mn_missingHashes (wk_mn w))" by simp_all
    have b16: "b < 16" by (rule isEmptyBranch_bound [OF ne])
    note id = path_id_child [OF P(1) b16 P(2)]
    have depth: "isLeafDepth (ni_depth (path_id P) + 1) \<longleftrightarrow> \<not> length P + 1 < 64"
      using path_id_simps(1) [OF P(1)] by (auto simp: isLeafDepth_def kLeafDepth_def)
    obtain r cs' where d: "descend env n ?cs b = (r, cs')" by fastforce
    note dk = descend_ok [OF env ok ne d]
    have ok': "mem_ok ?sha (MInner h n cs' g)" using dk(1) by (simp add: extends_def)
    show ?thesis
    proof (cases r)
      case None
      let ?w = "w\<lparr>wk_children := cs', wk_fullBelow := False, wk_mn := mn_missing (path_id (P @ [b])) ?h (wk_mn w)\<rparr>"
      note n0 = dk(2) [OF None]
      have "missing_at P n cs' b = {(path_id (P @ [b]), ?h)}" using ne n0 by (simp add: missing_at_def)
      then have "walked env P h n g cs mn (insert b done) ?w"
        by (intro step) (use dk(1,5) n0 reported_one [OF new] run valid in \<open>auto simp: mn_missing_def walk_stop_def\<close>)
      then show ?thesis using ne new d None id by (simp add: gmn_branch_def descendAsync_eq Let_def)
    next
      case (Some c)
      note c = dk(3) [OF Some]
      have at: "missing_at P n cs' b = mem_missing (P @ [b]) c" using ne c by (simp add: missing_at_def)
      consider (deep) "mem_isInner c" "\<not> length P + 1 < 64" | (enter) "mem_isInner c" "length P + 1 < 64" "\<not> isFullBelow (se_generation env) c"
        | (full) "\<not> (mem_isInner c \<and> \<not> length P + 1 < 64)" "\<not> (mem_isInner c \<and> \<not> isFullBelow (se_generation env) c)" by blast
      then show ?thesis
      proof cases
        case deep
        let ?w = "w\<lparr>wk_children := cs', wk_invalid := True\<rparr>"
        have "walked env P h n g cs mn (insert b done) ?w"
          by (rule step) (use dk(1,5) deep c in \<open>auto simp: reported_refl walk_stop_def mem_deep_Inner elim: mem_isInner.elims\<close>)
        then show ?thesis using ne new d Some deep depth by (simp add: gmn_branch_def descendAsync_eq Let_def)
      next
        case full
        have "mem_missing (P @ [b]) c = {}"
          using full_below_complete [OF _ env_okD(1) [OF env] full(2)] mem_missing_complete c by blast
        then have "walked env P h n g cs mn (insert b done) (w\<lparr>wk_children := cs'\<rparr>)"
          by (intro step) (use dk(1,5) at valid in \<open>auto simp: reported_refl\<close>)
        then show ?thesis using ne new d Some full depth by (auto simp: gmn_branch_def descendAsync_eq Let_def)
      next
        case enter
        have "0 < mn_max (wk_mn w)" using run by (simp add: walk_stop_def)
        then obtain c' w' where v: "visit (path_id (P @ [b])) c (wk_mn w) = Some (c', w')" "visited env (P @ [b]) c (wk_mn w) c' w'"
          using visit [OF enter(2) b16 _ enter(1)] c by blast
        let ?w = "\<lparr>wk_children = cs'[b := Some c'], wk_fullBelow = wk_fullBelow w \<and> wk_fullBelow w', wk_mn = wk_mn w', wk_invalid = wk_invalid w'\<rparr>"
        have l: "b < length cs'" using dk(4) b16 by simp
        have at': "missing_at P n (cs'[b := Some c']) b = mem_missing (P @ [b]) c'" using ne by (simp add: missing_at_def hooked_update [OF l])
        have stop: "walk_stop ?w = walk_stop w'" by (simp add: walk_stop_def)
        have ce: "extends ?sha c c'" using v(2) by (simp add: visited_def)
        then have c'ok: "mem_ok ?sha c'" by (simp add: extends_def)
        have "walked env P h n g cs mn (insert b done) ?w"
        proof (rule step)
          show "extends ?sha (MInner h n ?cs g) (MInner h n (wk_children ?w) g)"
            using extends_trans [OF dk(1) child_extends [OF ok' _ ce]] c by simp
          show "hooked (wk_children ?w) b' = hooked ?cs b'" if "b' \<noteq> b" for b' using that dk(5) by (simp add: hooked_update [OF l])
          show "reported env (wk_mn w) (wk_mn ?w) (missing_at P n (wk_children ?w) b)" using v(2) at' by (simp add: visited_def)
          show "wk_fullBelow w \<and> missing_at P n (wk_children ?w) b = {}" if "\<not> walk_stop ?w" "wk_fullBelow ?w"
            using that v(2) at' mem_missing_complete [OF c'ok] stop by (simp add: visited_def)
          show "\<not> wk_fullBelow w \<or> mn_missingHashes (wk_mn ?w) \<noteq> []" if "\<not> wk_fullBelow ?w"
            using that v(2) by (auto simp: visited_def)
          show "\<exists>c. hooked (wk_children ?w) b = Some c \<and> mem_deep (Suc (length P)) c" if "wk_invalid ?w"
            using that v(2) by (simp add: visited_def hooked_update [OF l])
        qed
        then show ?thesis using ne new d Some enter depth id v(1) by (simp add: gmn_branch_def descendAsync_eq Let_def)
      qed
    qed
  qed
qed

lemma gmn_branches_ok:
  assumes env: "env_ok env" and P: "path_ok P" "length P < 64"
    and visit: "\<And>b c mn'. length P + 1 < 64 \<Longrightarrow> b < 16 \<Longrightarrow> mem_ok (se_sha env) c \<Longrightarrow> mem_isInner c \<Longrightarrow> 0 < mn_max mn' \<Longrightarrow>
      \<exists>c' w'. visit (path_id (P @ [b])) c mn' = Some (c', w') \<and> visited env (P @ [b]) c mn' c' w'"
  shows "walked env P h n g cs mn done w \<Longrightarrow> distinct bs \<Longrightarrow> done \<inter> set bs = {} \<Longrightarrow>
    \<exists>w' done'. gmn_branches visit env (path_id P) n bs w = Some w' \<and> walked env P h n g cs mn done' w' \<and>
      done' \<subseteq> done \<union> set bs \<and> (\<not> walk_stop w' \<longrightarrow> done' = done \<union> set bs)"
proof (induction bs arbitrary: "done" w)
  case (Cons b bs)
  show ?case
  proof (cases "walk_stop w")
    case False
    obtain w1 where w1: "gmn_branch visit env (path_id P) n b w = Some w1" "walked env P h n g cs mn (insert b done) w1"
      using gmn_branch_ok [where visit = visit and b = b, OF env Cons.prems(1) _ False P visit] Cons.prems(3) by auto
    have "distinct bs" "insert b done \<inter> set bs = {}" using Cons.prems(2,3) by auto
    from Cons.IH [OF w1(2) this] show ?thesis using w1(1) False by auto
  qed (use Cons.prems in auto)
qed auto

lemma gmn_order_rotate: "gmn_order first = rotate first [0..<16]"
proof (rule nth_equalityI)
  fix i assume "i < length (gmn_order first)"
  then have i: "i < 16" by (simp add: gmn_order_def kBranchFactor_def)
  have "gmn_order first ! i = (first + i) mod 16" unfolding gmn_order_def kBranchFactor_def using i by (subst nth_map_upt) simp_all
  also have "\<dots> = rotate first [0..<16] ! i" using i by (subst nth_rotate) (simp_all del: upt_rec_numeral)
  finally show "gmn_order first ! i = rotate first [0..<16] ! i" .
qed (simp add: gmn_order_def kBranchFactor_def)

lemma gmn_order_all: "distinct (gmn_order first)" "set (gmn_order first) = {..<16}"
  unfolding gmn_order_rotate by (simp_all only: distinct_rotate distinct_upt set_rotate atLeast_upt)

lemma mem_mark:
  "mem_complete (MInner h n cs g) = mem_complete (MInner h n cs g')" "mem_missing P (MInner h n cs g) = mem_missing P (MInner h n cs g')"
  by (simp_all only: mem_complete_Inner mem_missing_Inner)

lemma gmnProcessNodes_ok:
  "env_ok env \<Longrightarrow> mem_ok (se_sha env) p \<Longrightarrow> mem_isInner p \<Longrightarrow> path_ok P \<Longrightarrow> length P + levels = 64 \<Longrightarrow> 0 < levels \<Longrightarrow> 0 < mn_max mn \<Longrightarrow>
   \<exists>p' w. gmnProcessNodes levels env (path_id P) p mn = Some (p', w) \<and> visited env P p mn p' w"
proof (induction levels arbitrary: P p mn)
  case (Suc k)
  obtain h n cs g where p: "p = MInner h n cs g" using Suc.prems(3) by (cases p) auto
  have len: "length P < 64" using Suc.prems(5) by simp
  let ?w0 = "\<lparr>wk_children = cs, wk_fullBelow = True, wk_mn = mn, wk_invalid = False\<rparr>"
  have visit: "\<exists>c' w'. gmnProcessNodes k env (path_id (P @ [b])) c mn' = Some (c', w') \<and> visited env (P @ [b]) c mn' c' w'"
    if "length P + 1 < 64" "b < 16" "mem_ok (se_sha env) c" "mem_isInner c" "0 < mn_max mn'" for b c mn'
    by (rule Suc.IH [OF Suc.prems(1) that(3,4)]) (use that Suc.prems in \<open>auto simp: path_ok_def\<close>)
  have w0: "walked env P h n g cs mn {} ?w0" using Suc.prems(2) p by (simp add: walked_def extends_refl reported_refl)
  from gmn_branches_ok [where visit = "gmnProcessNodes k env", OF Suc.prems(1,4) len visit w0 gmn_order_all(1) [of "se_randInt env (path_id P)"]]
  obtain w done' where w: "gmn_branches (gmnProcessNodes k env) env (path_id P) n (gmn_order (se_randInt env (path_id P))) ?w0 = Some w"
      "walked env P h n g cs mn done' w" "done' \<subseteq> {..<16}" "\<not> walk_stop w \<longrightarrow> done' = {..<16}"
    unfolding gmn_order_all(2) by auto
  define g' where "g' = (if \<not> walk_stop w \<and> wk_fullBelow w then se_generation env else g)"
  let ?p = "MInner h n (wk_children w) g'"
  have ext: "extends (se_sha env) p (MInner h n (wk_children w) g)" using w(2) p unfolding walked_def by blast
  then have ok: "mem_ok (se_sha env) (MInner h n (wk_children w) g)" unfolding extends_def by blast
  have mark: "mem_complete ?p = mem_complete (MInner h n (wk_children w) g)" by (rule mem_mark)
  have full: "mem_complete ?p" if "\<not> walk_stop w" "wk_fullBelow w"
  proof -
    have "mem_missing P (MInner h n (wk_children w) g) = {}" using w(2,4) that by (simp add: walked_def mem_missing_Inner)
    then show ?thesis unfolding mark using mem_missing_complete [OF ok] by blast
  qed
  have "mem_ok (se_sha env) ?p"
  proof (cases "\<not> walk_stop w \<and> wk_fullBelow w")
    case True
    then have "mem_complete ?p" using full by blast
    then show ?thesis using ok unfolding mem_ok_Inner by blast
  qed (use ok g'_def in auto)
  then have "extends (se_sha env) p ?p" using ext mark unfolding extends_def p by simp
  moreover have "reported env mn (wk_mn w) (mem_missing P ?p)"
    by (rule reported_mono [of _ _ _ "\<Union>b\<in>done'. missing_at P n (wk_children w) b"])
      (use w(2,3) in \<open>auto simp: walked_def mem_missing_Inner\<close>)
  ultimately have "visited env P p mn ?p w" using full w(2) unfolding visited_def walked_def mem_deep_Inner by blast
  then show ?case using p w(1) g'_def by simp
qed simp

section \<open>The map\<close>

lemma node_id_root_path: "node_id_root = path_id []"
  by (simp add: path_id_root)

text \<open>
  What a map that is being acquired satisfies: its nodes are linked by their hashes. The root is the
  empty node until a root has been added.
\<close>

definition sync_ok :: "digest \<Rightarrow> sync_map \<Rightarrow> bool" where
  "sync_ok sha m \<longleftrightarrow> mem_ok sha (sm_root m)"

lemma clearSynching_simps [simp]: "sm_root (clearSynching m) = sm_root m" "isValid (clearSynching m) = isValid m"
  by (simp_all add: clearSynching_def isValid_def)

lemma setInvalid_simps [simp]: "sm_root (setInvalid m) = sm_root m" "\<not> isValid (setInvalid m)"
  by (simp_all add: setInvalid_def trySetState_def isValid_def)

lemma getMissingNodes_spec:
  assumes env: "env_ok env" and ok: "sync_ok (se_sha env) m" and max: "0 < k"
  shows "\<exists>L m'. getMissingNodes env k m = Some (L, m') \<and> extends (se_sha env) (sm_root m) (sm_root m') \<and>
    set L \<subseteq> mem_missing [] (sm_root m') \<and> distinct (map snd L) \<and> int (length L) \<le> k \<and>
    (\<forall>(i, h) \<in> set L. fetchNodeNT env h = None) \<and>
    (isValid m' \<longrightarrow> isValid m \<and> (L = [] \<longleftrightarrow> mem_complete (sm_root m')) \<and> sm_state m' = (if L = [] then sm_state (clearSynching m) else sm_state m)) \<and>
    (\<not> isValid m' \<longrightarrow> \<not> isValid m \<or> mem_deep 0 (sm_root m'))"
proof (cases "\<not> isValid m \<or> \<not> mem_isInner (sm_root m) \<or> isFullBelow (se_generation env) (sm_root m)")
  case True
  have "mem_complete (sm_root m)" if "isValid m"
    using full_below_complete [OF _ env_okD(1) [OF env], of "se_sha env" "sm_root m"] ok True that by (auto simp: sync_ok_def)
  then show ?thesis using True ok max by (auto simp: getMissingNodes_def sync_ok_def extends_refl)
next
  case False
  let ?mn = "\<lparr>mn_max = k, mn_missingNodes = [], mn_missingHashes = []\<rparr>"
  obtain p' w where v: "gmnProcessNodes kLeafDepth env node_id_root (sm_root m) ?mn = Some (p', w)" "visited env [] (sm_root m) ?mn p' w"
    using gmnProcessNodes_ok [OF env, of "sm_root m" "[]" 64 ?mn] ok False max
    by (auto simp: kLeafDepth_def node_id_root_path sync_ok_def path_ok_def)
  obtain new where new: "wk_mn w = mn_add ?mn new" "set new \<subseteq> mem_missing [] p'" "distinct (map snd new)" "\<forall>(i, h) \<in> set new. fetchNodeNT env h = None"
      "new = [] \<or> 0 \<le> mn_max (wk_mn w)"
    using v(2) unfolding visited_def reported_def by (elim conjE exE) (rule that)
  have ext: "extends (se_sha env) (sm_root m) p'" using v(2) by (simp add: visited_def)
  then have iff: "mem_missing [] p' = {} \<longleftrightarrow> mem_complete p'" using mem_missing_complete [of "se_sha env" p'] by (simp add: extends_def)
  have len: "int (length new) \<le> k" using new(1,5) max by (auto simp: mn_add_def)
  have L: "mn_missingNodes (wk_mn w) = new" and hs: "mn_missingHashes (wk_mn w) = [] \<longleftrightarrow> new = []" using new(1) by (auto simp: mn_add_def)
  have none: "new = [] \<longleftrightarrow> mem_complete p'" if "\<not> wk_invalid w"
  proof
    assume "new = []"
    then have "\<not> walk_stop w" "wk_fullBelow w" using that new(1) max v(2) hs by (auto simp: walk_stop_def mn_add_def visited_def)
    then show "mem_complete p'" using v(2) by (simp add: visited_def)
  next
    assume "mem_complete p'"
    then show "new = []" using new(2) iff by simp
  qed
  have "mn_max (wk_mn w) \<le> 0 \<Longrightarrow> new \<noteq> []" using new(1) max by (auto simp: mn_add_def)
  moreover have "wk_invalid w \<Longrightarrow> mem_deep 0 p'" using v(2) by (simp add: visited_def)
  ultimately show ?thesis
    using v(1) False ext new len L none
    by (cases "wk_invalid w") (auto simp: getMissingNodes_def Let_def clearSynching_def isValid_def setInvalid_def trySetState_def)
qed

end
