(* ===== verification/SHAMapSync_Sound.thy ===== *)
theory SHAMapSync_Sound
  imports SHAMapSync_Correct
begin

text \<open>
  What a synchronised map holds in terms of the tree its root hash commits to. A complete map has the
  items of that tree; if moreover no inner node names a branch with hash zero it is that tree; and a
  map that is called invalid has a root hash that commits to no tree. The exception is a digest
  collision between an encoding in the map and one of a node of the tree.
\<close>

section \<open>Items and encodings\<close>

fun mem_items :: "mem_node \<Rightarrow> shamap_item list" where
  "mem_items (MLeaf h t i) = [i]"
| "mem_items (MInner h n cs g) = concat (map (case_option [] mem_items) cs)"

fun mem_encodings :: "mem_node \<Rightarrow> byte list list" where
  "mem_encodings (MLeaf h t i) = [serializeWithPrefix (FLeaf t i)]"
| "mem_encodings (MInner h n cs g) = serializeWithPrefix (FInner n) # concat (map (case_option [] mem_encodings) cs)"

fun mem_tree :: "mem_node \<Rightarrow> tree" where
  "mem_tree (MLeaf h t i) = SLeaf t i"
| "mem_tree (MInner h n cs g) = SInner (map (map_option mem_tree) cs)"

text \<open>No inner node names a branch whose hash is zero.\<close>

fun mem_clean :: "mem_node \<Rightarrow> bool" where
  "mem_clean (MLeaf h t i) \<longleftrightarrow> True"
| "mem_clean (MInner h n cs g) \<longleftrightarrow>
     list_all (\<lambda>b. \<not> isEmptyBranch n b \<longrightarrow> getChildHash n b \<noteq> zero256) [0..<16] \<and> list_all (case_option True mem_clean) cs"

lemma mem_clean_Inner:
  "mem_clean (MInner h n cs g) \<longleftrightarrow>
     (\<forall>b. \<not> isEmptyBranch n b \<longrightarrow> getChildHash n b \<noteq> zero256) \<and> (\<forall>b c. hooked cs b = Some c \<longrightarrow> mem_clean c)"
  using isEmptyBranch_bound [of n] by (simp only: mem_clean.simps all_hooked list_all_upt) blast

declare mem_clean.simps(2) [simp del]

lemma mem_encodings_self: "serializeWithPrefix (mem_flat p) \<in> set (mem_encodings p)"
  by (cases p) simp_all

lemma mem_encodings_child: "hooked cs b = Some c \<Longrightarrow> set (mem_encodings c) \<subseteq> set (mem_encodings (MInner h n cs g))"
  using hooked_mem [of cs b c] by force

declare mem_encodings.simps(2) [simp del]

definition mem_nonzero :: "digest \<Rightarrow> mem_node \<Rightarrow> bool" where
  "mem_nonzero sha p \<longleftrightarrow> list_all (\<lambda>x. sha x \<noteq> zero256) (mem_encodings p)"

lemma mem_nonzero_child: "mem_nonzero sha (MInner h n cs g) \<Longrightarrow> hooked cs b = Some c \<Longrightarrow> mem_nonzero sha c"
  using mem_encodings_child [of cs b c h n g] by (auto simp: mem_nonzero_def list_all_iff)

lemma mem_hash_sha:
  assumes "mem_ok sha p"
  shows "mem_hash p = sha (serializeWithPrefix (mem_flat p)) \<or> mem_hash p = zero256 \<and> (\<exists>h n cs g. p = MInner h n cs g \<and> in_isBranch n = 0)"
  using assms by (cases p) (auto simp: mem_ok_Inner inner_hash_ok_def leaf_hash)

lemma zero_hash_items:
  assumes ok: "mem_ok sha p" and nz: "mem_nonzero sha p" and z: "mem_hash p = zero256"
  shows "mem_items p = []"
proof -
  have "sha (serializeWithPrefix (mem_flat p)) \<noteq> zero256"
    using nz mem_encodings_self [of p] by (auto simp: mem_nonzero_def list_all_iff)
  then obtain h n cs g where p: "p = MInner h n cs g" "in_isBranch n = 0" using mem_hash_sha [OF ok] z by auto
  then have "hooked cs b \<noteq> Some c" for b c using ok by (auto simp: mem_ok_Inner isEmptyBranch_def)
  then have "Some c \<notin> set cs" for c by (simp add: mem_hooked)
  then show ?thesis using p(1) by (auto split: option.splits)
qed

section \<open>A node against the tree its hash commits to\<close>

text \<open>The tree and the digest that the acquired map is compared with.\<close>

definition commits :: "digest \<Rightarrow> SHAMapNodeType \<Rightarrow> nat list \<Rightarrow> tree \<Rightarrow> mem_node \<Rightarrow> bool" where
  "commits sha ty P t p \<longleftrightarrow> (\<forall>x. uint256_ok (sha x)) \<and> tree_wf ty P t \<and> tree_items t \<noteq> [] \<and> items_ok sha ty t \<and> nonzero sha t \<and>
     mem_ok sha p \<and> mem_hash p = tree_hash sha t \<and> \<not> collision sha (preimages sha t) (mem_encodings p)"

lemma commits_flat:
  assumes "commits sha ty P t p"
  shows "serializeWithPrefix (mem_flat p) = serializeWithPrefix (flatten sha t)" "mem_hash p \<noteq> zero256"
proof -
  note c = assms [unfolded commits_def]
  have t: "tree_hash sha t = sha (serializeWithPrefix (flatten sha t))" "serializeWithPrefix (flatten sha t) \<in> set (preimages sha t)"
    using tree_hash_sha [of ty P t sha] c by simp_all
  then show nz: "mem_hash p \<noteq> zero256" using c by (auto simp: nonzero_def list_all_iff)
  have "mem_hash p = sha (serializeWithPrefix (mem_flat p))" using mem_hash_sha [of sha p] c nz by blast
  then show "serializeWithPrefix (mem_flat p) = serializeWithPrefix (flatten sha t)"
    using c t mem_encodings_self [of p] by (fastforce simp: collision_def list_ex_iff)
qed

lemma commits_leaf:
  assumes "commits sha ty P t (MLeaf h s i)"
  shows "t = SLeaf s i"
proof -
  note c = assms [unfolded commits_def]
  have "flat_ok sha (FLeaf s i)" using c by simp
  moreover have "flat_ok sha (flatten sha t)"
    by (rule flatten_ok [of ty P]) (use c in \<open>auto simp: nonzero_def list_all_iff\<close>)
  ultimately have "flatten sha t = FLeaf s i" using commits_flat(1) [OF assms] serializeWithPrefix_inj by fastforce
  then show ?thesis by (cases t) auto
qed

lemma commits_inner:
  assumes "commits sha ty P t (MInner h n cs g)"
  obtains ts where "t = SInner ts" "length ts = 16" "length P < 64"
    "\<And>b. b < 16 \<Longrightarrow> getChildHash n b = (case child ts b of None \<Rightarrow> zero256 | Some c \<Rightarrow> tree_hash sha c)"
proof -
  note c = assms [unfolded commits_def]
  have "serializeWithPrefix (flatten sha t) = serializeWithPrefix (FInner n)" using commits_flat(1) [OF assms] by simp
  then obtain ts where ts: "t = SInner ts" using prefix_differs by (cases t) (blast, metis flatten.simps(1))
  have l: "length ts = 16" "length P < 64" using c ts by (simp_all add: tree_wf_Inner)
  have "getChildHash n b = (case child ts b of None \<Rightarrow> zero256 | Some c \<Rightarrow> tree_hash sha c)" if b: "b < 16" for b
  proof -
    have "getChildHash n b = getChildHash (inner_of (map (map_option (tree_hash sha)) ts)) b"
      by (rule iterChildren_inj [OF _ flatten_shape [OF _ l(1)] _ b])
        (use c commits_flat(1) [OF assms] ts in \<open>simp_all add: mem_ok_Inner inner_serializeWithPrefix_def\<close>)
    then show ?thesis by (simp add: flatten_child [OF l(1) b])
  qed
  with ts l show thesis by (rule that)
qed

lemma commits_child:
  assumes c: "commits sha ty P (SInner ts) (MInner h n cs g)" and k: "hooked cs b = Some p" "child ts b = Some t"
    and hash: "\<And>b. b < 16 \<Longrightarrow> getChildHash n b = (case child ts b of None \<Rightarrow> zero256 | Some c \<Rightarrow> tree_hash sha c)"
  shows "commits sha ty (P @ [b]) t p"
proof -
  note c' = c [unfolded commits_def]
  note w = tree_wf_child [of ty P ts b t]
  have p: "mem_ok sha p" "mem_hash p = getChildHash n b" "b < 16" using c' k(1) by (auto simp: mem_ok_Inner)
  have "\<not> collision sha (preimages sha t) (mem_encodings p)"
    using c' collision_mono [of sha _ _ "preimages sha (SInner ts)" "mem_encodings (MInner h n cs g)", OF _ preimages_child [OF k(2)] mem_encodings_child [OF k(1)]]
    by blast
  then show ?thesis
    unfolding commits_def using c' k w p hash [OF p(3)] compact_items items_ok_child nonzero_child by auto
qed

lemma commits_child_nonzero:
  assumes "commits sha ty P (SInner ts) p" "child ts b = Some t"
  shows "tree_hash sha t \<noteq> zero256"
proof -
  note c = assms(1) [unfolded commits_def]
  have "tree_wf ty (P @ [b]) t" "tree_items t \<noteq> []" using tree_wf_child [of ty P ts b t] c assms(2) compact_items by auto
  from tree_hash_sha [OF this, of sha] show ?thesis
    using nonzero_child [of sha ts b t] c assms(2) by (auto simp: nonzero_def list_all_iff)
qed

lemma hooked_nth: "length cs = 16 \<Longrightarrow> b < 16 \<Longrightarrow> hooked cs b = cs ! b"
  by (simp add: hooked_def)

lemma child_nth: "length ts = 16 \<Longrightarrow> b < 16 \<Longrightarrow> child ts b = ts ! b"
  by (simp add: child_def)

lemma synced_items: "commits sha ty P t p \<Longrightarrow> mem_complete p \<Longrightarrow> mem_nonzero sha p \<Longrightarrow> mem_items p = tree_items t"
proof (induction p arbitrary: P t)
  case (MInner h n cs g)
  obtain ts where ts: "t = SInner ts" "length ts = 16"
    and hash: "\<And>b. b < 16 \<Longrightarrow> getChildHash n b = (case child ts b of None \<Rightarrow> zero256 | Some c \<Rightarrow> tree_hash sha c)"
    using commits_inner [OF MInner.prems(1)] by metis
  have l: "length cs = 16" using MInner.prems(1) by (simp add: commits_def mem_ok_Inner)
  have "case_option [] mem_items (hooked cs b) = case_option [] tree_items (child ts b)" if b: "b < 16" for b
  proof (cases "hooked cs b")
    case None
    then have "isEmptyBranch n b" using MInner.prems(2) b unfolding mem_complete_Inner by blast
    then have "child ts b = None"
      using hash [OF b] commits_child_nonzero [OF MInner.prems(1) [unfolded ts(1)], of b] by (cases "child ts b") (auto simp: getChildHash_def)
    then show ?thesis using None by simp
  next
    case (Some c)
    have ok: "mem_ok sha c" "mem_hash c = getChildHash n b" using MInner.prems(1) Some by (auto simp: commits_def mem_ok_Inner)
    show ?thesis
    proof (cases "child ts b")
      case None
      then show ?thesis using zero_hash_items [OF ok(1) mem_nonzero_child [OF MInner.prems(3) Some]] ok(2) hash [OF b] Some by simp
    next
      case t: (Some t')
      have "mem_complete c" using MInner.prems(2) Some unfolding mem_complete_Inner by blast
      then have "mem_items c = tree_items t'"
        using MInner.IH [OF hooked_mem [OF Some], of c "P @ [b]" t'] commits_child [OF MInner.prems(1) [unfolded ts(1)] Some t hash]
          mem_nonzero_child [OF MInner.prems(3) Some] by simp
      then show ?thesis using Some t by simp
    qed
  qed
  then have "map (case_option [] mem_items) cs = map (case_option [] tree_items) ts"
    using l ts(2) by (intro nth_equalityI) (simp_all add: hooked_nth [OF l] child_nth [OF ts(2)])
  then show ?case using ts(1) by (simp add: tree_items.simps)
next
  case (MLeaf h s i)
  then show ?case using commits_leaf by fastforce
qed

lemma synced_tree: "commits sha ty P t p \<Longrightarrow> mem_complete p \<Longrightarrow> mem_clean p \<Longrightarrow> mem_tree p = t"
proof (induction p arbitrary: P t)
  case (MInner h n cs g)
  obtain ts where ts: "t = SInner ts" "length ts = 16"
    and hash: "\<And>b. b < 16 \<Longrightarrow> getChildHash n b = (case child ts b of None \<Rightarrow> zero256 | Some c \<Rightarrow> tree_hash sha c)"
    using commits_inner [OF MInner.prems(1)] by metis
  have l: "length cs = 16" using MInner.prems(1) by (simp add: commits_def mem_ok_Inner)
  have "map_option mem_tree (hooked cs b) = child ts b" if b: "b < 16" for b
  proof (cases "hooked cs b")
    case None
    then have "isEmptyBranch n b" using MInner.prems(2) b unfolding mem_complete_Inner by blast
    then show ?thesis
      using None hash [OF b] commits_child_nonzero [OF MInner.prems(1) [unfolded ts(1)], of b] by (cases "child ts b") (auto simp: getChildHash_def)
  next
    case (Some c)
    have "\<not> isEmptyBranch n b" using MInner.prems(1) Some by (auto simp: commits_def mem_ok_Inner)
    then obtain t' where t: "child ts b = Some t'"
      using MInner.prems(3) hash [OF b] unfolding mem_clean_Inner by (cases "child ts b") auto
    have "mem_complete c" "mem_clean c" using MInner.prems(2,3) Some unfolding mem_complete_Inner mem_clean_Inner by blast+
    then show ?thesis
      using MInner.IH [OF hooked_mem [OF Some], of c "P @ [b]" t'] commits_child [OF MInner.prems(1) [unfolded ts(1)] Some t hash] Some t by simp
  qed
  then have "map (map_option mem_tree) cs = ts"
    using l ts(2) by (intro nth_equalityI) (simp_all add: hooked_nth [OF l] child_nth [OF ts(2)])
  then show ?case using ts(1) by simp
next
  case (MLeaf h s i)
  then show ?case using commits_leaf by fastforce
qed

section \<open>Maps that cannot exist\<close>

lemma commits_not_deep: "commits sha ty P t p \<Longrightarrow> mem_clean p \<Longrightarrow> \<not> mem_deep (length P) p"
proof (induction p arbitrary: P t)
  case (MInner h n cs g)
  obtain ts where ts: "t = SInner ts" "length P < 64"
    and hash: "\<And>b. b < 16 \<Longrightarrow> getChildHash n b = (case child ts b of None \<Rightarrow> zero256 | Some c \<Rightarrow> tree_hash sha c)"
    using commits_inner [OF MInner.prems(1)] by metis
  have "\<not> mem_deep (Suc (length P)) c" if c: "hooked cs b = Some c" for b c
  proof -
    have b: "b < 16" "\<not> isEmptyBranch n b" using MInner.prems(1) c by (auto simp: commits_def mem_ok_Inner)
    then obtain t' where t: "child ts b = Some t'"
      using MInner.prems(2) hash [OF b(1)] unfolding mem_clean_Inner by (cases "child ts b") auto
    have "mem_clean c" using MInner.prems(2) c unfolding mem_clean_Inner by blast
    then show ?thesis
      using MInner.IH [OF hooked_mem [OF c], of c "P @ [b]" t'] commits_child [OF MInner.prems(1) [unfolded ts(1)] c t hash] by simp
  qed
  then show ?case using ts(2) by (auto simp: mem_deep_Inner)
qed simp

lemma commits_fresh:
  assumes c: "commits sha ty P (SInner ts) (MInner h n cs g)" and b: "child ts b = Some t"
    and p: "mem_ok sha p" "mem_hash p = tree_hash sha t" "\<not> collision sha (preimages sha (SInner ts)) (mem_encodings p)"
  shows "commits sha ty (P @ [b]) t p"
proof -
  note c' = c [unfolded commits_def]
  have "\<not> collision sha (preimages sha t) (mem_encodings p)" using p(3) collision_mono [OF _ preimages_child [OF b] subset_refl] by blast
  then show ?thesis
    unfolding commits_def using c' b p tree_wf_child [of ty P ts b t] compact_items items_ok_child nonzero_child by auto
qed

lemma known_loop_valid:
  "known_loop env nodeID treeNode cur p = Some (r, p', bad, got) \<Longrightarrow> env_ok env \<Longrightarrow> mem_ok (se_sha env) p \<Longrightarrow>
   mem_ok (se_sha env) treeNode \<Longrightarrow> ni_depth cur = length P \<Longrightarrow> commits (se_sha env) ty P t p' \<Longrightarrow>
   \<not> collision (se_sha env) (preimages (se_sha env) t) (mem_encodings treeNode) \<Longrightarrow> mem_clean p' \<Longrightarrow> \<not> bad"
proof (induction env nodeID treeNode cur p arbitrary: r p' bad got P t rule: known_loop.induct)
  case (2 env nodeID treeNode cur h n cs g)
  let ?b = "selectBranch cur (ni_id nodeID)" and ?sha = "se_sha env"
  show ?case
  proof
    assume bad
    then have go: "\<not> isFullBelow (se_generation env) (MInner h n cs g)" "ni_depth cur < ni_depth nodeID" "\<not> isEmptyBranch n ?b"
        "\<not> (\<not> isLeafDepth (ni_depth cur + 1) \<and> se_touchIfExists env (getChildHash n ?b))"
      and "getChildNodeID cur ?b \<noteq> None"
      using 2(2) by (auto simp: known_loop.simps(2) Let_def split: if_splits option.splits)
    then obtain childID where id: "getChildNodeID cur ?b = Some childID" by blast
    have b16: "?b < 16" by (rule isEmptyBranch_bound [OF go(3)])
    obtain c cs' where d: "descend env n cs ?b = (c, cs')" by fastforce
    note dk = descend_ok [OF 2(3,4) go(3) d]
    obtain cs'' where p': "p' = MInner h n cs'' g"
      using known_loop_extends [OF 2(3,5,4,2)] 2(2) go id d
      by (auto simp: known_loop.simps(2) Let_def split: option.splits if_splits prod.splits)
    obtain ts where ts: "t = SInner ts" "length P < 64"
      and hash: "\<And>b. b < 16 \<Longrightarrow> getChildHash n b = (case child ts b of None \<Rightarrow> zero256 | Some c \<Rightarrow> tree_hash ?sha c)"
      using commits_inner [OF 2(7) [unfolded p']] by metis
    obtain t' where t': "child ts ?b = Some t'" "getChildHash n ?b = tree_hash ?sha t'"
      using 2(9) hash [OF b16] go(3) unfolding p' mem_clean_Inner by (cases "child ts ?b") auto
    have cd: "ni_depth childID = length (P @ [?b])" using child_id_depth [OF id] 2(6) by simp
    show False
    proof (cases c)
      case None
      then have tn: "getChildHash n ?b = mem_hash treeNode" "mem_isInner treeNode" "isLeafDepth (ni_depth childID)"
        using 2(2) go id d \<open>bad\<close> by (auto simp: known_loop.simps(2) Let_def split: if_splits prod.splits)
      obtain h' n' cs1 g' where i: "treeNode = MInner h' n' cs1 g'" using tn(2) by (cases treeNode) auto
      have "commits ?sha ty (P @ [?b]) t' treeNode"
        by (rule commits_fresh [OF 2(7) [unfolded ts(1) p'] t'(1) 2(5)]) (use tn t' 2(8) ts(1) in auto)
      then have "length (P @ [?b]) < 64" using i commits_inner by metis
      then show False using tn(3) cd by (simp add: isLeafDepth_def kLeafDepth_def)
    next
      case (Some c0)
      then obtain c' where rec: "known_loop env nodeID treeNode childID c0 = Some (r, c', bad, got)" "p' = MInner h n (cs'[?b := Some c']) g"
        using 2(2) go id d by (auto simp: known_loop.simps(2) Let_def)
      have k: "hooked (cs'[?b := Some c']) ?b = Some c'" using dk(4) b16 by (simp add: hooked_update)
      have cc: "commits ?sha ty (P @ [?b]) t' c'"
        by (rule commits_child [OF 2(7) [unfolded ts(1) rec(2)] k t'(1) hash])
      have clean: "mem_clean c'" using 2(9) k unfolding rec(2) mem_clean_Inner by blast
      have col: "\<not> collision ?sha (preimages ?sha t') (mem_encodings treeNode)"
        using 2(8) collision_mono [OF _ preimages_child [OF t'(1)] subset_refl] ts(1) by blast
      have "\<not> bad"
        using 2(1) [of ?b "getChildHash n ?b" childID c cs' c0, OF _ refl _ refl _ id _ Some rec(1) 2(3) _ 2(5) cd cc col clean]
          go d Some dk(3) [OF Some] by auto
      then show False using \<open>bad\<close> by blast
    qed
  qed
qed simp

section \<open>Progress\<close>

fun mem_count :: "mem_node \<Rightarrow> nat" where
  "mem_count (MLeaf h t i) = 1"
| "mem_count (MInner h n cs g) = Suc (sum_list (map (case_option 0 mem_count) cs))"

fun tree_count :: "tree \<Rightarrow> nat" where
  "tree_count (SLeaf t i) = 1"
| "tree_count (SInner cs) = Suc (sum_list (map (case_option 0 tree_count) cs))"

fun node_at :: "tree \<Rightarrow> nat list \<Rightarrow> tree option" where
  "node_at t [] = Some t"
| "node_at (SLeaf s i) (b # R) = None"
| "node_at (SInner cs) (b # R) = (case child cs b of None \<Rightarrow> None | Some c \<Rightarrow> node_at c R)"

lemma mem_count_update:
  assumes "b < length cs"
  shows "mem_count (MInner h n (cs[b := Some c]) g) + case_option 0 mem_count (hooked cs b) = mem_count (MInner h n cs g) + mem_count c"
proof -
  have "map (case_option 0 mem_count) cs ! b \<le> sum_list (map (case_option 0 mem_count) cs)"
    by (rule member_le_sum_list) (use assms in simp_all)
  then show ?thesis using assms by (simp add: map_update sum_list_update hooked_def)
qed

lemma mem_encodings_update:
  assumes "b < length cs"
  shows "set (mem_encodings (MInner h n (cs[b := Some c]) g)) \<subseteq> set (mem_encodings (MInner h n cs g)) \<union> set (mem_encodings c)"
  using set_update_subset_insert [of cs b "Some c"] by (fastforce simp: mem_encodings.simps)

lemma mem_clean_update:
  "b < length cs \<Longrightarrow> mem_clean (MInner h n cs g) \<Longrightarrow> mem_clean c \<Longrightarrow> mem_clean (MInner h n (cs[b := Some c]) g)"
  by (auto simp: mem_clean_Inner hooked_update)

text \<open>The node of the tree at a position, as it comes from the wire.\<close>

definition tree_node :: "digest \<Rightarrow> tree \<Rightarrow> mem_node" where
  "tree_node sha t = mem_new (tree_hash sha t) (flatten sha t)"

lemma tree_node_ok:
  assumes sha: "\<And>x. uint256_ok (sha x)" and t: "tree_wf ty P t" "tree_items t \<noteq> []" "items_ok sha ty t" "nonzero sha t"
  shows "mem_ok sha (tree_node sha t)" "mem_hash (tree_node sha t) = tree_hash sha t" "mem_flat (tree_node sha t) = flatten sha t"
    "mem_clean (tree_node sha t)" "mem_count (tree_node sha t) = 1" "set (mem_encodings (tree_node sha t)) \<subseteq> set (preimages sha t)"
    "mem_isInner (tree_node sha t) \<Longrightarrow> length P < 64"
proof -
  note h = tree_hash_sha [OF t(1,2), of sha]
  have ok: "flat_ok sha (flatten sha t)"
    by (rule flatten_ok [OF t(1,2,3) sha]) (use t(4) in \<open>auto simp: nonzero_def list_all_iff\<close>)
  have "case flatten sha t of FInner m \<Rightarrow> inner_hash_ok sha (tree_hash sha t) m \<and> inner_shape m
    | FLeaf s i \<Rightarrow> tree_hash sha t = leaf_updateHash sha s i \<and> flat_ok sha (FLeaf s i)"
  proof (cases t)
    case (SInner cs)
    then have "length cs = 16" using t(1) by (simp add: tree_wf_Inner)
    then show ?thesis using SInner h flatten_shape [OF sha] by (simp add: inner_hash_ok_def)
  qed (use ok in simp)
  from mem_new_ok [OF this]
  show "mem_ok sha (tree_node sha t)" "mem_hash (tree_node sha t) = tree_hash sha t" "mem_flat (tree_node sha t) = flatten sha t"
    by (simp_all add: tree_node_def)
  show "mem_clean (tree_node sha t)"
  proof (cases t)
    case (SInner cs)
    let ?n = "inner_of (map (map_option (tree_hash sha)) cs)"
    have "getChildHash ?n b \<noteq> zero256" if "\<not> isEmptyBranch ?n b" for b
      using ok SInner that isEmptyBranch_bound [OF that] by (auto simp: inner_ok_def getChildHash_def isEmptyBranch_def)
    then show ?thesis using SInner by (simp add: tree_node_def mem_clean_Inner hooked_def)
  qed (simp add: tree_node_def)
  show "mem_count (tree_node sha t) = 1" by (cases t) (simp_all add: tree_node_def sum_list_replicate)
  have "concat (map (case_option [] mem_encodings) (replicate 16 None)) = []" by (simp only: map_replicate option.case concat_replicate_trivial)
  then have "mem_encodings (tree_node sha t) = [serializeWithPrefix (flatten sha t)]"
    by (cases t) (simp_all add: tree_node_def mem_encodings.simps)
  then show "set (mem_encodings (tree_node sha t)) \<subseteq> set (preimages sha t)" using h by simp
  show "mem_isInner (tree_node sha t) \<Longrightarrow> length P < 64" using t(1) by (cases t) (simp_all add: tree_node_def tree_wf_Inner)
qed

lemma sum_list_nth_mono:
  fixes f :: "'a \<Rightarrow> nat" and g :: "'b \<Rightarrow> nat"
  assumes "length xs = length ys" "\<And>i. i < length xs \<Longrightarrow> f (xs ! i) \<le> g (ys ! i)"
  shows "sum_list (map f xs) \<le> sum_list (map g ys)"
  using assms
proof (induction xs ys rule: list_induct2)
  case (Cons x xs y ys)
  have "f (xs ! i) \<le> g (ys ! i)" if "i < length xs" for i using Cons.prems [of "Suc i"] that by simp
  then show ?case using Cons.IH Cons.prems [of 0] by (simp add: add_mono)
qed simp

lemma mem_count_le: "commits sha ty P t p \<Longrightarrow> mem_clean p \<Longrightarrow> mem_count p \<le> tree_count t"
proof (induction p arbitrary: P t)
  case (MInner h n cs g)
  obtain ts where ts: "t = SInner ts" "length ts = 16"
    and hash: "\<And>b. b < 16 \<Longrightarrow> getChildHash n b = (case child ts b of None \<Rightarrow> zero256 | Some c \<Rightarrow> tree_hash sha c)"
    using commits_inner [OF MInner.prems(1)] by metis
  have l: "length cs = 16" using MInner.prems(1) by (simp add: commits_def mem_ok_Inner)
  have "case_option 0 mem_count (hooked cs b) \<le> case_option 0 tree_count (child ts b)" if b: "b < 16" for b
  proof (cases "hooked cs b")
    case (Some c)
    have "\<not> isEmptyBranch n b" using MInner.prems(1) Some by (auto simp: commits_def mem_ok_Inner)
    then obtain t' where t: "child ts b = Some t'"
      using MInner.prems(2) hash [OF b] unfolding mem_clean_Inner by (cases "child ts b") auto
    have "mem_clean c" using MInner.prems(2) Some unfolding mem_clean_Inner by blast
    then show ?thesis
      using MInner.IH [OF hooked_mem [OF Some], of c "P @ [b]" t'] commits_child [OF MInner.prems(1) [unfolded ts(1)] Some t hash] Some t by simp
  qed simp
  then have "sum_list (map (case_option 0 mem_count) cs) \<le> sum_list (map (case_option 0 tree_count) ts)"
    using l ts(2) by (intro sum_list_nth_mono) (simp_all add: hooked_nth child_nth)
  then show ?case using ts(1) by simp
next
  case (MLeaf h s i)
  then show ?case using commits_leaf by fastforce
qed

lemma known_loop_progress:
  assumes env: "env_ok env" and touch: "\<And>x. \<not> se_touchIfExists env x" and fetch: "fetchNodeNT env h = None"
  shows "commits (se_sha env) ty P t p \<Longrightarrow> mem_clean p \<Longrightarrow> path_ok P \<Longrightarrow> (i, h) \<in> mem_missing P p \<Longrightarrow>
    \<exists>R t' p'. R \<noteq> [] \<and> path_ok (P @ R) \<and> i = path_id (P @ R) \<and> node_at t R = Some t' \<and> tree_hash (se_sha env) t' = h \<and>
      known_loop env i (tree_node (se_sha env) t') (path_id P) p = Some (an_useful, p', False, [(h, serializeWithPrefix (flatten (se_sha env) t'))]) \<and>
      mem_count p' = Suc (mem_count p) \<and> mem_clean p' \<and> set (mem_encodings p') \<subseteq> set (mem_encodings p) \<union> set (preimages (se_sha env) t)"
proof (induction p arbitrary: P t)
  case (MInner h0 n cs g)
  let ?sha = "se_sha env"
  have ok: "mem_ok ?sha (MInner h0 n cs g)" using MInner.prems(1) unfolding commits_def by blast
  obtain ts where ts: "t = SInner ts" "length ts = 16" "length P < 64"
    and hash: "\<And>b. b < 16 \<Longrightarrow> getChildHash n b = (case child ts b of None \<Rightarrow> zero256 | Some c \<Rightarrow> tree_hash ?sha c)"
    using commits_inner [OF MInner.prems(1)] by metis
  have g: "g \<noteq> se_generation env"
    using MInner.prems(4) ok mem_missing_complete [OF ok, of P] env_okD(1) [OF env] by (auto simp: mem_ok_Inner)
  obtain b where b: "b < 16" "(i, h) \<in> missing_at P n cs b" using MInner.prems(4) by (auto simp: mem_missing_Inner)
  then have ne: "\<not> isEmptyBranch n b" by (auto simp: missing_at_def split: if_splits)
  obtain t1 where t1: "child ts b = Some t1" "getChildHash n b = tree_hash ?sha t1"
    using MInner.prems(2) hash [OF b(1)] ne unfolding mem_clean_Inner by (cases "child ts b") auto
  have t1wf: "tree_wf ty (P @ [b]) t1" "tree_items t1 \<noteq> []" "items_ok ?sha ty t1" "nonzero ?sha t1"
    using MInner.prems(1) ts(1) t1(1) tree_wf_child [of ty P ts b t1] compact_items items_ok_child nonzero_child by (auto simp: commits_def)
  have Pb: "path_ok (P @ [b])" using MInner.prems(3) b(1) ts(3) by (simp add: path_ok_def)
  note id = path_id_child [OF MInner.prems(3) b(1) ts(3)] and l = ok [unfolded mem_ok_Inner]
  have bl: "b < length cs" using l b(1) by simp
  have pre: "set (preimages ?sha t1) \<subseteq> set (preimages ?sha t)" using preimages_child [OF t1(1)] ts(1) by blast
  have unfold: "known_loop env (path_id (P @ b # R)) tn (path_id P) (MInner h0 n cs g) =
      (case descend env n cs b of
         (Some c, cs') \<Rightarrow> map_option (\<lambda>(r, c', bad, got). (r, MInner h0 n (cs'[b := Some c']) g, bad, got)) (known_loop env (path_id (P @ b # R)) tn (path_id (P @ [b])) c)
       | (None, cs') \<Rightarrow> Some (if getChildHash n b \<noteq> mem_hash tn then (an_invalid, MInner h0 n cs' g, False, [])
           else if mem_isInner tn \<and> isLeafDepth (ni_depth (path_id (P @ [b]))) then (an_invalid, MInner h0 n cs' g, True, [])
           else if path_id (P @ [b]) \<noteq> path_id (P @ b # R) then (an_invalid, MInner h0 n cs' g, False, [])
           else let (c, cs'') = canonicalizeChild b tn cs' in (an_useful, MInner h0 n cs'' g, False, [(getChildHash n b, serializeWithPrefix (mem_flat c))])))"
    if "path_ok (P @ b # R)" for R tn
    using g ne touch id path_id_branch [OF that] path_id_simps(1) [OF that] path_id_simps(1) [OF MInner.prems(3)]
    by (simp add: known_loop.simps(2) Let_def)
  show ?case
  proof (cases "hooked cs b")
    case None
    then have ih: "i = path_id (P @ [b])" "h = getChildHash n b" using b(2) ne by (simp_all add: missing_at_def)
    have csb: "cs ! b = None" using None bl by (simp add: hooked_def)
    have d: "descend env n cs b = (None, cs)" using csb fetch ih(2) by (simp add: descend_def)
    note tn = tree_node_ok [of ?sha, OF env_okD(2) [OF env] t1wf]
    have depth: "\<not> (mem_isInner (tree_node ?sha t1) \<and> isLeafDepth (ni_depth (path_id (P @ [b]))))"
      using tn(7) path_id_simps(1) [OF Pb] by (auto simp: isLeafDepth_def kLeafDepth_def)
    let ?p = "MInner h0 n (cs[b := Some (tree_node ?sha t1)]) g"
    have "known_loop env i (tree_node ?sha t1) (path_id P) (MInner h0 n cs g) = Some (an_useful, ?p, False, [(h, serializeWithPrefix (flatten ?sha t1))])"
      using unfold [of "[]" "tree_node ?sha t1"] Pb ih d t1(2) tn(2,3) depth csb by (simp add: canonicalizeChild_def)
    moreover have "mem_count ?p = Suc (mem_count (MInner h0 n cs g))" using mem_count_update [OF bl, of h0 n "tree_node ?sha t1" g] None tn(5) by simp
    moreover have "set (mem_encodings ?p) \<subseteq> set (mem_encodings (MInner h0 n cs g)) \<union> set (preimages ?sha t)"
      using mem_encodings_update [OF bl, of h0 n "tree_node ?sha t1" g] tn(6) pre by blast
    ultimately show ?thesis
      using Pb ih t1 ts(1) mem_clean_update [OF bl MInner.prems(2) tn(4)] by (intro exI [of _ "[b]"] exI [of _ t1] exI [of _ ?p]) simp
  next
    case (Some c)
    then have ih: "(i, h) \<in> mem_missing (P @ [b]) c" using b(2) ne by (simp add: missing_at_def)
    have d: "descend env n cs b = (Some c, cs)" using Some bl by (simp add: descend_def hooked_def)
    have cc: "commits ?sha ty (P @ [b]) t1 c" by (rule commits_child [OF MInner.prems(1) [unfolded ts(1)] Some t1(1) hash])
    have clean: "mem_clean c" using MInner.prems(2) Some unfolding mem_clean_Inner by blast
    have cm: "c \<in> set_option (Some c)" by simp
    from MInner.IH [OF hooked_mem [OF Some] cm cc clean Pb ih]
    obtain R t' c' where r: "R \<noteq> []" "path_ok ((P @ [b]) @ R)" "i = path_id ((P @ [b]) @ R)" "node_at t1 R = Some t'" "tree_hash ?sha t' = h"
        "known_loop env i (tree_node ?sha t') (path_id (P @ [b])) c = Some (an_useful, c', False, [(h, serializeWithPrefix (flatten ?sha t'))])"
        "mem_count c' = Suc (mem_count c)" "mem_clean c'" "set (mem_encodings c') \<subseteq> set (mem_encodings c) \<union> set (preimages ?sha t1)"
      by (elim exE conjE) (rule that)
    let ?p = "MInner h0 n (cs[b := Some c']) g"
    have "known_loop env i (tree_node ?sha t') (path_id P) (MInner h0 n cs g) = Some (an_useful, ?p, False, [(h, serializeWithPrefix (flatten ?sha t'))])"
      using unfold [of R "tree_node ?sha t'"] r(2,3,6) d by simp
    moreover have "mem_count ?p = Suc (mem_count (MInner h0 n cs g))" using mem_count_update [OF bl, of h0 n c' g] Some r(7) by simp
    moreover have "set (mem_encodings ?p) \<subseteq> set (mem_encodings (MInner h0 n cs g)) \<union> set (preimages ?sha t)"
      using mem_encodings_update [OF bl, of h0 n c' g] r(9) mem_encodings_child [OF Some, of h0 n g] pre by blast
    ultimately show ?thesis
      using r(1-5) t1(1) ts(1) mem_clean_update [OF bl MInner.prems(2) r(8)] by (intro exI [of _ "b # R"] exI [of _ t'] exI [of _ ?p]) simp
  qed
qed simp

end
