(* ===== verification/TransactionAcquire.thy ===== *)
theory TransactionAcquire
  imports SHAMapSync_Sound
begin

text \<open>
  Acquiring the transaction sets of peers: \<^verbatim>\<open>TransactionAcquire.cpp\<close> with \<^verbatim>\<open>TimeoutCounter.cpp\<close>,
  \<^verbatim>\<open>LedgerNodeHelpers.cpp\<close> and \<^verbatim>\<open>InboundTransactions.cpp\<close>. An acquisition is an object with a lock of its
  own, so its calls are atomic steps. Messages to peers, jobs and charges are the effects a call
  returns; which peers are asked is the number of peers \<^verbatim>\<open>PeerSet::addPeers\<close> picks. A map is kept by
  value: nothing else holds it until it is given away, and then it is immutable.
\<close>

section \<open>The acquisition of one set\<close>

record tx_acquire =
  ta_hash :: uint256
  ta_map :: sync_map
  ta_haveRoot :: bool
  ta_timeouts :: int
  ta_complete :: bool
  ta_failed :: bool
  ta_progress :: bool

datatype ta_effect =
    SendRequest bool "byte list list"
  | GiveSet uint256 sync_map

definition kNormTimeouts :: int where
  "kNormTimeouts = 4"

definition kMaxTimeouts :: int where
  "kMaxTimeouts = 20"

definition kMissingNodes :: int where
  "kMissingNodes = 256"

definition TransactionAcquire_new :: "uint256 \<Rightarrow> tx_acquire" where
  "TransactionAcquire_new h = \<lparr>ta_hash = h, ta_map = SHAMap_new_sync, ta_haveRoot = False, ta_timeouts = 0,
     ta_complete = False, ta_failed = False, ta_progress = False\<rparr>"

definition isDone :: "tx_acquire \<Rightarrow> bool" where
  "isDone ta \<longleftrightarrow> ta_complete ta \<or> ta_failed ta"

definition acquire_done :: "tx_acquire \<Rightarrow> tx_acquire \<times> ta_effect list" where
  "acquire_done ta =
     (if ta_failed ta then (ta, [])
      else
        let (ok, m) = setImmutable (ta_map ta)
        in if \<not> ok then (ta\<lparr>ta_map := m, ta_complete := False, ta_failed := True\<rparr>, [])
           else (ta\<lparr>ta_map := m\<rparr>, [GiveSet (ta_hash ta) m]))"

definition trigger :: "sync_env \<Rightarrow> tx_acquire \<Rightarrow> (tx_acquire \<times> ta_effect list) option" where
  "trigger env ta =
     (if ta_complete ta then Some (ta, [])
      else if ta_failed ta then Some (ta, [])
      else if \<not> ta_haveRoot ta then Some (ta, [SendRequest (ta_timeouts ta \<noteq> 0) [getRawString node_id_root]])
      else if \<not> isValid (ta_map ta) then Some (acquire_done (ta\<lparr>ta_failed := True\<rparr>))
      else
        (case getMissingNodes env kMissingNodes (ta_map ta) of
           None \<Rightarrow> None
         | Some (nodes, m) \<Rightarrow>
             let ta' = ta\<lparr>ta_map := m\<rparr>
             in Some (if nodes = []
                      then acquire_done (if isValid m then ta'\<lparr>ta_complete := True\<rparr> else ta'\<lparr>ta_failed := True\<rparr>)
                      else (ta', [SendRequest (ta_timeouts ta \<noteq> 0) (map (getRawString \<circ> fst) nodes)]))))"

text \<open>\<^verbatim>\<open>ConsensusTransSetSF::gotNode\<close> keeps the encoding of a new node for later lookups.\<close>

definition sf_gotNode :: "got_node \<Rightarrow> sync_env \<Rightarrow> sync_env" where
  "sf_gotNode got env = env\<lparr>se_retrieve := (\<lambda>h.
     if h = fst got \<and> se_retrieve env h = None then Some (snd got) else se_retrieve env h)\<rparr>"

fun take_loop :: "sync_env \<Rightarrow> (node_id \<times> mem_node) list \<Rightarrow> tx_acquire \<Rightarrow> (bool \<times> sync_env \<times> tx_acquire) option" where
  "take_loop env [] ta = Some (True, env, ta)"
| "take_loop env ((nodeID, treeNode) # ds) ta =
     (if isRoot nodeID
      then
        if ta_haveRoot ta then take_loop env ds ta
        else
          let (r, m) = addRootNode (ta_hash ta) treeNode (ta_map ta);
              ta' = ta\<lparr>ta_map := m\<rparr>
          in if \<not> isGood r then Some (False, env, ta') else take_loop env ds (ta'\<lparr>ta_haveRoot := True\<rparr>)
      else
        (case addKnownNode env nodeID treeNode (ta_map ta) of
           None \<Rightarrow> None
         | Some (r, m, got) \<Rightarrow>
             let ta' = ta\<lparr>ta_map := m\<rparr>;
                 env' = fold sf_gotNode got env
             in if \<not> isGood r then Some (False, env', ta') else take_loop env' ds ta'))"

definition takeNodes :: "sync_env \<Rightarrow> (node_id \<times> mem_node) list \<Rightarrow> tx_acquire \<Rightarrow> SHAMapAddNode \<times> tx_acquire \<times> ta_effect list" where
  "takeNodes env nodes ta =
     (if ta_complete ta then (SHAMapAddNode_new, ta, [])
      else if ta_failed ta then (SHAMapAddNode_new, ta, [])
      else if nodes = [] then (an_invalid, ta, [])
      else
        (case take_loop env nodes ta of
           None \<Rightarrow> (an_invalid, ta, [])
         | Some (ok, env', ta') \<Rightarrow>
             if \<not> ok then (an_invalid, ta', [])
             else
               (case trigger env' ta' of
                  None \<Rightarrow> (an_invalid, ta', [])
                | Some (ta'', effects) \<Rightarrow> (an_useful, ta''\<lparr>ta_progress := True\<rparr>, effects))))"

text \<open>\<^verbatim>\<open>addPeers\<close> triggers once for every peer that is added to the set.\<close>

fun acquire_addPeers :: "sync_env \<Rightarrow> nat \<Rightarrow> tx_acquire \<Rightarrow> (tx_acquire \<times> ta_effect list) option" where
  "acquire_addPeers env 0 ta = Some (ta, [])"
| "acquire_addPeers env (Suc n) ta =
     (case trigger env ta of
        None \<Rightarrow> None
      | Some (ta', effects) \<Rightarrow> map_option (\<lambda>(ta'', effects'). (ta'', effects @ effects')) (acquire_addPeers env n ta'))"

definition acquire_onTimer :: "sync_env \<Rightarrow> nat \<Rightarrow> tx_acquire \<Rightarrow> (tx_acquire \<times> ta_effect list) option" where
  "acquire_onTimer env peers ta =
     (if ta_timeouts ta > kMaxTimeouts then Some (acquire_done (ta\<lparr>ta_failed := True\<rparr>))
      else
        (case (if ta_timeouts ta \<ge> kNormTimeouts then trigger env ta else Some (ta, [])) of
           None \<Rightarrow> None
         | Some (ta', effects) \<Rightarrow>
             map_option (\<lambda>(ta'', effects'). (ta'', effects @ effects')) (acquire_addPeers env (min 1 peers) ta')))"

definition invokeOnTimer :: "sync_env \<Rightarrow> nat \<Rightarrow> tx_acquire \<Rightarrow> (tx_acquire \<times> ta_effect list) option" where
  "invokeOnTimer env peers ta =
     (if isDone ta then Some (ta, [])
      else if \<not> ta_progress ta then acquire_onTimer env peers (ta\<lparr>ta_timeouts := ta_timeouts ta + 1\<rparr>)
      else acquire_onTimer env peers (ta\<lparr>ta_progress := False\<rparr>))"

definition acquire_cancel :: "tx_acquire \<Rightarrow> tx_acquire" where
  "acquire_cancel ta = (if \<not> isDone ta then ta\<lparr>ta_failed := True\<rparr> else ta)"

definition acquire_init :: "sync_env \<Rightarrow> nat \<Rightarrow> nat \<Rightarrow> tx_acquire \<Rightarrow> (tx_acquire \<times> ta_effect list) option" where
  "acquire_init env peers numPeers ta = acquire_addPeers env (min numPeers peers) ta"

definition stillNeed :: "tx_acquire \<Rightarrow> tx_acquire" where
  "stillNeed ta = ta\<lparr>ta_timeouts := min (ta_timeouts ta) kNormTimeouts, ta_failed := False\<rparr>"

section \<open>Nodes in a message\<close>

datatype node_reference = RefId "byte list" | RefDepth nat

record ledger_node =
  ln_nodedata :: "byte list"
  ln_nodeid :: "byte list option"
  ln_reference :: "node_reference option"

definition getTreeNode :: "digest \<Rightarrow> byte list \<Rightarrow> mem_node option" where
  "getTreeNode sha d =
     (case makeFromWire sha d of
        PNode n \<Rightarrow> Some (mem_new (node_updateHash sha n) n)
      | PNull \<Rightarrow> None
      | PThrow \<Rightarrow> None)"

definition mem_leafKey :: "mem_node \<Rightarrow> uint256 option" where
  "mem_leafKey p = (case p of MLeaf _ _ i \<Rightarrow> Some (si_key i) | MInner _ _ _ _ \<Rightarrow> None)"

definition getSHAMapNodeID :: "ledger_node \<Rightarrow> mem_node \<Rightarrow> node_id option" where
  "getSHAMapNodeID ln treeNode =
     (case ln_reference ln of
        Some ref \<Rightarrow>
          if ln_nodeid ln \<noteq> None then None
          else
            (case mem_leafKey treeNode of
               None \<Rightarrow> (case ref of RefId d \<Rightarrow> deserializeSHAMapNodeID d | RefDepth _ \<Rightarrow> None)
             | Some key \<Rightarrow>
                 (case ref of
                    RefDepth depth \<Rightarrow> if depth > kLeafDepth then None else Some (createID depth key)
                  | RefId _ \<Rightarrow> None))
      | None \<Rightarrow>
          (case ln_nodeid ln of
             None \<Rightarrow> None
           | Some d \<Rightarrow>
               (case deserializeSHAMapNodeID d of
                  None \<Rightarrow> None
                | Some nodeID \<Rightarrow>
                    (case mem_leafKey treeNode of
                       None \<Rightarrow> Some nodeID
                     | Some key \<Rightarrow> if isPrefixOf nodeID key then Some nodeID else None))))"

section \<open>All sets\<close>

record inbound_set =
  is_seq :: "32 word"
  is_acquire :: "tx_acquire option"
  is_set :: "sync_map option"

record inbound =
  it_map :: "(uint256, inbound_set) hm"
  it_seq :: "32 word"
  it_stopping :: bool

datatype it_effect =
    Acquire ta_effect
  | ChargeUseless
  | ChargeInvalid
  | GotSet sync_map bool

definition kStartPeers :: nat where
  "kStartPeers = 2"

definition kSetKeepRounds :: "32 word" where
  "kSetKeepRounds = 3"

definition inbound_empty :: inbound_set where
  "inbound_empty = \<lparr>is_seq = 0, is_acquire = None, is_set = None\<rparr>"

definition InboundTransactions_new :: inbound where
  "InboundTransactions_new =
     \<lparr>it_map = hm_assign [] zero256 (inbound_empty\<lparr>is_set := Some SHAMap_new_sync\<rparr>), it_seq = 0, it_stopping = False\<rparr>"

definition getSet :: "sync_env \<Rightarrow> nat \<Rightarrow> uint256 \<Rightarrow> bool \<Rightarrow> inbound \<Rightarrow> (sync_map option \<times> inbound \<times> it_effect list) option" where
  "getSet env peers h acquire it =
     (case hm_find (it_map it) h of
        Some s \<Rightarrow>
          Some (is_set s,
                if acquire then it\<lparr>it_map := hm_assign (it_map it) h
                                  (s\<lparr>is_seq := it_seq it, is_acquire := map_option stillNeed (is_acquire s)\<rparr>)\<rparr>
                else it,
                [])
      | None \<Rightarrow>
          if \<not> acquire \<or> it_stopping it then Some (None, it, [])
          else
            map_option
              (\<lambda>(ta, effects).
                 (None, it\<lparr>it_map := hm_assign (it_map it) h (inbound_empty\<lparr>is_acquire := Some ta, is_seq := it_seq it\<rparr>)\<rparr>,
                  map Acquire effects))
              (acquire_init env peers kStartPeers (TransactionAcquire_new h)))"

fun packet_nodes :: "digest \<Rightarrow> ledger_node list \<Rightarrow> (node_id \<times> mem_node) list option" where
  "packet_nodes sha [] = Some []"
| "packet_nodes sha (ln # lns) =
     (case getTreeNode sha (ln_nodedata ln) of
        None \<Rightarrow> None
      | Some treeNode \<Rightarrow>
          (case getSHAMapNodeID ln treeNode of
             None \<Rightarrow> None
           | Some nodeID \<Rightarrow> map_option (\<lambda>ds. (nodeID, treeNode) # ds) (packet_nodes sha lns)))"

definition gotData :: "sync_env \<Rightarrow> uint256 \<Rightarrow> ledger_node list \<Rightarrow> inbound \<Rightarrow> inbound \<times> it_effect list" where
  "gotData env h packet it =
     (case hm_find (it_map it) h of
        None \<Rightarrow> (it, [ChargeUseless])
      | Some s \<Rightarrow>
          (case is_acquire s of
             None \<Rightarrow> (it, [ChargeUseless])
           | Some ta \<Rightarrow>
               (case packet_nodes (se_sha env) packet of
                  None \<Rightarrow> (it, [ChargeInvalid])
                | Some nodes \<Rightarrow>
                    let (san, ta', effects) = takeNodes env nodes ta
                    in (it\<lparr>it_map := hm_assign (it_map it) h (s\<lparr>is_acquire := Some ta'\<rparr>)\<rparr>,
                        map Acquire effects @
                        (if isInvalid san then [ChargeInvalid] else if \<not> isUseful san then [ChargeUseless] else [])))))"

definition giveSet :: "uint256 \<Rightarrow> sync_map \<Rightarrow> bool \<Rightarrow> inbound \<Rightarrow> inbound \<times> it_effect list" where
  "giveSet h txs fromAcquire it =
     (let s = (case hm_find (it_map it) h of Some s \<Rightarrow> s | None \<Rightarrow> inbound_empty);
          s' = s\<lparr>is_seq := max (is_seq s) (it_seq it),
                 is_set := (case is_set s of Some m \<Rightarrow> Some m | None \<Rightarrow> Some txs),
                 is_acquire := None\<rparr>
      in (it\<lparr>it_map := hm_assign (it_map it) h s'\<rparr>,
          if is_set s = None then [GotSet txs fromAcquire] else []))"

text \<open>
  The zero set is a reference into the map; after \<^verbatim>\<open>stop\<close> it dangles, and the assignment to it has no
  defined meaning, which is \<open>None\<close>.
\<close>

definition newRound :: "32 word \<Rightarrow> inbound \<Rightarrow> inbound option" where
  "newRound seq it =
     (case hm_find (it_map it) zero256 of
        None \<Rightarrow> None
      | Some z \<Rightarrow>
          let it' = it\<lparr>it_map := hm_assign (it_map it) zero256 (z\<lparr>is_seq := seq\<rparr>)\<rparr>
          in Some (if it_seq it' \<noteq> seq
                   then
                     let minSeq = (if seq < kSetKeepRounds then 0 else seq - kSetKeepRounds);
                         maxSeq = seq + kSetKeepRounds
                     in it'\<lparr>it_seq := seq,
                            it_map := filter (\<lambda>(_, s). \<not> (is_seq s < minSeq \<or> is_seq s > maxSeq)) (it_map it')\<rparr>
                   else it'))"

definition inbound_stop :: "inbound \<Rightarrow> inbound" where
  "inbound_stop it = it\<lparr>it_stopping := True, it_map := []\<rparr>"

text \<open>The timer of the acquisition of a set.\<close>

definition inbound_timer :: "sync_env \<Rightarrow> nat \<Rightarrow> uint256 \<Rightarrow> inbound \<Rightarrow> (inbound \<times> it_effect list) option" where
  "inbound_timer env peers h it =
     (case hm_find (it_map it) h of
        None \<Rightarrow> Some (it, [])
      | Some s \<Rightarrow>
          (case is_acquire s of
             None \<Rightarrow> Some (it, [])
           | Some ta \<Rightarrow>
               map_option
                 (\<lambda>(ta', effects). (it\<lparr>it_map := hm_assign (it_map it) h (s\<lparr>is_acquire := Some ta'\<rparr>)\<rparr>, map Acquire effects))
                 (invokeOnTimer env peers ta)))"

end
