(* ===== verification/TransactionAcquire_Correct.thy ===== *)
theory TransactionAcquire_Correct
  imports TransactionAcquire
begin

text \<open>
  The acquisition of transaction sets is correct: whatever peers send, a set that is handed to
  consensus is complete and has the hash it was asked for, so it holds the transactions of the set
  with that hash. The proofs follow the calls: every one keeps the nodes in memory linked by their
  hashes and never throws.
\<close>

section \<open>Nodes that are offered\<close>

definition wire_node :: "digest \<Rightarrow> node_id \<times> mem_node \<Rightarrow> bool" where
  "wire_node sha d \<longleftrightarrow> ni_depth (fst d) \<le> 64 \<and> mem_ok sha (snd d) \<and> mem_hash (snd d) = node_updateHash sha (mem_flat (snd d))"

lemma getTreeNode_ok:
  assumes "\<And>x. uint256_ok (sha x)" "getTreeNode sha d = Some p"
  shows "mem_ok sha p \<and> mem_hash p = node_updateHash sha (mem_flat p)"
proof -
  obtain n where n: "makeFromWire sha d = PNode n" "p = mem_new (node_updateHash sha n) n"
    using assms(2) by (auto simp: getTreeNode_def split: parsed.splits)
  have "mem_flat p = n" using n(2) by (cases n) simp_all
  then show ?thesis using wire_node_ok [of sha, OF assms(1) n(1)] n(2) by simp
qed

lemma getSHAMapNodeID_depth: "getSHAMapNodeID ln p = Some i \<Longrightarrow> ni_depth i \<le> 64"
proof -
  have "deserializeSHAMapNodeID d = Some j \<Longrightarrow> ni_depth j \<le> 64" for d j
    using node_id_wire_roundtrip [of d j] by (simp add: node_id_ok_def kLeafDepth_def)
  then show "getSHAMapNodeID ln p = Some i \<Longrightarrow> ni_depth i \<le> 64"
    by (auto simp: getSHAMapNodeID_def kLeafDepth_def createID_simps split: option.splits node_reference.splits if_splits)
qed

lemma packet_nodes_ok:
  "(\<And>x. uint256_ok (sha x)) \<Longrightarrow> packet_nodes sha lns = Some ds \<Longrightarrow> list_all (wire_node sha) ds"
proof (induction lns arbitrary: ds)
  case (Cons ln lns)
  obtain p i ds' where p: "getTreeNode sha (ln_nodedata ln) = Some p" "getSHAMapNodeID ln p = Some i" "packet_nodes sha lns = Some ds'" "ds = (i, p) # ds'"
    using Cons.prems(2) by (auto split: option.splits)
  then show ?case using Cons.IH [OF Cons.prems(1) p(3)] getTreeNode_ok [of sha, OF Cons.prems(1) p(1)] getSHAMapNodeID_depth [OF p(2)]
    by (simp add: wire_node_def)
qed simp

section \<open>Adding nodes\<close>

lemma known_loop_total:
  "cur = path_id P \<Longrightarrow> path_ok P \<Longrightarrow> ni_depth nodeID \<le> 64 \<Longrightarrow> known_loop env nodeID treeNode cur p \<noteq> None"
proof (induction env nodeID treeNode cur p arbitrary: P rule: known_loop.induct)
  case (2 env nodeID treeNode cur h n cs g)
  let ?b = "selectBranch cur (ni_id nodeID)"
  show ?case
  proof (cases "isFullBelow (se_generation env) (MInner h n cs g) \<or> \<not> ni_depth cur < ni_depth nodeID \<or> isEmptyBranch n ?b \<or>
      \<not> isLeafDepth (ni_depth cur + 1) \<and> se_touchIfExists env (getChildHash n ?b)")
    case True
    then show ?thesis by (auto simp: known_loop.simps(2) Let_def)
  next
    case False
    then have b: "?b < 16" "\<not> isEmptyBranch n ?b" using isEmptyBranch_bound by blast+
    have len: "length P < 64" using False 2(2,4) path_id_simps(1) [OF 2(3)] by simp
    note id = path_id_child [OF 2(3) b(1) len, folded 2(2)]
    have P: "path_ok (P @ [?b])" using 2(3) b(1) len by (simp add: path_ok_def)
    obtain c cs' where d: "descend env n cs ?b = (c, cs')" by fastforce
    show ?thesis
    proof (cases c)
      case None
      then show ?thesis using False id d by (simp add: known_loop.simps(2) Let_def del: not_None_eq)
    next
      case (Some c0)
      have "known_loop env nodeID treeNode (path_id (P @ [?b])) c0 \<noteq> None"
        using 2(1) [of ?b "getChildHash n ?b" "path_id (P @ [?b])" c cs' c0 "P @ [?b]"] False id d Some P 2(4) by auto
      then show ?thesis using False id d Some by (simp add: known_loop.simps(2) Let_def del: not_None_eq)
    qed
  qed
qed simp

lemma known_loop_got:
  "known_loop env nodeID treeNode cur p = Some (r, p', bad, got) \<Longrightarrow> set got \<subseteq> {(mem_hash treeNode, serializeWithPrefix (mem_flat treeNode))}"
proof (induction env nodeID treeNode cur p arbitrary: r p' bad got rule: known_loop.induct)
  case (2 env nodeID treeNode cur h n cs g)
  let ?b = "selectBranch cur (ni_id nodeID)"
  show ?case
  proof (cases "isFullBelow (se_generation env) (MInner h n cs g) \<or> \<not> ni_depth cur < ni_depth nodeID \<or> isEmptyBranch n ?b \<or>
      \<not> isLeafDepth (ni_depth cur + 1) \<and> se_touchIfExists env (getChildHash n ?b)")
    case True
    then have "got = []" using 2(2) by (auto simp: known_loop.simps(2) Let_def split: if_splits)
    then show ?thesis by simp
  next
    case False
    then obtain childID where id: "getChildNodeID cur ?b = Some childID"
      using 2(2) by (auto simp: known_loop.simps(2) Let_def split: if_splits option.splits)
    obtain c cs' where d: "descend env n cs ?b = (c, cs')" by fastforce
    show ?thesis
    proof (cases c)
      case None
      then have "cs' ! ?b = None" using d by (auto simp: descend_def canonicalizeChild_def split: option.splits prod.splits)
      then show ?thesis
        using 2(2) False id d None by (auto simp: known_loop.simps(2) Let_def canonicalizeChild_def split: if_splits)
    next
      case (Some c0)
      then obtain c' where "known_loop env nodeID treeNode childID c0 = Some (r, c', bad, got)"
        using 2(2) False id d by (auto simp: known_loop.simps(2) Let_def)
      then show ?thesis using 2(1) [of ?b "getChildHash n ?b" childID c cs' c0] False id d Some by auto
    qed
  qed
qed simp

lemma fold_gotNode_ok:
  "env_ok env \<Longrightarrow> (\<And>h d. (h, d) \<in> set got \<Longrightarrow> \<exists>m. h = node_updateHash (se_sha env) m \<and> d = serializeWithPrefix m) \<Longrightarrow>
   env_ok (fold sf_gotNode got env) \<and> se_sha (fold sf_gotNode got env) = se_sha env"
proof (induction got arbitrary: env)
  case (Cons x got)
  have s: "se_sha (sf_gotNode x env) = se_sha env" by (simp add: sf_gotNode_def)
  have "env_ok (sf_gotNode x env)"
    using Cons.prems(1) Cons.prems(2) [of "fst x" "snd x"] by (cases x) (auto simp: env_ok_def sf_gotNode_def)
  then show ?case using Cons.IH [of "sf_gotNode x env"] Cons.prems(2) s by simp
qed simp

lemma addKnownNode_ok:
  assumes env: "env_ok env" and ok: "sync_ok (se_sha env) m" and d: "wire_node (se_sha env) (nodeID, treeNode)"
  shows "\<exists>r m' got. addKnownNode env nodeID treeNode m = Some (r, m', got) \<and> sync_ok (se_sha env) m' \<and>
    mem_hash (sm_root m') = mem_hash (sm_root m) \<and>
    env_ok (fold sf_gotNode got env) \<and> se_sha (fold sf_gotNode got env) = se_sha env"
proof (cases "isSynching m")
  case True
  have tn: "mem_ok (se_sha env) treeNode" "mem_hash treeNode = node_updateHash (se_sha env) (mem_flat treeNode)" "ni_depth nodeID \<le> 64"
    using d by (simp_all add: wire_node_def)
  obtain r p' bad got where k: "known_loop env nodeID treeNode node_id_root (sm_root m) = Some (r, p', bad, got)"
    using known_loop_total [OF node_id_root_path _ tn(3), of env treeNode "sm_root m"] by (auto simp: path_ok_def)
  have "extends (se_sha env) (sm_root m) p'" using known_loop_extends [OF env tn(1) _ k] ok by (simp add: sync_ok_def)
  then have p': "mem_ok (se_sha env) p'" "mem_hash p' = mem_hash (sm_root m)" by (simp_all add: extends_def)
  have "env_ok (fold sf_gotNode got env) \<and> se_sha (fold sf_gotNode got env) = se_sha env"
    by (rule fold_gotNode_ok [OF env]) (use known_loop_got [OF k] tn(2) in auto)
  then show ?thesis using True k p' by (auto simp: addKnownNode_def sync_ok_def Let_def)
qed (use assms in \<open>simp add: addKnownNode_def\<close>)

section \<open>One acquisition\<close>

text \<open>A map that may be used under a hash: it has that hash and nothing is missing from it.\<close>

definition synced :: "digest \<Rightarrow> uint256 \<Rightarrow> sync_map \<Rightarrow> bool" where
  "synced sha h m \<longleftrightarrow> sync_ok sha m \<and> isValid m \<and> mem_hash (sm_root m) = h \<and> mem_complete (sm_root m)"

definition acquire_ok :: "digest \<Rightarrow> uint256 \<Rightarrow> tx_acquire \<Rightarrow> bool" where
  "acquire_ok sha h ta \<longleftrightarrow> ta_hash ta = h \<and> sync_ok sha (ta_map ta) \<and> (ta_haveRoot ta \<longrightarrow> mem_hash (sm_root (ta_map ta)) = h) \<and>
     (ta_complete ta \<longrightarrow> synced sha h (ta_map ta))"

definition effects_ok :: "digest \<Rightarrow> ta_effect list \<Rightarrow> bool" where
  "effects_ok sha es \<longleftrightarrow> (\<forall>h m. GiveSet h m \<in> set es \<longrightarrow> synced sha h m)"

text \<open>What every call of an acquisition guarantees.\<close>

definition call_ok :: "digest \<Rightarrow> uint256 \<Rightarrow> (tx_acquire \<times> ta_effect list) option \<Rightarrow> bool" where
  "call_ok sha h r \<longleftrightarrow> (\<exists>ta es. r = Some (ta, es) \<and> acquire_ok sha h ta \<and> effects_ok sha es)"

lemma effects_ok_simps [simp]:
  "effects_ok sha []" "effects_ok sha (es @ es') \<longleftrightarrow> effects_ok sha es \<and> effects_ok sha es'"
  "effects_ok sha (SendRequest b ids # es) \<longleftrightarrow> effects_ok sha es"
  "effects_ok sha (GiveSet h m # es) \<longleftrightarrow> synced sha h m \<and> effects_ok sha es"
  by (auto simp: effects_ok_def)

lemma new_sync_ok: "sync_ok sha SHAMap_new_sync" "synced sha zero256 SHAMap_new_sync"
proof -
  show "sync_ok sha SHAMap_new_sync"
    using mem_new_ok [of sha zero256 "FInner inner_empty"] inner_empty_shape
    by (simp add: sync_ok_def SHAMap_new_sync_def inner_hash_ok_def inner_empty_def)
  then show "synced sha zero256 SHAMap_new_sync"
    by (simp add: synced_def SHAMap_new_sync_def isValid_def mem_complete_Inner hooked_def isEmptyBranch_def inner_empty_def)
qed

lemma acquire_new_ok: "acquire_ok sha h (TransactionAcquire_new h)"
  by (simp add: acquire_ok_def TransactionAcquire_new_def new_sync_ok)

lemma acquire_done_ok:
  assumes "acquire_ok sha h ta" "isDone ta"
  shows "call_ok sha h (Some (acquire_done ta))"
  using assms
  by (auto simp: call_ok_def acquire_done_def acquire_ok_def isDone_def setImmutable_def trySetState_def synced_def sync_ok_def isValid_def)

lemma trigger_ok:
  assumes env: "env_ok env" and ok: "acquire_ok (se_sha env) h ta"
  shows "call_ok (se_sha env) h (trigger env ta)"
proof (cases "ta_complete ta \<or> ta_failed ta \<or> \<not> ta_haveRoot ta \<or> \<not> isValid (ta_map ta)")
  case True
  have "call_ok (se_sha env) h (Some (acquire_done (ta\<lparr>ta_failed := True\<rparr>)))"
    by (rule acquire_done_ok) (use ok in \<open>simp_all add: acquire_ok_def isDone_def\<close>)
  then show ?thesis using True ok by (auto simp: trigger_def call_ok_def)
next
  case False
  have s: "sync_ok (se_sha env) (ta_map ta)" using ok by (simp add: acquire_ok_def)
  obtain L m where g: "getMissingNodes env kMissingNodes (ta_map ta) = Some (L, m)"
    and e: "extends (se_sha env) (sm_root (ta_map ta)) (sm_root m)" and c: "isValid m \<Longrightarrow> L = [] \<Longrightarrow> mem_complete (sm_root m)"
    using getMissingNodes_spec [OF env s, of kMissingNodes] by (auto simp: kMissingNodes_def)
  have m: "sync_ok (se_sha env) m" "mem_hash (sm_root m) = h" using e ok False by (simp_all add: extends_def sync_ok_def acquire_ok_def)
  let ?ta = "ta\<lparr>ta_map := m\<rparr>"
  have ta: "acquire_ok (se_sha env) h ?ta" using ok False m by (simp add: acquire_ok_def)
  show ?thesis
  proof (cases "L = []")
    case True
    let ?t = "if isValid m then ?ta\<lparr>ta_complete := True\<rparr> else ?ta\<lparr>ta_failed := True\<rparr>"
    have "acquire_ok (se_sha env) h ?t" "isDone ?t" using ta m c True by (auto simp: acquire_ok_def isDone_def synced_def)
    from acquire_done_ok [OF this] show ?thesis using False g True by (simp add: trigger_def Let_def)
  next
    case ne: False
    then show ?thesis using False g ta by (simp add: trigger_def call_ok_def Let_def)
  qed
qed

lemma take_loop_ok:
  "env_ok env \<Longrightarrow> se_sha env = sha \<Longrightarrow> acquire_ok sha h ta \<Longrightarrow> \<not> ta_complete ta \<Longrightarrow> list_all (wire_node sha) ds \<Longrightarrow>
   \<exists>ok env' ta'. take_loop env ds ta = Some (ok, env', ta') \<and> env_ok env' \<and> se_sha env' = sha \<and> acquire_ok sha h ta'"
proof (induction ds arbitrary: env ta)
  case (Cons d ds)
  obtain i p where d: "d = (i, p)" by fastforce
  have w: "wire_node sha (i, p)" "list_all (wire_node sha) ds" using Cons.prems(5) d by simp_all
  have s: "sync_ok sha (ta_map ta)" "ta_hash ta = h" using Cons.prems(3) by (simp_all add: acquire_ok_def)
  show ?case
  proof (cases "isRoot i")
    case True
    show ?thesis
    proof (cases "ta_haveRoot ta")
      case hr: True
      then show ?thesis using Cons.IH [OF Cons.prems(1-4) w(2)] d True by simp
    next
      case hr: False
      obtain r m where a: "addRootNode h p (ta_map ta) = (r, m)" by fastforce
      have "sync_ok sha m \<and> (isGood r \<longrightarrow> mem_hash (sm_root m) = h)"
        using a s(1) w(1) by (auto simp: addRootNode_def Let_def isGood_def an_invalid_def an_dup_def an_useful_def sync_ok_def wire_node_def split: if_splits)
      then have t: "acquire_ok sha h (ta\<lparr>ta_map := m\<rparr>)" "isGood r \<Longrightarrow> acquire_ok sha h (ta\<lparr>ta_map := m, ta_haveRoot := True\<rparr>)"
        using Cons.prems(3,4) hr by (simp_all add: acquire_ok_def)
      show ?thesis
        using Cons.IH [OF Cons.prems(1,2) t(2) _ w(2)] d True hr a s(2) t(1) Cons.prems(1,2,4) by (cases "isGood r") auto
    qed
  next
    case False
    obtain r m got where a: "addKnownNode env i p (ta_map ta) = Some (r, m, got)" "sync_ok sha m" "mem_hash (sm_root m) = mem_hash (sm_root (ta_map ta))"
      "env_ok (fold sf_gotNode got env)" "se_sha (fold sf_gotNode got env) = sha"
      using addKnownNode_ok [OF Cons.prems(1), of "ta_map ta" i p] s(1) w(1) Cons.prems(2) by auto
    have t: "acquire_ok sha h (ta\<lparr>ta_map := m\<rparr>)" using Cons.prems(3,4) a(2,3) by (simp add: acquire_ok_def)
    show ?thesis using Cons.IH [OF a(4,5) t _ w(2)] d False a t Cons.prems(4) by (cases "isGood r") auto
  qed
qed auto

lemma takeNodes_ok:
  assumes env: "env_ok env" and ok: "acquire_ok (se_sha env) h ta" and ds: "list_all (wire_node (se_sha env)) ds"
    and t: "takeNodes env ds ta = (r, ta', es)"
  shows "acquire_ok (se_sha env) h ta' \<and> effects_ok (se_sha env) es"
proof (cases "ta_complete ta \<or> ta_failed ta \<or> ds = []")
  case True
  then show ?thesis using t ok by (auto simp: takeNodes_def split: if_splits)
next
  case False
  obtain b env' ta1 where l: "take_loop env ds ta = Some (b, env', ta1)" "env_ok env'" "se_sha env' = se_sha env" "acquire_ok (se_sha env) h ta1"
    using take_loop_ok [OF env refl ok _ ds] False by auto
  obtain ta2 es2 where g: "trigger env' ta1 = Some (ta2, es2)" "acquire_ok (se_sha env) h ta2" "effects_ok (se_sha env) es2"
    using trigger_ok [OF l(2), of h ta1] l(3,4) by (auto simp: call_ok_def)
  then show ?thesis using t False l by (cases b) (auto simp: takeNodes_def acquire_ok_def)
qed

lemma acquire_addPeers_ok:
  "env_ok env \<Longrightarrow> acquire_ok (se_sha env) h ta \<Longrightarrow> call_ok (se_sha env) h (acquire_addPeers env n ta)"
proof (induction n arbitrary: ta)
  case (Suc n)
  obtain ta1 es1 where t: "trigger env ta = Some (ta1, es1)" "acquire_ok (se_sha env) h ta1" "effects_ok (se_sha env) es1"
    using trigger_ok [OF Suc.prems] by (auto simp: call_ok_def)
  from Suc.IH [OF Suc.prems(1) t(2)] show ?case using t by (auto simp: call_ok_def)
qed (simp add: call_ok_def)

lemma invokeOnTimer_ok:
  assumes env: "env_ok env" and ok: "acquire_ok (se_sha env) h ta"
  shows "call_ok (se_sha env) h (invokeOnTimer env peers ta)"
proof -
  have timer: "call_ok (se_sha env) h (acquire_onTimer env peers ta)" if ok: "acquire_ok (se_sha env) h ta" for ta
  proof (cases "ta_timeouts ta > kMaxTimeouts")
    case True
    have "call_ok (se_sha env) h (Some (acquire_done (ta\<lparr>ta_failed := True\<rparr>)))"
      by (rule acquire_done_ok) (use ok in \<open>simp_all add: acquire_ok_def isDone_def\<close>)
    then show ?thesis using True by (simp add: acquire_onTimer_def)
  next
    case False
    have "call_ok (se_sha env) h (if ta_timeouts ta \<ge> kNormTimeouts then trigger env ta else Some (ta, []))"
      using trigger_ok [OF env ok] ok by (simp add: call_ok_def)
    then obtain ta1 es1 where t: "(if ta_timeouts ta \<ge> kNormTimeouts then trigger env ta else Some (ta, [])) = Some (ta1, es1)"
        "acquire_ok (se_sha env) h ta1" "effects_ok (se_sha env) es1" unfolding call_ok_def by blast
    from acquire_addPeers_ok [OF env t(2), of "min 1 peers"] show ?thesis
      unfolding acquire_onTimer_def t(1) using False t(3) by (auto simp: call_ok_def)
  qed
  have "acquire_ok (se_sha env) h (ta\<lparr>ta_timeouts := k\<rparr>)" "acquire_ok (se_sha env) h (ta\<lparr>ta_progress := b\<rparr>)" for k b
    using ok by (simp_all add: acquire_ok_def)
  then show ?thesis using timer ok by (simp add: invokeOnTimer_def call_ok_def)
qed

section \<open>All acquisitions\<close>

definition inbound_set_ok :: "digest \<Rightarrow> uint256 \<Rightarrow> inbound_set \<Rightarrow> bool" where
  "inbound_set_ok sha h s \<longleftrightarrow> (\<forall>ta. is_acquire s = Some ta \<longrightarrow> acquire_ok sha h ta) \<and> (\<forall>m. is_set s = Some m \<longrightarrow> synced sha h m)"

definition inbound_ok :: "digest \<Rightarrow> inbound \<Rightarrow> bool" where
  "inbound_ok sha it \<longleftrightarrow> hm_all (inbound_set_ok sha) (it_map it)"

text \<open>The jobs that hand a set over, out of the effects of a call.\<close>

definition gives :: "it_effect list \<Rightarrow> (uint256 \<times> sync_map) list" where
  "gives es = concat (map (\<lambda>e. case e of Acquire (GiveSet h m) \<Rightarrow> [(h, m)] | _ \<Rightarrow> []) es)"

text \<open>
  The states of \<^verbatim>\<open>InboundTransactions\<close> with the jobs queued so far, in any order of calls, whatever the
  peers send. A set of this server (\<^verbatim>\<open>RCLConsensus::Adaptor::share\<close>) is given under its own hash.
\<close>

inductive inbound_reach :: "digest \<Rightarrow> inbound \<Rightarrow> (uint256 \<times> sync_map) list \<Rightarrow> bool" for sha where
  start: "inbound_reach sha InboundTransactions_new []"
| get: "inbound_reach sha it jobs \<Longrightarrow> env_ok env \<Longrightarrow> se_sha env = sha \<Longrightarrow>
    getSet env peers h acquire it = Some (r, it', es) \<Longrightarrow> inbound_reach sha it' (jobs @ gives es)"
| dat: "inbound_reach sha it jobs \<Longrightarrow> env_ok env \<Longrightarrow> se_sha env = sha \<Longrightarrow>
    gotData env h packet it = (it', es) \<Longrightarrow> inbound_reach sha it' (jobs @ gives es)"
| timer: "inbound_reach sha it jobs \<Longrightarrow> env_ok env \<Longrightarrow> se_sha env = sha \<Longrightarrow>
    inbound_timer env peers h it = Some (it', es) \<Longrightarrow> inbound_reach sha it' (jobs @ gives es)"
| job: "inbound_reach sha it jobs \<Longrightarrow> (h, m) \<in> set jobs \<Longrightarrow> giveSet h m True it = (it', es) \<Longrightarrow> inbound_reach sha it' jobs"
| own: "inbound_reach sha it jobs \<Longrightarrow> synced sha h m \<Longrightarrow> giveSet h m False it = (it', es) \<Longrightarrow> inbound_reach sha it' jobs"
| round: "inbound_reach sha it jobs \<Longrightarrow> newRound seq it = Some it' \<Longrightarrow> inbound_reach sha it' jobs"
| stop: "inbound_reach sha it jobs \<Longrightarrow> inbound_reach sha (inbound_stop it) jobs"

lemma gives_simps [simp]:
  "gives [] = []" "gives (es @ es') = gives es @ gives es'" "gives (ChargeInvalid # es) = gives es" "gives (ChargeUseless # es) = gives es"
  by (simp_all add: gives_def)

lemma gives_ok: "effects_ok sha es \<Longrightarrow> (h, m) \<in> set (gives (map Acquire es)) \<Longrightarrow> synced sha h m"
  by (fastforce simp: gives_def effects_ok_def split: ta_effect.splits)

lemma inbound_assign:
  "inbound_ok sha it \<Longrightarrow> inbound_set_ok sha h s \<Longrightarrow> inbound_ok sha (it\<lparr>it_map := hm_assign (it_map it) h s\<rparr>)"
  by (simp add: inbound_ok_def hm_all_assign)

lemma inbound_find: "inbound_ok sha it \<Longrightarrow> hm_find (it_map it) h = Some s \<Longrightarrow> inbound_set_ok sha h s"
  unfolding inbound_ok_def by (rule hm_all_find)

lemma stillNeed_ok: "acquire_ok sha h ta \<Longrightarrow> acquire_ok sha h (stillNeed ta)"
  by (simp add: acquire_ok_def stillNeed_def)

lemma getSet_ok:
  assumes env: "env_ok env" and ok: "inbound_ok (se_sha env) it" and g: "getSet env peers h acquire it = Some (r, it', es)"
  shows "inbound_ok (se_sha env) it' \<and> (\<forall>(k, m) \<in> set (gives es). synced (se_sha env) k m)"
proof (cases "hm_find (it_map it) h")
  case None
  have c: "call_ok (se_sha env) h (acquire_init env peers kStartPeers (TransactionAcquire_new h))"
    unfolding acquire_init_def by (rule acquire_addPeers_ok [OF env acquire_new_ok])
  then obtain ta es' where t: "acquire_init env peers kStartPeers (TransactionAcquire_new h) = Some (ta, es')" "acquire_ok (se_sha env) h ta" "effects_ok (se_sha env) es'"
    by (auto simp: call_ok_def)
  show ?thesis
  proof (cases "\<not> acquire \<or> it_stopping it")
    case False
    then have e: "es = map Acquire es'" "it' = it\<lparr>it_map := hm_assign (it_map it) h (inbound_empty\<lparr>is_acquire := Some ta, is_seq := it_seq it\<rparr>)\<rparr>"
      using g None t(1) by (auto simp: getSet_def)
    have "inbound_ok (se_sha env) it'" unfolding e(2) by (rule inbound_assign [OF ok]) (simp add: inbound_set_ok_def inbound_empty_def t(2))
    then show ?thesis using gives_ok [OF t(3)] e(1) by auto
  qed (use g None ok in \<open>auto simp: getSet_def\<close>)
next
  case (Some s)
  have s: "inbound_set_ok (se_sha env) h s" by (rule inbound_find [OF ok Some])
  have "inbound_ok (se_sha env) (it\<lparr>it_map := hm_assign (it_map it) h (s\<lparr>is_seq := it_seq it, is_acquire := map_option stillNeed (is_acquire s)\<rparr>)\<rparr>)"
    by (rule inbound_assign [OF ok]) (use s stillNeed_ok in \<open>auto simp: inbound_set_ok_def\<close>)
  then show ?thesis using g Some ok by (auto simp: getSet_def split: if_splits)
qed

lemma gotData_ok:
  assumes env: "env_ok env" and ok: "inbound_ok (se_sha env) it" and g: "gotData env h packet it = (it', es)"
  shows "inbound_ok (se_sha env) it' \<and> (\<forall>(k, m) \<in> set (gives es). synced (se_sha env) k m)"
proof (cases "\<exists>s ta ds. hm_find (it_map it) h = Some s \<and> is_acquire s = Some ta \<and> packet_nodes (se_sha env) packet = Some ds")
  case False
  then show ?thesis using g ok by (auto simp: gotData_def split: option.splits)
next
  case True
  then obtain s ta ds where s: "hm_find (it_map it) h = Some s" "is_acquire s = Some ta" "packet_nodes (se_sha env) packet = Some ds" by blast
  have ta: "acquire_ok (se_sha env) h ta" "inbound_set_ok (se_sha env) h s" using inbound_find [OF ok s(1)] s(2) by (simp_all add: inbound_set_ok_def)
  obtain r ta' es' where t: "takeNodes env ds ta = (r, ta', es')" by (metis prod_cases3)
  note w = takeNodes_ok [OF env ta(1) packet_nodes_ok [OF env_okD(2) [OF env] s(3)] t]
  have it': "it' = it\<lparr>it_map := hm_assign (it_map it) h (s\<lparr>is_acquire := Some ta'\<rparr>)\<rparr>" using g s t by (auto simp: gotData_def)
  have "set (gives es) = set (gives (map Acquire es'))" using g s t by (auto simp: gotData_def split: if_splits)
  moreover have "inbound_ok (se_sha env) it'" unfolding it' by (rule inbound_assign [OF ok]) (use w ta in \<open>simp add: inbound_set_ok_def\<close>)
  ultimately show ?thesis using gives_ok [OF w [THEN conjunct2]] by auto
qed

lemma inbound_timer_ok:
  assumes env: "env_ok env" and ok: "inbound_ok (se_sha env) it" and g: "inbound_timer env peers h it = Some (it', es)"
  shows "inbound_ok (se_sha env) it' \<and> (\<forall>(k, m) \<in> set (gives es). synced (se_sha env) k m)"
proof (cases "\<exists>s ta. hm_find (it_map it) h = Some s \<and> is_acquire s = Some ta")
  case False
  then show ?thesis using g ok by (auto simp: inbound_timer_def split: option.splits)
next
  case True
  then obtain s ta where s: "hm_find (it_map it) h = Some s" "is_acquire s = Some ta" by blast
  have ta: "acquire_ok (se_sha env) h ta" "inbound_set_ok (se_sha env) h s" using inbound_find [OF ok s(1)] s(2) by (simp_all add: inbound_set_ok_def)
  obtain ta' es' where t: "invokeOnTimer env peers ta = Some (ta', es')" "acquire_ok (se_sha env) h ta'" "effects_ok (se_sha env) es'"
    using invokeOnTimer_ok [OF env ta(1), of peers] by (auto simp: call_ok_def)
  have it': "it' = it\<lparr>it_map := hm_assign (it_map it) h (s\<lparr>is_acquire := Some ta'\<rparr>)\<rparr>" "es = map Acquire es'"
    using g s t by (auto simp: inbound_timer_def)
  have "inbound_ok (se_sha env) it'" unfolding it' by (rule inbound_assign [OF ok]) (use t ta in \<open>simp add: inbound_set_ok_def\<close>)
  then show ?thesis using gives_ok [OF t(3)] it'(2) by auto
qed

lemma giveSet_ok:
  assumes ok: "inbound_ok sha it" and m: "synced sha h m" and g: "giveSet h m b it = (it', es)"
  shows "inbound_ok sha it'"
proof -
  have e: "inbound_set_ok sha h (case hm_find (it_map it) h of Some s \<Rightarrow> s | None \<Rightarrow> inbound_empty)"
    using inbound_find [OF ok, of h] by (auto simp: inbound_set_ok_def inbound_empty_def split: option.splits)
  show ?thesis
    using g inbound_assign [OF ok] e m by (auto simp: giveSet_def Let_def inbound_set_ok_def intro!: inbound_assign [OF ok] split: option.splits)
qed

lemma newRound_ok: "inbound_ok sha it \<Longrightarrow> newRound seq it = Some it' \<Longrightarrow> inbound_ok sha it'"
proof -
  assume ok: "inbound_ok sha it" and n: "newRound seq it = Some it'"
  obtain z where z: "hm_find (it_map it) zero256 = Some z" using n by (auto simp: newRound_def split: option.splits)
  have "hm_all (inbound_set_ok sha) (hm_assign (it_map it) zero256 (z\<lparr>is_seq := seq\<rparr>))"
    by (rule hm_all_assign) (use ok inbound_find [OF ok z] in \<open>simp_all add: inbound_ok_def inbound_set_ok_def\<close>)
  then show ?thesis using n z by (auto simp: newRound_def Let_def inbound_ok_def hm_all_filter split: if_splits)
qed

lemma inbound_reach_ok: "inbound_reach sha it jobs \<Longrightarrow> inbound_ok sha it \<and> (\<forall>(h, m) \<in> set jobs. synced sha h m)"
proof (induction rule: inbound_reach.induct)
  case start
  have "hm_all (inbound_set_ok sha) (hm_assign [] zero256 (inbound_empty\<lparr>is_set := Some SHAMap_new_sync\<rparr>))"
    by (rule hm_all_assign [OF hm_all_Nil]) (simp add: inbound_set_ok_def inbound_empty_def new_sync_ok(2))
  then show ?case by (simp add: inbound_ok_def InboundTransactions_new_def)
next
  case (get it jobs env peers h acquire r it' es)
  then show ?case using getSet_ok [OF get(2), of it peers h acquire r it' es] by auto
next
  case (dat it jobs env h packet it' es)
  then show ?case using gotData_ok [OF dat(2), of it h packet it' es] by auto
next
  case (timer it jobs env peers h it' es)
  then show ?case using inbound_timer_ok [OF timer(2), of it peers h it' es] by auto
next
  case (job it jobs h m it' es)
  then show ?case using giveSet_ok [of sha it h m True it' es] by blast
next
  case (own it jobs h m it' es)
  then show ?case using giveSet_ok [of sha it h m False it' es] by blast
next
  case (round it jobs seq it')
  then show ?case using newRound_ok by blast
next
  case (stop it jobs)
  then show ?case by (simp add: inbound_ok_def inbound_stop_def hm_all_Nil)
qed

end
