(* ===== verification/TransactionAcquire_Properties.thy ===== *)
theory TransactionAcquire_Properties
  imports TransactionAcquire_Correct SHAMap_Order
begin

text \<open>
  The properties of synchronising a map and of acquiring transaction sets, and a run of an
  acquisition on two transactions that their witnesses evaluate.
\<close>

section \<open>A run\<close>

definition ex_env :: sync_env where
  "ex_env = \<lparr>se_sha = ex_sha, se_generation = 1, se_touchIfExists = (\<lambda>_. False), se_cacheLookup = (\<lambda>_. None),
     se_retrieve = (\<lambda>_. None), se_fetchFromCache = (\<lambda>_. None), se_randInt = (\<lambda>_. 5)\<rparr>"

lemma ex_env_ok: "env_ok ex_env" "se_sha ex_env = ex_sha" "\<not> se_touchIfExists ex_env x"
  by (simp_all add: env_ok_def ex_env_def ex_sha_def)

definition acq_tx :: "byte \<Rightarrow> shamap_item" where
  "acq_tx b = \<lparr>si_key = replicate 32 (0x4E + 2 * b), si_data = replicate 41 b\<rparr>"

text \<open>The set of two transactions, whose keys start with the nibbles 1 and 3.\<close>

definition acq_set :: tree where
  "acq_set = foldl (\<lambda>t i. case addGiveItem TnTransactionNm i t of Some (t', _) \<Rightarrow> t' | None \<Rightarrow> t) SHAMap_new [acq_tx 0x62, acq_tx 0x72]"









lemma acq_set_facts:
  "shamap_inv TnTransactionNm acq_set" "items_ok ex_sha TnTransactionNm acq_set" "list_all (\<lambda>x. ex_sha x \<noteq> zero256) (preimages ex_sha acq_set)"
  "tree_items acq_set = [acq_tx 0x62, acq_tx 0x72]"
  by code_simp+




section \<open>Properties\<close>

lemma commits_root:
  assumes "\<And>x. uint256_ok (sha x)" "shamap_inv ty r" "items_ok sha ty r" "nonzero sha r" "tree_items r \<noteq> []"
    "mem_ok sha p" "mem_hash p = getHash sha r" "\<not> collision sha (preimages sha r) (mem_encodings p)"
  shows "commits sha ty [] r p"
  using assms by (simp add: commits_def shamap_inv_def getHash_def)




text \<open>
  C18: a set that exists is never called invalid. If the root hash of a map is that of a tree, then
  neither \<^verbatim>\<open>addKnownNode\<close>, for whatever node a peer offers, nor \<^verbatim>\<open>getMissingNodes\<close> turns a valid map
  into an invalid one, unless an inner node in the map names a branch with hash zero or the digest
  collides between the tree and an encoding in the map or in the node offered.
\<close>

theorem valid_map_stays_valid:
  assumes env: "env_ok env" and m: "sync_ok (se_sha env) m" "isValid m" and tn: "mem_ok (se_sha env) treeNode" and k: "0 < k"
    and r: "shamap_inv ty r" "items_ok (se_sha env) ty r" "nonzero (se_sha env) r" "tree_items r \<noteq> []" "getHash (se_sha env) r = mem_hash (sm_root m)"
    and step: "addKnownNode env nodeID treeNode m = Some (res, m', got) \<or> getMissingNodes env k m = Some (L, m')"
    and col: "\<not> collision (se_sha env) (preimages (se_sha env) r) (mem_encodings (sm_root m') @ mem_encodings treeNode)"
    and clean: "mem_clean (sm_root m')"
  shows "isValid m'"
proof -
  let ?sha = "se_sha env"
  have c: "\<not> collision ?sha (preimages ?sha r) (mem_encodings (sm_root m'))" "\<not> collision ?sha (preimages ?sha r) (mem_encodings treeNode)"
    using col by (auto simp: collision_def list_ex_iff)
  have com: "commits ?sha ty [] r (sm_root m')" if "extends ?sha (sm_root m) (sm_root m')"
    by (rule commits_root [OF env_okD(2) [OF env] r(1-4) _ _ c(1)]) (use that r(5) in \<open>simp_all add: extends_def\<close>)
  show ?thesis
  proof (cases "getMissingNodes env k m = Some (L, m')")
    case True
    then have "extends ?sha (sm_root m) (sm_root m')" "\<not> isValid m' \<longrightarrow> mem_deep 0 (sm_root m')"
      using getMissingNodes_spec [OF env m(1) k] m(2) by auto
    then show ?thesis using commits_not_deep [OF com clean] by auto
  next
    case False
    then have a: "addKnownNode env nodeID treeNode m = Some (res, m', got)" using step by blast
    show ?thesis
    proof (cases "isSynching m")
      case True
      then obtain p bad where p: "known_loop env nodeID treeNode (path_id []) (sm_root m) = Some (res, p, bad, got)"
          "m' = (if bad then setInvalid (m\<lparr>sm_root := p\<rparr>) else m\<lparr>sm_root := p\<rparr>)"
        using a by (auto simp: addKnownNode_def node_id_root_path Let_def)
      have root: "sm_root m' = p" using p(2) by simp
      have ok: "mem_ok ?sha (sm_root m)" using m(1) by (simp add: sync_ok_def)
      have "commits ?sha ty [] r p" using com known_loop_extends [OF env tn ok p(1)] root by simp
      from known_loop_valid [OF p(1) env ok tn _ this c(2)] have "\<not> bad" using clean root path_id_simps(1) [of "[]"] by (simp add: path_ok_def)
      then show ?thesis using p(2) m(2) by (simp add: isValid_def)
    qed (use a m(2) in \<open>simp add: addKnownNode_def\<close>)
  qed
qed

definition acq_synching :: sync_map where
  "acq_synching = \<lparr>sm_root = tree_node ex_sha acq_set, sm_state = StSynching\<rparr>"

definition acq_reply :: "byte \<Rightarrow> mem_node" where
  "acq_reply b = tree_node ex_sha (SLeaf TnTransactionNm (acq_tx b))"

definition acq_added :: sync_map where
  "acq_added = (case addKnownNode ex_env (createID 1 (si_key (acq_tx 0x62))) (acq_reply 0x62) acq_synching of Some (_, m, _) \<Rightarrow> m | None \<Rightarrow> acq_synching)"

lemma acq_added_facts:
  "addKnownNode ex_env (createID 1 (si_key (acq_tx 0x62))) (acq_reply 0x62) acq_synching =
     Some (an_useful, acq_added, [(mem_hash (acq_reply 0x62), serializeWithPrefix (mem_flat (acq_reply 0x62)))])"
  "mem_ok ex_sha (sm_root acq_synching)" "mem_ok ex_sha (acq_reply 0x62)" "tree_items acq_set \<noteq> []"
  "getHash ex_sha acq_set = mem_hash (sm_root acq_synching)"
  "\<not> collision ex_sha (preimages ex_sha acq_set) (mem_encodings (sm_root acq_added) @ mem_encodings (acq_reply 0x62))"
  "mem_clean (sm_root acq_added)" "isValid acq_synching"
  by code_simp+

theorem valid_map_stays_valid_witness: "isValid acq_added"
proof -
  have "nonzero ex_sha acq_set" using acq_set_facts(3) by (simp add: nonzero_def)
  then show ?thesis
    using valid_map_stays_valid [of ex_env acq_synching "acq_reply 0x62" 1 TnTransactionNm acq_set, OF ex_env_ok(1) _ acq_added_facts(8) _ _ acq_set_facts(1) _ _ acq_added_facts(4)]
      acq_added_facts acq_set_facts(2) ex_env_ok(2) by (simp add: sync_ok_def) blast
qed









end
