(* ===== verification/Spec2Isabelle.thy ===== *)
theory Spec2Isabelle
  imports ConsensusProperties Validations_Properties CensorshipDetector NegativeUNLVote_Correct TransactionAcquire_Properties
begin

text \<open>
  \<^bold>\<open>A verification library for the consensus layer of rippled.\<close>

  The server agrees with its peers on one ledger after the other. The parts of it that are modelled
  here, and how they use each other:

  \<^item> the \<^emph>\<open>consensus engine\<close> runs the rounds: it closes the open ledger, exchanges proposals of
    transaction sets, lets disputed transactions converge and accepts a set;
  \<^item> the \<^emph>\<open>transaction sets\<close> it votes on are \<^emph>\<open>SHAMaps\<close>, radix trees of hashed nodes that commit to
    their items with a root hash, can be compared and iterated, and give membership proofs. A set of
    a peer that this server does not have is \<^emph>\<open>acquired\<close> node by node from its root hash;
  \<^item> after a round every server signs a validation. The \<^emph>\<open>validations\<close> keep what the other nodes
    validated and feed the \<^emph>\<open>ledger trie\<close>, which tells the engine which ledger the trusted nodes prefer;
  \<^item> around it, the \<^emph>\<open>negative UNL votes\<close> count validations to find unreliable validators, and the
    \<^emph>\<open>censorship detector\<close> follows the transactions that we proposed and that were not accepted.

  \<^bold>\<open>Theories and sources.\<close> Paths are relative to the root of the repository.

  \<^item> \<open>Rippled_Prelude\<close>: hash maps as association lists with the interface \<open>hash_map_spec\<close>, clocks, shared
    lemmas. \<open>Float32\<close>: the \<^verbatim>\<open>float\<close> arithmetic of the engine and of the negative UNL, with the lemma that
    small dyadic numbers are exact.
  \<^item> \<open>LedgerTiming\<close>: \<^verbatim>\<open>include/xrpl/ledger/LedgerTiming.h\<close>, close-time resolution and rounding on 32-bit
    words. \<open>ConsensusParms\<close>, \<open>DisputedTx\<close>, \<open>ConsensusProposal\<close>, \<open>ConsensusTypes\<close>: the headers of these names
    in \<^verbatim>\<open>include/xrpl/consensus\<close>. \<open>ConsensusDecision\<close>: \<^verbatim>\<open>src/libxrpl/consensus/Consensus.cpp\<close>.
  \<^item> \<open>ConsensusEngine\<close>: \<^verbatim>\<open>include/xrpl/consensus/Consensus.h\<close>. The state is the record \<open>consensus\<close>, with one
    definition per member function. The adaptor is a record of the answers that a call gets; calls
    without an answer are events of \<open>cs_log\<close>. \<open>ConsensusInvariants\<close> has the interface \<open>tx_set\<close> (what the engine
    asks of transaction sets) and the invariant of disputes; \<open>ConsensusRounds\<close> shows that every entry
    point keeps it; \<open>ConsensusReach\<close> has the step relation and the reachable states;
    \<open>ConsensusProperties\<close> the properties.
  \<^item> \<open>LedgerTrie\<close>: \<^verbatim>\<open>include/xrpl/consensus/LedgerTrie.h\<close>; a pointer to a node is a path of child indices.
    \<open>LedgerTrie_Correct\<close> has the interface \<open>ledger_history\<close> and the refinement to a multiset of histories,
    \<open>LedgerTrie_Preferred\<close> the preferred ledger, \<open>RCLValidatedLedger\<close> the ledger type of
    \<^verbatim>\<open>src/xrpld/app/consensus/RCLValidations.cpp\<close> and the interpretation of the interface.
  \<^item> \<open>Validations\<close>: \<^verbatim>\<open>include/xrpl/consensus/Validations.h\<close> with the aged containers it uses.
    \<open>Validations_Correct\<close> shows that the trie counts the last ledgers and what the sequence enforcer
    grants, \<open>Validations_Evidence\<close> that support has evidence; \<open>RCLValidations\<close> is the rest of
    \<^verbatim>\<open>RCLValidations.cpp\<close>: acquiring a ledger and handling a validation from the network;
    \<open>Validations_Properties\<close> has the properties.
  \<^item> \<open>SHAMapNodeID\<close>, \<open>SHAMapTreeNode\<close>, \<open>SHAMap\<close>, \<open>SHAMapDelta\<close>, \<open>SHAMapProof\<close>: the files of these names in
    \<^verbatim>\<open>src/libxrpl/shamap\<close> and \<^verbatim>\<open>include/xrpl/shamap\<close>, the inner and leaf nodes included, and the proof paths of
    \<^verbatim>\<open>SHAMapSync.cpp\<close>. A map is a value \<open>tree\<close>. \<open>SHAMap_Correct\<close> has the invariant and the refinement to a
    map from keys to items, \<open>SHAMap_Order\<close> iteration and bounds, \<open>SHAMap_Hash\<close> the root hash,
    \<open>SHAMapDelta_Correct\<close> the comparison. \<open>RCLCxTx\<close>: \<^verbatim>\<open>src/xrpld/app/consensus/RCLCxTx.h\<close>, and the
    interpretation of \<open>tx_set\<close> on these sets.
  \<^item> \<open>SHAMapSync\<close>: the rest of \<^verbatim>\<open>SHAMapSync.cpp\<close> that concerns maps without a backing store, with \<^verbatim>\<open>SHAMapAddNode.h\<close>
    and the states of \<^verbatim>\<open>SHAMap.h\<close>. A map that is being acquired is a \<open>mem_node\<close>, whose children may be named and
    absent. \<open>SHAMapSync_Correct\<close> shows what every operation keeps and what the walk for missing nodes finds,
    \<open>SHAMapSync_Sound\<close> relates such a map to the tree its root hash commits to.
    \<open>TransactionAcquire\<close>: \<^verbatim>\<open>TransactionAcquire.cpp\<close>, \<^verbatim>\<open>TimeoutCounter.cpp\<close>, \<^verbatim>\<open>LedgerNodeHelpers.cpp\<close> and
    \<^verbatim>\<open>InboundTransactions.cpp\<close> in \<^verbatim>\<open>src/xrpld/app/ledger/detail\<close>, and \<^verbatim>\<open>ConsensusTransSetSF.cpp\<close>;
    \<open>TransactionAcquire_Correct\<close> has the invariant and the reachable states, \<open>TransactionAcquire_Properties\<close> the
    properties.
  \<^item> \<open>CensorshipDetector\<close>: \<^verbatim>\<open>include/xrpl/consensus/CensorshipDetector.h\<close> and \<^verbatim>\<open>include/xrpl/basics/algorithm.h\<close>.
    \<open>NegativeUNLVote\<close>, \<open>NegativeUNLVote_Correct\<close>: \<^verbatim>\<open>src/xrpld/app/misc/NegativeUNLVote.cpp\<close>, over the
    validations and the SHAMap.

  \<^bold>\<open>What is shown.\<close>

  \<^item> Ledger trie and validations: the trie is a multiset of ledger histories, its preferred ledger is
    that of a specification that never mentions spans, and its own invariant check succeeds. In the
    validations it counts each node once, for the last ledger acquired for it; every count goes back to
    a validation of a trusted node; sequence numbers that the node issues increase until they expire;
    a reported conflict has an earlier validation as evidence.
  \<^item> SHAMap: a map from keys to items for any sequence of operations, with a tree and hash that do not
    depend on the history; the root hash determines the items unless the digest collides; iteration
    is in key order; the comparison reports exactly the differences, up to its limit; a proof path is
    accepted only for an item of the map, and the path made for an item is accepted; the node encodings
    can be read back.
  \<^item> Acquisition: whatever peers send, a set that is handed to consensus is complete and holds the
    transactions of the set with its hash; missing nodes are reported exactly; an honest answer to a
    request is useful, so that an acquisition makes progress; a set that exists is not called invalid.
  \<^item> Engine: in every reachable state the disputes are what the known sets of the current peers make
    them; a ledger is accepted only with the consensus that \<^verbatim>\<open>checkConsensus\<close> asks for; a node does not
    start to propose inside a round; the timer returns; a close time is agreed only by a plurality.
  \<^item> Decisions and votes: a verdict is reached in the end, two positions do not both reach the
    threshold, close times move on, votes are counted exactly.
  \<^item> Negative UNL: nodes with the same inputs vote alike in whatever order their tables are, at most a
    quarter of the trusted validators is disabled, scores count validated ledgers, and a vote adds only
    its own transactions. Censorship detector: it is a map to the first proposal of a transaction.

  \<^bold>\<open>Where the code does not do what it says.\<close> Theorems with concrete runs show that a compressed inner
  node may name a branch twice (\<open>SHAMapTreeNode\<close>), that a peer can so make an acquired transaction set
  look empty to the loops over it (\<open>TransactionAcquire_Properties\<close>), that a node removed from the trusted nodes can keep
  its support in the trie, and that a range of validations to be kept can expire
  (\<open>Validations_Properties\<close>); \<open>NegativeUNLVote_Correct\<close> shows that a server with exactly the documented
  minimum of validations does not vote.

  \<^bold>\<open>Parameters, bounds and fuel.\<close> The digest is a parameter; where its collisions matter, their absence on
  the compared encodings is a hypothesis. Network clock times are 32-bit words, durations and the steady
  clock integers, ledger sequence numbers of the trie naturals. \<^verbatim>\<open>timerEntry\<close> calls itself through
  \<^verbatim>\<open>handleWrongLedger\<close>: the model has fuel, and the property on its termination names the fuel that is enough, the number of
  ledgers that the preferred ledger can move through during the call. The walk for missing nodes counts
  down the 64 levels of a tree, which is enough as no inner node is entered below them. All other loops are total functions. Hash tables are lists whose order is
  arbitrary.

  \<^bold>\<open>Not modelled.\<close>

  \<^item> Of the SHAMap: maps with a backing store (the node store, the deferred reads of
    \<^verbatim>\<open>getMissingNodes\<close>, \<^verbatim>\<open>walkMap\<close>), copy on write, flushing, the packed child arrays: they concern sharing and
    storage of nodes, and a map is a value here. The cache of tree nodes and the full-below cache, which a
    map shares with others, are parameters of the calls that read them. \<^verbatim>\<open>visitNodes\<close>, \<^verbatim>\<open>visitDifferences\<close>,
    \<^verbatim>\<open>getNodeFat\<close> and \<^verbatim>\<open>deepCompare\<close> only read a map.
  \<^item> Printing (JSON, \<^verbatim>\<open>to_string\<close>, logs), mutexes and the job queue. Calls are atomic, as the mutexes make
    them.
  \<^item> \<^verbatim>\<open>RCLConsensus.cpp\<close>, the adaptor that binds the engine to the server: it is an argument of the
    engine's definitions, with the hypotheses \<open>adaptor_ok\<close> and \<open>acquire_ok\<close>.
  \<^item> The rest of the server: transaction processing, the overlay network, RPC, the node store, the
    database, cryptography. They are outside the consensus layer and are input and output, or libraries.
\<close>

end
